(* ===== verification/Raft_Prelude.thy ===== *)
theory Raft_Prelude
  imports Main "HOL-Library.List_Lexorder" "HOL-Library.Char_ord" "HOL-Library.AList"
begin

section \<open>Shared vocabulary of the development\<close>

text \<open>
  What every component uses: the exceptions of the C++ code as values of a sum type with its
  sequencing combinator, the narrowing of an \<open>int64\<close> to an \<open>int\<close>, the operations of
  \<open>std::map\<close> and \<open>std::unordered_set\<close> the sources call, decimal printing and
  reading (\<open>std::to_string\<close>, \<open>%020lu\<close>, \<open>std::stoi\<close>), the
  one-directory file system behind \<open>std::fstream\<close> and \<open>std::filesystem\<close>, and the
  lemmas on lists and ordered maps that the component proofs share.
\<close>

named_theorems log_defs \<open>unfolding rules for the operations of the persisted log\<close>
named_theorems node_simps \<open>frame and projection rules for operations of the consensus module\<close>

subsection \<open>Exceptions and sequencing\<close>

text \<open>
  An operation that can throw returns \<open>exn + 'a\<close>. \<open>Undefined_behaviour\<close> stands for
  what the C++ standard leaves undefined (reading a vector out of range, dereferencing a null
  pointer or an end iterator); \<open>Diverges\<close> stands for a loop that never ends.
\<close>

datatype exn =
    Out_of_range
  | Runtime_error
  | Invalid_argument
  | Filesystem_error
  | System_error
  | Bad_weak_ptr
  | Assertion_failed
  | Undefined_behaviour
  | Diverges

type_synonym 'a result = "exn + 'a"

fun rbind :: "'a result \<Rightarrow> ('a \<Rightarrow> 'b result) \<Rightarrow> 'b result" where
  "rbind (Inl e) f = Inl e"
| "rbind (Inr x) f = f x"

lemma rbind_Inr_iff [simp]: "rbind m f = Inr y \<longleftrightarrow> (\<exists>x. m = Inr x \<and> f x = Inr y)"
  by (cases m) auto

lemma rbind_Inl_iff: "rbind m f = Inl e \<longleftrightarrow> m = Inl e \<or> (\<exists>x. m = Inr x \<and> f x = Inl e)"
  by (cases m) auto

lemma rbind_Inr_right [simp]: "rbind m Inr = m"
  by (cases m) auto

lemma rbind_cong [fundef_cong]:
  "m = m' \<Longrightarrow> (\<And>x. m' = Inr x \<Longrightarrow> f x = g x) \<Longrightarrow> rbind m f = rbind m' g"
  by (cases m') auto

subsection \<open>Machine integers\<close>

text \<open>Conversion of a 64-bit protobuf field to the 32-bit \<open>int\<close> of the C++ members.\<close>

definition to_int :: "int \<Rightarrow> int" where
  "to_int x = (x + 2 ^ 31) mod 2 ^ 32 - 2 ^ 31"

definition in_int :: "int \<Rightarrow> bool" where
  "in_int x \<longleftrightarrow> - (2 ^ 31) \<le> x \<and> x < 2 ^ 31"

lemma to_int_id [simp]: "in_int x \<Longrightarrow> to_int x = x"
  by (simp add: to_int_def in_int_def)

lemma in_int_to_int [simp]: "in_int (to_int x)"
  using pos_mod_bound [of "2 ^ 32" "x + 2 ^ 31"] by (simp add: to_int_def in_int_def)

text \<open>
  Comparison of a \<open>size_t\<close> with an \<open>int\<close>: the \<open>int\<close> is converted to an
  unsigned 64-bit value first, so a negative one becomes very large.
\<close>

definition size_t_of_int :: "int \<Rightarrow> int" where
  "size_t_of_int x = x mod 2 ^ 64"

lemma size_t_of_int_nonneg [simp]: "0 \<le> x \<Longrightarrow> x < 2 ^ 63 \<Longrightarrow> size_t_of_int x = x"
  by (simp add: size_t_of_int_def)

subsection \<open>Ordered maps (\<open>std::map\<close>)\<close>

type_synonym 'v omap = "(int \<times> 'v) list"

text \<open>\<open>insert\<close> keeps the value of a key that is already present.\<close>

fun omap_insert :: "int \<Rightarrow> 'v \<Rightarrow> 'v omap \<Rightarrow> 'v omap" where
  "omap_insert k v [] = [(k, v)]"
| "omap_insert k v ((k', v') # m) =
     (if k < k' then (k, v) # (k', v') # m
      else if k = k' then (k', v') # m
      else (k', v') # omap_insert k v m)"

definition omap_erase :: "int \<Rightarrow> 'v omap \<Rightarrow> 'v omap" where
  "omap_erase k m = filter (\<lambda>p. fst p \<noteq> k) m"

text \<open>\<open>it = upper_bound(k); it--\<close>: the last entry whose key is at most \<open>k\<close>.\<close>

definition omap_upper_prev :: "int \<Rightarrow> 'v omap \<Rightarrow> (int \<times> 'v) option" where
  "omap_upper_prev k m =
     (let below = filter (\<lambda>p. fst p \<le> k) m in if below = [] then None else Some (last below))"

text \<open>\<open>rbegin()\<close>: the entry with the largest key.\<close>

definition omap_rbegin :: "'v omap \<Rightarrow> (int \<times> 'v) option" where
  "omap_rbegin m = (if m = [] then None else Some (last m))"

text \<open>\<open>erase(upper_bound(k), end())\<close>.\<close>

definition omap_erase_above :: "int \<Rightarrow> 'v omap \<Rightarrow> 'v omap" where
  "omap_erase_above k m = filter (\<lambda>p. fst p \<le> k) m"

abbreviation omap_sorted :: "'v omap \<Rightarrow> bool" where
  "omap_sorted m \<equiv> sorted_wrt (<) (map fst m)"

lemma set_omap_insert_subset: "set (omap_insert k v m) \<subseteq> insert (k, v) (set m)"
  by (induction m) (auto split: if_splits)

lemma keys_omap_insert: "fst ` set (omap_insert k v m) = insert k (fst ` set m)"
  by (induction k v m rule: omap_insert.induct) (simp_all add: insert_commute)

lemma omap_insert_sorted: "omap_sorted m \<Longrightarrow> omap_sorted (omap_insert k v m)"
proof (induction k v m rule: omap_insert.induct)
  case (2 k v k' v' m)
  have "\<forall>x \<in> fst ` set (omap_insert k v m). k' < x" if "k' < k"
    using that 2 by (simp add: keys_omap_insert)
  with 2 show ?case by fastforce
qed simp

lemma omap_insert_above:
  "\<forall>p \<in> set m. fst p < k \<Longrightarrow> omap_insert k v m = m @ [(k, v)]"
  by (induction m) auto

lemma omap_insert_present:
  "omap_sorted m \<Longrightarrow> k \<in> fst ` set m \<Longrightarrow> omap_insert k v m = m"
  by (induction k v m rule: omap_insert.induct) force+

lemma omap_erase_last:
  "\<forall>p \<in> set m. fst p \<noteq> k \<Longrightarrow> omap_erase k (m @ [(k, v)]) = m"
  by (simp add: omap_erase_def filter_id_conv)

lemma omap_erase_length: "k \<in> fst ` set m \<Longrightarrow> length (omap_erase k m) < length m"
  unfolding omap_erase_def by (auto intro!: length_filter_less)

lemma omap_upper_prev_split:
  assumes "\<forall>p \<in> set m1. fst p \<le> i" and "k \<le> i" and "\<forall>p \<in> set m2. i < fst p"
  shows "omap_upper_prev i (m1 @ (k, v) # m2) = Some (k, v)"
proof -
  have "filter (\<lambda>p. fst p \<le> i) m1 = m1" using assms(1) by (simp add: filter_id_conv)
  moreover have "filter (\<lambda>p. fst p \<le> i) m2 = []" using assms(3) by (auto simp: filter_empty_conv)
  ultimately show ?thesis using assms(2) by (simp add: omap_upper_prev_def)
qed

subsection \<open>Unordered sets of addresses (\<open>std::unordered_set\<close>)\<close>

text \<open>
  A set is a list without duplicates. The iteration order of an unordered set is unspecified;
  the model iterates in insertion order and no theorem depends on that order.
\<close>

type_synonym 'a uset = "'a list"

definition uset_insert :: "'a \<Rightarrow> 'a uset \<Rightarrow> 'a uset" where
  "uset_insert x xs = (if x \<in> set xs then xs else xs @ [x])"

lemma set_uset_insert [simp]: "set (uset_insert x xs) = insert x (set xs)"
  by (auto simp: uset_insert_def)

lemma distinct_uset_insert [simp]: "distinct xs \<Longrightarrow> distinct (uset_insert x xs)"
  by (simp add: uset_insert_def)

definition uset_insert_all :: "'a list \<Rightarrow> 'a uset \<Rightarrow> 'a uset" where
  "uset_insert_all ys xs = fold uset_insert ys xs"

lemma set_uset_insert_all [simp]: "set (uset_insert_all ys xs) = set ys \<union> set xs"
  unfolding uset_insert_all_def by (induction ys arbitrary: xs) auto

lemma distinct_uset_insert_all [simp]: "distinct xs \<Longrightarrow> distinct (uset_insert_all ys xs)"
  unfolding uset_insert_all_def by (induction ys arbitrary: xs) auto

subsection \<open>Decimal numbers\<close>

fun nat_to_string :: "nat \<Rightarrow> string" where
  "nat_to_string n =
     (if n < 10 then [char_of (48 + n)]
      else nat_to_string (n div 10) @ [char_of (48 + n mod 10)])"

declare nat_to_string.simps [simp del]

text \<open>\<open>std::to_string(int)\<close>.\<close>

definition to_string :: "int \<Rightarrow> string" where
  "to_string x = (if x < 0 then CHR ''-'' # nat_to_string (nat (- x)) else nat_to_string (nat x))"

text \<open>\<open>%020lu\<close>: zero padding to twenty columns.\<close>

definition pad20 :: "nat \<Rightarrow> string" where
  "pad20 n = (let s = nat_to_string n in replicate (20 - length s) (CHR ''0'') @ s)"

definition is_digit :: "char \<Rightarrow> bool" where
  "is_digit c \<longleftrightarrow> 48 \<le> (of_char c :: nat) \<and> (of_char c :: nat) \<le> 57"

definition is_space :: "char \<Rightarrow> bool" where
  "is_space c \<longleftrightarrow> (of_char c :: nat) = 32 \<or> (9 \<le> (of_char c :: nat) \<and> (of_char c :: nat) \<le> 13)"

definition digit_value :: "char \<Rightarrow> int" where
  "digit_value c = int (of_char c) - 48"

definition digits_value :: "string \<Rightarrow> int" where
  "digits_value s = foldl (\<lambda>v c. 10 * v + digit_value c) 0 s"

text \<open>
  \<open>std::stoi\<close>: skip white space, an optional sign, then digits; no digit throws
  \<open>invalid_argument\<close>, a value outside \<open>int\<close> throws \<open>out_of_range\<close>.
\<close>

definition stoi :: "string \<Rightarrow> int result" where
  "stoi s =
     (let t = dropWhile is_space s;
          neg = (t \<noteq> [] \<and> hd t = CHR ''-'');
          d = (if t \<noteq> [] \<and> (hd t = CHR ''-'' \<or> hd t = CHR ''+'') then tl t else t);
          ds = takeWhile is_digit d;
          v = (if neg then - digits_value ds else digits_value ds)
      in if ds = [] then Inl Invalid_argument
         else if in_int v then Inr v else Inl Out_of_range)"

text \<open>\<open>find(c)\<close> converted to \<open>int\<close> (-1 when absent) and \<open>substr(0, n)\<close>.\<close>

definition str_find :: "char \<Rightarrow> string \<Rightarrow> int" where
  "str_find c s = (if c \<in> set s then int (length (takeWhile (\<lambda>x. x \<noteq> c) s)) else -1)"

definition str_prefix :: "int \<Rightarrow> string \<Rightarrow> string" where
  "str_prefix n s = (if n < 0 then s else take (nat n) s)"

lemma is_digit_nat_to_string: "c \<in> set (nat_to_string n) \<Longrightarrow> is_digit c"
proof (induction n rule: nat_to_string.induct)
  case (1 n)
  then show ?case
    by (subst (asm) nat_to_string.simps) (auto simp: is_digit_def split: if_splits)
qed

lemma digits_value_snoc: "digits_value (s @ [c]) = 10 * digits_value s + digit_value c"
  by (simp add: digits_value_def)

lemma digits_value_nat_to_string: "digits_value (nat_to_string n) = int n"
proof (induction n rule: nat_to_string.induct)
  case (1 n)
  show ?case
  proof (cases "n < 10")
    case True
    then show ?thesis
      by (subst nat_to_string.simps) (simp add: digits_value_def digit_value_def)
  next
    case False
    have "digit_value (char_of (48 + n mod 10)) = int (n mod 10)"
      by (simp add: digit_value_def)
    with 1 [OF False] False show ?thesis
      by (subst nat_to_string.simps) (simp add: digits_value_snoc, presburger)
  qed
qed

lemma digits_value_zeros: "digits_value (replicate k (CHR ''0'') @ s) = digits_value s"
  unfolding digits_value_def foldl_append
  by (induction k) (simp_all add: digit_value_def)

lemma nat_to_string_nonempty [simp]: "nat_to_string n \<noteq> []"
  by (subst nat_to_string.simps) simp

lemma pad20_digits: "c \<in> set (pad20 n) \<Longrightarrow> is_digit c"
  by (auto simp: pad20_def Let_def is_digit_nat_to_string) (simp add: is_digit_def)

lemma pad20_value: "digits_value (pad20 n) = int n"
  by (simp add: pad20_def Let_def digits_value_zeros digits_value_nat_to_string)

lemma pad20_nonempty [simp]: "pad20 n \<noteq> []"
  by (simp add: pad20_def Let_def)

lemma not_digit [simp]: "\<not> is_digit (CHR ''-'')" "\<not> is_digit (CHR ''+'')" "\<not> is_digit (CHR ''m'')"
  "\<not> is_digit (CHR ''o'')"
  by (simp_all add: is_digit_def)

lemma digit_not_space: "is_digit c \<Longrightarrow> \<not> is_space c"
  by (auto simp: is_digit_def is_space_def)

lemma stoi_digits:
  assumes "s \<noteq> []" and "\<forall>c \<in> set s. is_digit c" and "in_int (digits_value s)"
  shows "stoi s = Inr (digits_value s)"
proof -
  obtain c t where s: "s = c # t" using assms(1) by (cases s) auto
  have c: "is_digit c" using assms(2) s by simp
  have "c \<noteq> CHR ''-''" "c \<noteq> CHR ''+''" using c not_digit by auto
  moreover have "dropWhile is_space s = s" using digit_not_space [OF c] s by simp
  moreover have "takeWhile is_digit s = s" using assms(2) by (simp add: takeWhile_eq_all_conv)
  ultimately show ?thesis using assms(3) s by (simp add: stoi_def Let_def)
qed

subsection \<open>The file system\<close>

text \<open>
  Paths to contents. Output streams are opened with \<open>std::ios::app\<close>, which creates a
  missing file and never truncates; \<open>std::filesystem::rename\<close> replaces its target and
  follows no open stream; \<open>resize_file\<close> pads with zero bytes.
\<close>

type_synonym bytes = string
type_synonym file_system = "(string \<times> bytes) list"

abbreviation fs_read :: "file_system \<Rightarrow> string \<Rightarrow> bytes option" where
  "fs_read fs p \<equiv> map_of fs p"

definition fs_write :: "string \<Rightarrow> bytes \<Rightarrow> file_system \<Rightarrow> file_system" where
  "fs_write p bs fs = AList.update p bs fs"

definition fs_append :: "string \<Rightarrow> bytes \<Rightarrow> file_system \<Rightarrow> file_system" where
  "fs_append p bs fs = fs_write p (case fs_read fs p of None \<Rightarrow> bs | Some old \<Rightarrow> old @ bs) fs"

definition fs_touch :: "string \<Rightarrow> file_system \<Rightarrow> file_system" where
  "fs_touch p fs = fs_append p [] fs"

definition fs_remove :: "string \<Rightarrow> file_system \<Rightarrow> file_system" where
  "fs_remove p fs = AList.delete p fs"

definition fs_rename :: "string \<Rightarrow> string \<Rightarrow> file_system \<Rightarrow> file_system result" where
  "fs_rename p q fs =
     (case fs_read fs p of
        None \<Rightarrow> Inl Filesystem_error
      | Some bs \<Rightarrow> Inr (if p = q then fs else fs_write q bs (fs_remove p fs)))"

definition fs_resize :: "string \<Rightarrow> int \<Rightarrow> file_system \<Rightarrow> file_system result" where
  "fs_resize p n fs =
     (case fs_read fs p of
        None \<Rightarrow> Inl Filesystem_error
      | Some bs \<Rightarrow>
          if n < 0 then Inl Filesystem_error
          else Inr (fs_write p (take (nat n) bs @ replicate (nat n - length bs) (CHR 0x00)) fs))"

lemma fs_read_write [simp]:
  "fs_read (fs_write p bs fs) q = (if q = p then Some bs else fs_read fs q)"
  by (simp add: fs_write_def update_conv)

lemma fs_read_append [simp]:
  "fs_read (fs_append p bs fs) q =
     (if q = p then Some (case fs_read fs p of None \<Rightarrow> bs | Some old \<Rightarrow> old @ bs)
      else fs_read fs q)"
  by (simp add: fs_append_def)

lemma fs_read_touch [simp]:
  "fs_read (fs_touch p fs) q =
     (if q = p \<and> fs_read fs p = None then Some [] else fs_read fs q)"
  by (auto simp: fs_touch_def split: option.splits)

lemma fs_read_remove [simp]:
  "fs_read (fs_remove p fs) q = (if q = p then None else fs_read fs q)"
  by (simp add: fs_remove_def delete_conv)

lemma fs_rename_Inr:
  "fs_read fs p = Some bs \<Longrightarrow> p \<noteq> q \<Longrightarrow> fs_rename p q fs = Inr (fs_write q bs (fs_remove p fs))"
  by (simp add: fs_rename_def)

end
