(* ===== verification/Raft_Messages.thy ===== *)
theory Raft_Messages
  imports Raft_Prelude
begin

section \<open>Protocol messages\<close>

text \<open>
  The messages of \<open>src/protos/log.proto\<close> and \<open>src/protos/raft.proto\<close> that the raft
  components exchange, with the defaults that proto3 gives to unset fields. Field names carry a
  prefix for their message. Serialisation is code of the protobuf library: the record
  \<open>codec\<close> is the parameter that stands for it, with the laws of the delimited format
  that the storage component relies on as the predicate \<open>codec_ok\<close>.
\<close>

subsection \<open>The raft log\<close>

datatype LogOpCode = NO_OP | CONFIGURATION | REGISTER_CLIENT | DATA

record Server =
  address :: string

record Configuration =
  prev_configuration :: "Server list"
  next_configuration :: "Server list"

datatype LogData = LogData_not_set | ConfigurationData Configuration | BytesData bytes

record LogEntry =
  entry_term :: int
  entry_type :: LogOpCode
  entry_data :: LogData

record LogMetadata =
  md_version :: int
  md_term :: int
  md_vote :: string

definition empty_configuration :: Configuration where
  "empty_configuration = \<lparr>prev_configuration = [], next_configuration = []\<rparr>"

definition default_entry :: LogEntry where
  "default_entry = \<lparr>entry_term = 0, entry_type = NO_OP, entry_data = LogData_not_set\<rparr>"

definition default_metadata :: LogMetadata where
  "default_metadata = \<lparr>md_version = 0, md_term = 0, md_vote = []\<rparr>"

definition has_configuration :: "LogEntry \<Rightarrow> bool" where
  "has_configuration e = (case entry_data e of ConfigurationData c \<Rightarrow> True | _ \<Rightarrow> False)"

text \<open>Reading a member of the \<open>oneof\<close> that is not set gives its default.\<close>

definition entry_configuration :: "LogEntry \<Rightarrow> Configuration" where
  "entry_configuration e =
     (case entry_data e of ConfigurationData c \<Rightarrow> c | _ \<Rightarrow> empty_configuration)"

definition entry_bytes :: "LogEntry \<Rightarrow> bytes" where
  "entry_bytes e = (case entry_data e of BytesData b \<Rightarrow> b | _ \<Rightarrow> [])"

subsection \<open>Remote procedure calls\<close>

datatype ErrorCode =
    NOT_LEADER
  | RETRY
  | TIMEOUT
  | CANCELLED
  | OUT_OF_DATE
  | SESSION_EXPIRED
  | LEASE_EXPIRED
  | UNEXPECTED_ERROR

text \<open>
  A \<open>grpc::Status\<close>: OK, CANCELLED, UNKNOWN with a message and the serialised
  \<open>protocol::raft::Error\<close> (its code and leader hint) as details, or an error of the
  transport, which has no details.
\<close>

datatype Status =
    Status_OK
  | Status_CANCELLED
  | Status_UNAVAILABLE
  | Status_UNKNOWN string ErrorCode string

record RequestVote_Request =
  rv_term :: int
  rv_candidateId :: string
  rv_lastLogIndex :: int
  rv_lastLogTerm :: int

record RequestVote_Response =
  rvr_term :: int
  rvr_voteGranted :: bool

record AppendEntries_Request =
  ae_term :: int
  ae_leaderId :: string
  ae_prevLogIndex :: int
  ae_prevLogTerm :: int
  ae_entries :: "LogEntry list"
  ae_leaderCommit :: int

record AppendEntries_Response =
  aer_term :: int
  aer_success :: bool

record GetConfiguration_Response =
  gcr_id :: int
  gcr_servers :: "Server list"

record SetConfiguration_Request =
  sc_oldId :: int
  sc_new_servers :: "Server list"

record SetConfiguration_Response =
  scr_ok :: bool

record RegisterClient_Response =
  rcr_status :: bool
  rcr_clientId :: int
  rcr_leaderHint :: string

record ClientRequest_Request =
  cr_clientId :: int
  cr_sequenceNum :: int
  cr_command :: bytes

record ClientRequest_Response =
  crr_status :: bool
  crr_response :: bytes
  crr_leaderHint :: string

record ClientQuery_Request =
  cq_query :: bytes

record ClientQuery_Response =
  cqr_status :: bool
  cqr_response :: bytes
  cqr_leaderHint :: string

subsection \<open>The protobuf library\<close>

text \<open>
  \<open>SerializeDelimited m\<close> is what \<open>SerializeDelimitedToOstream\<close> writes for \<open>m\<close>
  (\<open>None\<close> when it reports a failure); \<open>ParseDelimited t bs\<close> is
  \<open>ParseDelimitedFromZeroCopyStream\<close> into the message object \<open>t\<close> from a stream that
  still holds \<open>bs\<close>: the message after the call and the number of bytes consumed, or
  \<open>None\<close> at the end of the stream or on malformed data.
\<close>

record 'm codec =
  ByteSizeLong :: "'m \<Rightarrow> nat"
  SerializeDelimited :: "'m \<Rightarrow> bytes option"
  ParseDelimited :: "'m \<Rightarrow> bytes \<Rightarrow> ('m \<times> nat) option"

record protobuf =
  entry_codec :: "LogEntry codec"
  metadata_codec :: "LogMetadata codec"

text \<open>
  The documented delimited format, for a message object \<open>d\<close> in its default state: the
  bytes written for a message read back as that message, whatever follows; the size prefix
  takes at least one byte beside the \<open>ByteSizeLong\<close> bytes of the message; a successful
  parse, into any message object, consumes at least the size prefix and no more than the stream
  holds.
\<close>

definition codec_ok :: "'m \<Rightarrow> 'm codec \<Rightarrow> bool" where
  "codec_ok d c \<longleftrightarrow>
     (\<forall>m bs rest. SerializeDelimited c m = Some bs \<longrightarrow>
        ParseDelimited c d (bs @ rest) = Some (m, length bs)) \<and>
     (\<forall>m bs. SerializeDelimited c m = Some bs \<longrightarrow> ByteSizeLong c m < length bs) \<and>
     (\<forall>t bs m n. ParseDelimited c t bs = Some (m, n) \<longrightarrow> 0 < n \<and> n \<le> length bs)"

lemma codec_parse:
  "codec_ok d c \<Longrightarrow> SerializeDelimited c m = Some bs \<Longrightarrow>
     ParseDelimited c d (bs @ rest) = Some (m, length bs)"
  by (simp add: codec_ok_def)

lemma codec_parse_all:
  "codec_ok d c \<Longrightarrow> SerializeDelimited c m = Some bs \<Longrightarrow>
     ParseDelimited c d bs = Some (m, length bs)"
  using codec_parse [where rest = "[]"] by fastforce

lemma codec_prefix:
  "codec_ok d c \<Longrightarrow> SerializeDelimited c m = Some bs \<Longrightarrow> ByteSizeLong c m < length bs"
  by (simp add: codec_ok_def)

lemma codec_progress:
  "codec_ok d c \<Longrightarrow> ParseDelimited c t bs = Some (m, n) \<Longrightarrow> 0 < n \<and> n \<le> length bs"
  by (simp add: codec_ok_def)

end
