(* ===== verification/Persisted_Log.thy ===== *)
theory Persisted_Log
  imports Raft_Messages
begin

section \<open>The persisted raft log\<close>

text \<open>
  \<open>src/raft/storage.h\<close> and \<open>src/raft/storage.cpp\<close>: class \<open>PersistedLog\<close> and its
  pages. A \<open>Page\<close> is shared between \<open>m_open_page\<close> and \<open>m_log_indices\<close> through
  \<open>std::shared_ptr\<close>, and whether both still name the same object matters, so pages live in
  an explicit heap (a list, an address is a position) and the two members hold addresses. The
  object also carries the file system it writes to. Operations that can throw return a
  \<open>result\<close>; nothing in the program catches what the log throws, so the state at the throw
  is not kept.
\<close>

subsection \<open>State\<close>

record Record =
  rec_entry :: LogEntry
  rec_offset :: int

record Page =
  is_open :: bool
  byte_offset :: int
  start_index :: int
  end_index :: int
  page_dir :: string
  filename :: string
  log_entries :: "Record list"
  max_file_size :: int

type_synonym page_ref = nat

record PersistedLog =
  m_log_size :: int
  m_metadata :: LogMetadata
  m_open_page :: "page_ref option"
  m_dir :: string
  m_log_indices :: "page_ref omap"
  m_max_file_size :: int
  page_heap :: "Page list"
  disk :: file_system

subsection \<open>Pages\<close>

text \<open>Name of an open file.\<close>

definition open_name :: "int \<Rightarrow> string" where
  "open_name s = ''open-'' @ to_string s"

definition Page_new :: "int \<Rightarrow> string \<Rightarrow> bool \<Rightarrow> int \<Rightarrow> file_system \<Rightarrow> Page \<times> file_system" where
  "Page_new start d opn max_size fs =
     (let fname = open_name start in
      (\<lparr>is_open = opn, byte_offset = 0, start_index = start, end_index = start, page_dir = d,
        filename = fname, log_entries = [], max_file_size = max_size\<rparr>,
       fs_touch (d @ fname) fs))"

definition ClosedFilename :: "Page \<Rightarrow> string" where
  "ClosedFilename p = pad20 (nat (start_index p)) @ ''-'' @ pad20 (nat (end_index p))"

definition Page_Close :: "Page \<Rightarrow> file_system \<Rightarrow> (Page \<times> file_system) result" where
  "Page_Close p fs =
     (if \<not> is_open p then Inr (p, fs)
      else
        let p1 = p\<lparr>is_open := False\<rparr> in
        if start_index p1 = end_index p1
        then Inr (p1, fs_remove (page_dir p1 @ filename p1) fs)
        else
          let new_filename = ClosedFilename p1 in
          rbind (fs_rename (page_dir p1 @ filename p1) (page_dir p1 @ new_filename) fs)
            (\<lambda>fs'. Inr (p1\<lparr>filename := new_filename\<rparr>, fs')))"

definition RemainingSpace :: "Page \<Rightarrow> int" where
  "RemainingSpace p = max_file_size p - byte_offset p"

text \<open>
  The stream passed to \<open>WriteLogEntry\<close> is open on the page's own file. \<open>None\<close> is the
  returned \<open>false\<close>.
\<close>

definition WriteLogEntry ::
  "protobuf \<Rightarrow> LogEntry \<Rightarrow> Page \<Rightarrow> file_system \<Rightarrow> (Page \<times> file_system) option" where
  "WriteLogEntry pb new_entry p fs =
     (case SerializeDelimited (entry_codec pb) new_entry of
        None \<Rightarrow> None
      | Some bs \<Rightarrow>
          Some (p\<lparr>log_entries := log_entries p @
                    [\<lparr>rec_entry = new_entry, rec_offset = byte_offset p\<rparr>],
                  byte_offset := byte_offset p + int (ByteSizeLong (entry_codec pb) new_entry),
                  end_index := end_index p + 1\<rparr>,
                fs_append (page_dir p @ filename p) bs fs))"

definition Page_TruncateSuffix ::
  "int \<Rightarrow> Page \<Rightarrow> file_system \<Rightarrow> (Page \<times> file_system) result" where
  "Page_TruncateSuffix removal_index p fs =
     (let last_record_index = removal_index - start_index p in
      if last_record_index < 0 \<or> int (length (log_entries p)) \<le> last_record_index
      then Inl Undefined_behaviour
      else
        let truncate_offset = rec_offset (log_entries p ! nat last_record_index) in
        rbind (fs_resize (page_dir p @ filename p) truncate_offset fs) (\<lambda>fs1.
          let p1 = p\<lparr>log_entries := take (nat last_record_index) (log_entries p),
                     byte_offset := truncate_offset, end_index := removal_index\<rparr> in
          if is_open p1 then Inr (p1, fs1)
          else
            let new_filename = ClosedFilename p1 in
            rbind (fs_rename (page_dir p1 @ filename p1) (page_dir p1 @ new_filename) fs1)
              (\<lambda>fs2. Inr (p1\<lparr>filename := new_filename\<rparr>, fs2))))"

subsection \<open>Reading the log\<close>

definition LogSize :: "PersistedLog \<Rightarrow> int" where
  "LogSize l = m_log_size l"

definition LastLogIndex :: "PersistedLog \<Rightarrow> int" where
  "LastLogIndex l = LogSize l - 1"

text \<open>
  \<open>it = m_log_indices.upper_bound(idx); it--\<close>: undefined when every key is above
  \<open>idx\<close>.
\<close>

definition page_containing :: "PersistedLog \<Rightarrow> int \<Rightarrow> Page result" where
  "page_containing l idx =
     (case omap_upper_prev idx (m_log_indices l) of
        None \<Rightarrow> Inl Undefined_behaviour
      | Some (k, r) \<Rightarrow> Inr (page_heap l ! r))"

definition Entry :: "PersistedLog \<Rightarrow> int \<Rightarrow> LogEntry result" where
  "Entry l idx =
     (if idx > LastLogIndex l \<or> idx < 0 then Inl Out_of_range
      else rbind (page_containing l idx) (\<lambda>page.
        let i = idx - start_index page in
        if i < 0 \<or> int (length (log_entries page)) \<le> i then Inl Undefined_behaviour
        else Inr (rec_entry (log_entries page ! nat i))))"

definition LastLogTerm :: "PersistedLog \<Rightarrow> int result" where
  "LastLogTerm l =
     (if LogSize l > 0
      then rbind (Entry l (LastLogIndex l)) (\<lambda>e. Inr (to_int (entry_term e)))
      else Inr (-1))"

text \<open>
  \<open>std::vector::insert\<close> of the records between two iterators of a page: undefined unless
  \<open>0 \<le> a \<le> b \<le> size\<close>.
\<close>

definition record_range :: "Page \<Rightarrow> int \<Rightarrow> int \<Rightarrow> Record list result" where
  "record_range page a b =
     (if 0 \<le> a \<and> a \<le> b \<and> b \<le> int (length (log_entries page))
      then Inr (take (nat (b - a)) (drop (nat a) (log_entries page)))
      else Inl Undefined_behaviour)"

text \<open>
  The loop of \<open>Entries\<close>. The parameter \<open>start\<close> is overwritten in each round with the
  offset inside the page, as in the source. \<open>None\<close>: the loop does not end.
\<close>

partial_function (option) Entries_loop ::
  "PersistedLog \<Rightarrow> int \<Rightarrow> int \<Rightarrow> int \<Rightarrow> Record list \<Rightarrow> Record list result option" where
  "Entries_loop l start end cur acc =
     (if \<not> cur < end then Some (Inr acc)
      else case page_containing l cur of
        Inl e \<Rightarrow> Some (Inl e)
      | Inr page \<Rightarrow>
          (let start' = (if start \<ge> start_index page then start - start_index page else 0)
           in case (if end_index page \<ge> end
                    then record_range page start' (end - start_index page)
                    else record_range page start' (int (length (log_entries page)))) of
             Inl e \<Rightarrow> Some (Inl e)
           | Inr rs \<Rightarrow> Entries_loop l start' end (end_index page) (acc @ rs)))"

declare Entries_loop.simps [code]

definition Entries :: "PersistedLog \<Rightarrow> int \<Rightarrow> int \<Rightarrow> LogEntry list result" where
  "Entries l start end =
     (if start > end \<or> end > LastLogIndex l + 1 \<or> start < 0 then Inl Out_of_range
      else case Entries_loop l start end start [] of
        None \<Rightarrow> Inl Diverges
      | Some r \<Rightarrow> rbind r (\<lambda>records. Inr (map rec_entry records)))"

fun first_configuration :: "Record list \<Rightarrow> int \<Rightarrow> (int \<times> Configuration) option" where
  "first_configuration [] log_index = None"
| "first_configuration (r # rs) log_index =
     (if has_configuration (rec_entry r)
      then Some (log_index, entry_configuration (rec_entry r))
      else first_configuration rs (log_index + 1))"

fun latest_configuration_pages ::
  "Page list \<Rightarrow> (int \<times> page_ref) list \<Rightarrow> (int \<times> Configuration) option" where
  "latest_configuration_pages heap [] = None"
| "latest_configuration_pages heap ((k, r) # m) =
     (case first_configuration (log_entries (heap ! r)) (start_index (heap ! r)) of
        Some res \<Rightarrow> Some res
      | None \<Rightarrow> latest_configuration_pages heap m)"

text \<open>\<open>None\<close> is the returned pair \<open>(0, false)\<close>.\<close>

definition LatestConfiguration :: "PersistedLog \<Rightarrow> (int \<times> Configuration) option" where
  "LatestConfiguration l = latest_configuration_pages (page_heap l) (rev (m_log_indices l))"

subsection \<open>Appending\<close>

text \<open>\<open>std::make_shared<Page>(...)\<close>.\<close>

definition make_page :: "int \<Rightarrow> bool \<Rightarrow> PersistedLog \<Rightarrow> page_ref \<times> PersistedLog" where
  "make_page start opn l =
     (let (p, fs') = Page_new start (m_dir l) opn (m_max_file_size l) (disk l) in
      (length (page_heap l), l\<lparr>page_heap := page_heap l @ [p], disk := fs'\<rparr>))"

definition CreateOpenFile :: "PersistedLog \<Rightarrow> PersistedLog result" where
  "CreateOpenFile l =
     (case m_open_page l of
        None \<Rightarrow> Inl Undefined_behaviour
      | Some r \<Rightarrow>
          rbind (Page_Close (page_heap l ! r) (disk l)) (\<lambda>(p, fs').
            let l1 = l\<lparr>page_heap := (page_heap l)[r := p], disk := fs'\<rparr>;
                (r', l2) = make_page (LogSize l1) True l1
            in Inr (l2\<lparr>m_open_page := Some r',
                       m_log_indices :=
                         omap_insert (start_index (page_heap l2 ! r')) r' (m_log_indices l2)\<rparr>)))"

text \<open>Opening \<open>m_dir + m_open_page->filename\<close> for appending.\<close>

definition open_log_stream :: "PersistedLog \<Rightarrow> PersistedLog result" where
  "open_log_stream l =
     (case m_open_page l of
        None \<Rightarrow> Inl Undefined_behaviour
      | Some r \<Rightarrow> Inr (l\<lparr>disk := fs_touch (m_dir l @ filename (page_heap l ! r)) (disk l)\<rparr>))"

text \<open>
  One round of the loop of \<open>PersistLogEntries\<close>. The entry's size is a \<open>size_t\<close>, so a
  negative remaining space is compared as a very large number.
\<close>

definition persist_entry :: "protobuf \<Rightarrow> LogEntry \<Rightarrow> PersistedLog \<Rightarrow> PersistedLog result" where
  "persist_entry pb entry l =
     (case m_open_page l of
        None \<Rightarrow> Inl Undefined_behaviour
      | Some r0 \<Rightarrow>
          rbind (if int (ByteSizeLong (entry_codec pb) entry)
                    > size_t_of_int (RemainingSpace (page_heap l ! r0))
                 then rbind (CreateOpenFile l) open_log_stream else Inr l) (\<lambda>l1.
            case m_open_page l1 of
              None \<Rightarrow> Inl Undefined_behaviour
            | Some r \<Rightarrow>
                (case WriteLogEntry pb entry (page_heap l1 ! r) (disk l1) of
                   None \<Rightarrow> Inl Runtime_error
                 | Some (p, fs') \<Rightarrow>
                     Inr (l1\<lparr>page_heap := (page_heap l1)[r := p], disk := fs',
                             m_log_size := m_log_size l1 + 1\<rparr>))))"

fun persist_loop :: "protobuf \<Rightarrow> LogEntry list \<Rightarrow> PersistedLog \<Rightarrow> PersistedLog result" where
  "persist_loop pb [] l = Inr l"
| "persist_loop pb (e # es) l = rbind (persist_entry pb e l) (persist_loop pb es)"

definition PersistLogEntries :: "protobuf \<Rightarrow> LogEntry list \<Rightarrow> PersistedLog \<Rightarrow> PersistedLog result" where
  "PersistLogEntries pb new_entries l = rbind (open_log_stream l) (persist_loop pb new_entries)"

definition Append_entry :: "protobuf \<Rightarrow> LogEntry \<Rightarrow> PersistedLog \<Rightarrow> (int \<times> PersistedLog) result" where
  "Append_entry pb new_entry l =
     (let log_index = LogSize l in
      rbind (PersistLogEntries pb [new_entry] l) (\<lambda>l'. Inr (log_index, l')))"

definition Append ::
  "protobuf \<Rightarrow> LogEntry list \<Rightarrow> PersistedLog \<Rightarrow> ((int \<times> int) \<times> PersistedLog) result" where
  "Append pb new_entries l =
     (let start = LogSize l in
      rbind (PersistLogEntries pb new_entries l) (\<lambda>l'. Inr ((start, LogSize l'), l')))"

subsection \<open>Truncation\<close>

text \<open>
  The loop over the pages from the last one backwards. Erasing \<open>page->start_index\<close> removes
  the entry just read as long as keys and start indices agree; if it removed nothing the loop
  would meet the same entry for ever.
\<close>

function truncate_loop :: "int \<Rightarrow> PersistedLog \<Rightarrow> PersistedLog result" where
  "truncate_loop removal_index l =
     (case omap_rbegin (m_log_indices l) of
        None \<Rightarrow> Inr l
      | Some (k, r) \<Rightarrow>
          let page = page_heap l ! r in
          if start_index page \<ge> removal_index then
            let l1 = l\<lparr>disk := fs_remove (m_dir l @ filename page) (disk l),
                       m_log_indices := omap_erase (start_index page) (m_log_indices l),
                       m_log_size := m_log_size l - (end_index page - start_index page)\<rparr>
            in if length (m_log_indices l1) < length (m_log_indices l)
               then truncate_loop removal_index l1 else Inl Diverges
          else if end_index page > removal_index then
            rbind (Page_TruncateSuffix removal_index page (disk l)) (\<lambda>(p, fs').
              Inr (l\<lparr>m_log_size := m_log_size l - (end_index page - removal_index),
                     page_heap := (page_heap l)[r := p], disk := fs'\<rparr>))
          else Inr l)"
  by pat_completeness auto
termination
  by (relation "measure (\<lambda>(i, l). length (m_log_indices l))") auto

declare truncate_loop.simps [simp del]

definition TruncateSuffix :: "int \<Rightarrow> PersistedLog \<Rightarrow> PersistedLog result" where
  "TruncateSuffix removal_index l =
     (if removal_index > LastLogIndex l then Inr l
      else case m_open_page l of
        None \<Rightarrow> Inl Undefined_behaviour
      | Some r \<Rightarrow>
          let open_page = page_heap l ! r in
          if removal_index > start_index open_page then
            rbind (Page_TruncateSuffix removal_index open_page (disk l)) (\<lambda>(p, fs').
              CreateOpenFile
                (l\<lparr>m_log_size := m_log_size l - (end_index open_page - removal_index),
                   page_heap := (page_heap l)[r := p], disk := fs'\<rparr>))
          else
            rbind (CreateOpenFile
                (l\<lparr>m_log_indices := omap_erase (start_index open_page) (m_log_indices l),
                   m_log_size := m_log_size l - (end_index open_page - start_index open_page),
                   page_heap := (page_heap l)[r := open_page\<lparr>end_index := start_index open_page,
                                                  byte_offset := 0, log_entries := []\<rparr>]\<rparr>))
              (truncate_loop removal_index))"

subsection \<open>Metadata\<close>

definition Metadata :: "PersistedLog \<Rightarrow> LogMetadata \<times> bool" where
  "Metadata l = (m_metadata l, md_version (m_metadata l) \<noteq> 0)"

definition metadata_path :: "PersistedLog \<Rightarrow> int \<Rightarrow> string" where
  "metadata_path l version =
     m_dir l @ ''metadata'' @ (if version mod 2 = 0 then ''1'' else ''2'')"

text \<open>The file is opened with \<open>std::ios::trunc\<close>.\<close>

definition PersistMetadata :: "protobuf \<Rightarrow> string \<Rightarrow> PersistedLog \<Rightarrow> PersistedLog result" where
  "PersistMetadata pb path l =
     (case SerializeDelimited (metadata_codec pb) (m_metadata l) of
        None \<Rightarrow> Inl Runtime_error
      | Some bs \<Rightarrow> Inr (l\<lparr>disk := fs_write path bs (disk l)\<rparr>))"

definition SetMetadata :: "protobuf \<Rightarrow> LogMetadata \<Rightarrow> PersistedLog \<Rightarrow> PersistedLog result" where
  "SetMetadata pb metadata l =
     (let metadata' = metadata\<lparr>md_version := md_version (m_metadata l) + 1\<rparr>;
          l1 = l\<lparr>m_metadata := metadata'\<rparr>
      in PersistMetadata pb (metadata_path l1 (md_version (m_metadata l1))) l1)"

subsection \<open>Restoring from disk\<close>

definition LoadMetadata :: "protobuf \<Rightarrow> string \<Rightarrow> PersistedLog \<Rightarrow> PersistedLog result" where
  "LoadMetadata pb path l =
     (let content = (case fs_read (disk l) path of None \<Rightarrow> [] | Some bs \<Rightarrow> bs) in
      case ParseDelimited (metadata_codec pb) default_metadata content of
        None \<Rightarrow> Inl Runtime_error
      | Some (metadata, n) \<Rightarrow>
          if md_version metadata < md_version (m_metadata l) then Inr l
          else Inr (l\<lparr>m_metadata := metadata\<rparr>))"

text \<open>
  The loop of \<open>LoadLogEntries\<close>: one message object is read into again and again, and
  \<open>count\<close> is \<open>log_stream.ByteCount()\<close>. A parse that succeeds without shortening the
  stream would repeat for ever.
\<close>

function load_entries ::
  "protobuf \<Rightarrow> LogEntry \<Rightarrow> bytes \<Rightarrow> int \<Rightarrow> Record list \<Rightarrow> Record list result" where
  "load_entries pb temp bs count acc =
     (case ParseDelimited (entry_codec pb) temp bs of
        None \<Rightarrow> Inr acc
      | Some (entry, n) \<Rightarrow>
          let count' = count + int n;
              offset = count' - int (ByteSizeLong (entry_codec pb) entry) - 1
          in if length (drop n bs) < length bs
             then load_entries pb entry (drop n bs) count'
                    (acc @ [\<lparr>rec_entry = entry, rec_offset = offset\<rparr>])
             else Inl Diverges)"
  by pat_completeness auto
termination
  by (relation "measure (\<lambda>(pb, temp, bs, count, acc). length bs)") auto

declare load_entries.simps [simp del]

definition LoadLogEntries :: "protobuf \<Rightarrow> string \<Rightarrow> PersistedLog \<Rightarrow> Record list result" where
  "LoadLogEntries pb path l =
     load_entries pb default_entry
       (case fs_read (disk l) path of None \<Rightarrow> [] | Some bs \<Rightarrow> bs) 0 []"

definition IsFileOpen :: "string \<Rightarrow> bool" where
  "IsFileOpen fname \<longleftrightarrow> take 4 fname = ''open''"

text \<open>The regular files of the directory, by name.\<close>

definition ListDirectoryContents :: "string \<Rightarrow> file_system \<Rightarrow> string list" where
  "ListDirectoryContents d fs =
     map (drop (length d))
       (filter (\<lambda>p. take (length d) p = d \<and> CHR ''/'' \<notin> set (drop (length d) p))
         (remdups (map fst fs)))"

definition restore_file :: "protobuf \<Rightarrow> string \<Rightarrow> PersistedLog \<Rightarrow> PersistedLog result" where
  "restore_file pb fname l =
     (let file_path = m_dir l @ fname in
      if fname = ''metadata1'' \<or> fname = ''metadata2'' then LoadMetadata pb file_path l
      else rbind (LoadLogEntries pb file_path l) (\<lambda>restored_entries.
        let n = int (length restored_entries) in
        if IsFileOpen fname then
          let (r, l1) = make_page (LogSize l) True l;
              page = page_heap l1 ! r
          in Inr (l1\<lparr>m_open_page := Some r,
                     m_log_indices := omap_insert (start_index page) r (m_log_indices l1),
                     m_log_size := m_log_size l1 + n,
                     page_heap := (page_heap l1)[r := page\<lparr>end_index := start_index page + n,
                                                           log_entries := restored_entries\<rparr>]\<rparr>)
        else
          rbind (stoi (str_prefix (str_find (CHR ''-'') fname) fname)) (\<lambda>start.
            let (r, l1) = make_page start False l;
                page = page_heap l1 ! r
            in Inr (l1\<lparr>m_log_indices := omap_insert start r (m_log_indices l1),
                       m_log_size := m_log_size l1 + n,
                       page_heap := (page_heap l1)[r := page\<lparr>end_index := start_index page + n,
                                                             log_entries := restored_entries\<rparr>]\<rparr>))))"

fun restore_files :: "protobuf \<Rightarrow> string list \<Rightarrow> PersistedLog \<Rightarrow> PersistedLog result" where
  "restore_files pb [] l = Inr l"
| "restore_files pb (f # fs) l = rbind (restore_file pb f l) (restore_files pb fs)"

definition RestoreState :: "protobuf \<Rightarrow> PersistedLog \<Rightarrow> PersistedLog result" where
  "RestoreState pb l = restore_files pb (sort (ListDirectoryContents (m_dir l) (disk l))) l"

text \<open>The constructor, on the file system \<open>fs\<close>.\<close>

definition PersistedLog_new ::
  "protobuf \<Rightarrow> string \<Rightarrow> bool \<Rightarrow> int \<Rightarrow> file_system \<Rightarrow> PersistedLog result" where
  "PersistedLog_new pb parent_dir restore max_size fs =
     (let l0 = \<lparr>m_log_size = 0, m_metadata = default_metadata, m_open_page = None,
                m_dir = parent_dir, m_log_indices = [], m_max_file_size = max_size,
                page_heap = [], disk = fs\<rparr>
      in rbind (if restore then RestoreState pb l0 else Inr l0) (\<lambda>l1.
           case m_open_page l1 of
             Some r \<Rightarrow> Inr l1
           | None \<Rightarrow>
               (let (r, l2) = make_page 0 True l1 in
                Inr (l2\<lparr>m_open_page := Some r,
                        m_log_indices := omap_insert 0 r (m_log_indices l2)\<rparr>))))"

end
