(* ===== verification/Persisted_Log_Read.thy ===== *)
theory Persisted_Log_Read
  imports Persisted_Log
begin

section \<open>Reading the persisted log\<close>

text \<open>
  The abstraction of a \<open>PersistedLog\<close> to the list of its entries, the invariant that the
  pages in \<open>m_log_indices\<close> tile the indices from zero to \<open>m_log_size\<close>, and the
  correctness of the readers under it: \<open>Entry\<close> is list access and \<open>Entries\<close>, whose loop
  walks from page to page, terminates with the requested slice.
\<close>

subsection \<open>Abstraction and the tiling invariant\<close>

definition chain_records :: "Page list \<Rightarrow> (int \<times> page_ref) list \<Rightarrow> Record list" where
  "chain_records h m = concat (map (\<lambda>(k, r). log_entries (h ! r)) m)"

definition log_records :: "PersistedLog \<Rightarrow> Record list" where
  "log_records l = chain_records (page_heap l) (m_log_indices l)"

definition log_list :: "PersistedLog \<Rightarrow> LogEntry list" where
  "log_list l = map rec_entry (log_records l)"

fun chain :: "Page list \<Rightarrow> (int \<times> page_ref) list \<Rightarrow> int \<Rightarrow> int \<Rightarrow> bool" where
  "chain h [] s e \<longleftrightarrow> s = e"
| "chain h ((k, r) # m) s e \<longleftrightarrow>
     k = s \<and> r < length h \<and> start_index (h ! r) = s \<and>
     end_index (h ! r) = s + int (length (log_entries (h ! r))) \<and>
     chain h m (end_index (h ! r)) e"

definition log_readable :: "PersistedLog \<Rightarrow> bool" where
  "log_readable l \<longleftrightarrow>
     omap_sorted (m_log_indices l) \<and> chain (page_heap l) (m_log_indices l) 0 (m_log_size l)"

lemma chain_records_simps [simp]:
  "chain_records h [] = []"
  "chain_records h ((k, r) # m) = log_entries (h ! r) @ chain_records h m"
  "chain_records h (m1 @ m2) = chain_records h m1 @ chain_records h m2"
  by (simp_all add: chain_records_def)

lemma chain_append: "chain h (m1 @ m2) s e \<longleftrightarrow> (\<exists>x. chain h m1 s x \<and> chain h m2 x e)"
proof (induction m1 arbitrary: s)
  case (Cons p m1)
  then show ?case by (cases p) (simp only: append_Cons chain.simps, blast)
qed simp

lemma chain_length: "chain h m s e \<Longrightarrow> e = s + int (length (chain_records h m))"
  by (induction h m s e rule: chain.induct) auto

lemma chain_keys: "chain h m s e \<Longrightarrow> p \<in> set m \<Longrightarrow> s \<le> fst p \<and> fst p \<le> e"
proof (induction h m s e rule: chain.induct)
  case (2 h k r m s e)
  have "end_index (h ! r) \<le> e" using 2(2) chain_length [of h m "end_index (h ! r)" e] by auto
  with 2 show ?case by fastforce
qed simp

lemma chain_refs: "chain h m s e \<Longrightarrow> p \<in> set m \<Longrightarrow> snd p < length h \<and> start_index (h ! snd p) = fst p"
  by (induction h m s e rule: chain.induct) auto

lemma chain_cong:
  assumes "\<And>p. p \<in> set m \<Longrightarrow> snd p < length h' \<and> h' ! snd p = h ! snd p"
  shows "chain h m s e \<Longrightarrow> chain h' m s e"
  using assms by (induction h m s e rule: chain.induct) fastforce+

lemma chain_records_cong:
  assumes "\<And>p. p \<in> set m \<Longrightarrow> h' ! snd p = h ! snd p"
  shows "chain_records h' m = chain_records h m"
  unfolding chain_records_def using assms by (force intro!: arg_cong [where f = concat] map_cong)

text \<open>Every index of the tiled range lies in exactly one page, which splits the map.\<close>

lemma chain_split:
  assumes "chain h m s e" and "s \<le> i" and "i < e"
  obtains m1 k r m2 where "m = m1 @ (k, r) # m2" and "k = s + int (length (chain_records h m1))"
    and "k \<le> i" and "i < k + int (length (log_entries (h ! r)))"
    and "r < length h" and "start_index (h ! r) = k"
    and "end_index (h ! r) = k + int (length (log_entries (h ! r)))"
    and "chain h m2 (end_index (h ! r)) e"
  using assms
proof (induction h m s e arbitrary: thesis rule: chain.induct)
  case (2 h k r m s e)
  show ?case
  proof (cases "i < end_index (h ! r)")
    case True
    show ?thesis by (rule 2(2) [of "[]" k r m]) (use 2(3-5) True in auto)
  next
    case False
    show ?thesis
    proof (rule 2(1))
      fix m1 k' r' m2
      assume *: "m = m1 @ (k', r') # m2" "k' = end_index (h ! r) + int (length (chain_records h m1))"
        "k' \<le> i" "i < k' + int (length (log_entries (h ! r')))"
        "r' < length h" "start_index (h ! r') = k'"
        "end_index (h ! r') = k' + int (length (log_entries (h ! r')))"
        "chain h m2 (end_index (h ! r')) e"
      show thesis by (rule 2(2) [of "(k, r) # m1" k' r' m2]) (use * 2(3) in auto)
    qed (use 2 False in auto)
  qed
qed simp

lemma page_containing_split:
  assumes "log_readable l" and "0 \<le> i" and "i < m_log_size l"
  obtains m1 k r m2 where "m_log_indices l = m1 @ (int k, r) # m2"
    and "k = length (chain_records (page_heap l) m1)"
    and "int k \<le> i" and "i < int k + int (length (log_entries (page_heap l ! r)))"
    and "start_index (page_heap l ! r) = int k"
    and "end_index (page_heap l ! r) = int k + int (length (log_entries (page_heap l ! r)))"
    and "page_containing l i = Inr (page_heap l ! r)"
    and "chain (page_heap l) m2 (end_index (page_heap l ! r)) (m_log_size l)"
proof -
  let ?h = "page_heap l"
  from assms(1) have sorted: "omap_sorted (m_log_indices l)"
    and chain: "chain ?h (m_log_indices l) 0 (m_log_size l)"
    by (auto simp: log_readable_def)
  obtain m1 k r m2 where
    split: "m_log_indices l = m1 @ (k, r) # m2" "k = 0 + int (length (chain_records ?h m1))"
    "k \<le> i" "i < k + int (length (log_entries (?h ! r)))" "r < length ?h"
    "start_index (?h ! r) = k" "end_index (?h ! r) = k + int (length (log_entries (?h ! r)))"
    "chain ?h m2 (end_index (?h ! r)) (m_log_size l)"
    by (rule chain_split [OF chain assms(2,3)])
  have "\<forall>p \<in> set m1. fst p \<le> i"
    using sorted split(1,3) by (force simp: sorted_wrt_append)
  moreover have "\<forall>p \<in> set m2. i < fst p"
    using chain_keys [OF split(8)] split(4,7) by force
  ultimately have "page_containing l i = Inr (?h ! r)"
    using split(1,3) by (simp add: page_containing_def omap_upper_prev_split)
  with split show ?thesis by (intro that [of m1 "length (chain_records ?h m1)" r m2]) simp_all
qed

lemma log_size_records: "log_readable l \<Longrightarrow> m_log_size l = int (length (log_records l))"
  using chain_length [of "page_heap l" "m_log_indices l" 0 "m_log_size l"]
  by (simp add: log_readable_def log_records_def)

lemma LogSize_log_list: "log_readable l \<Longrightarrow> LogSize l = int (length (log_list l))"
  by (simp add: LogSize_def log_list_def log_size_records)

subsection \<open>Single entries\<close>

lemma Entry_log_list:
  assumes "log_readable l"
  shows "Entry l i =
     (if 0 \<le> i \<and> i < int (length (log_list l)) then Inr (log_list l ! nat i) else Inl Out_of_range)"
proof (cases "0 \<le> i \<and> i < m_log_size l")
  case True
  then have i: "0 \<le> i" "i < m_log_size l" by auto
  obtain m1 k r m2 where split: "m_log_indices l = m1 @ (int k, r) # m2"
    "k = length (chain_records (page_heap l) m1)"
    "int k \<le> i" "i < int k + int (length (log_entries (page_heap l ! r)))"
    "start_index (page_heap l ! r) = int k"
    "end_index (page_heap l ! r) = int k + int (length (log_entries (page_heap l ! r)))"
    "page_containing l i = Inr (page_heap l ! r)"
    "chain (page_heap l) m2 (end_index (page_heap l ! r)) (m_log_size l)"
    by (rule page_containing_split [OF assms i])
  have "log_records l ! nat i = log_entries (page_heap l ! r) ! nat (i - int k)"
    unfolding log_records_def using split(1-4) by (simp add: nth_append nat_diff_distrib)
  moreover have "nat i < length (log_records l)"
    using True log_size_records [OF assms] by linarith
  ultimately show ?thesis
    using True split LogSize_log_list [OF assms]
    by (simp add: Entry_def LastLogIndex_def LogSize_def log_list_def)
next
  case False
  then show ?thesis
    using LogSize_log_list [OF assms] by (auto simp: Entry_def LastLogIndex_def LogSize_def)
qed

lemma LastLogTerm_log_list:
  assumes "log_readable l"
  shows "LastLogTerm l =
     Inr (if log_list l = [] then -1 else to_int (entry_term (last (log_list l))))"
  using LogSize_log_list [OF assms] Entry_log_list [OF assms]
  by (auto simp: LastLogTerm_def LastLogIndex_def last_conv_nth nat_diff_distrib')

subsection \<open>Slices\<close>

text \<open>
  One round of \<open>Entries\<close>: the page that holds entry \<open>c\<close>, the offset the code starts at in it,
  and what the page contributes to the slice. After the first round the variable \<open>start\<close>
  holds an offset and no longer an index, which is why the first entry of a page is a case of its own.
\<close>

lemma Entries_loop_page:
  assumes log: "log_readable l" and c: "c < length (log_records l)"
    and st: "st = int c \<or> (0 \<le> st \<and> st < int c \<and> int c \<in> fst ` set (m_log_indices l))"
  obtains k p where "page_containing l (int c) = Inr p" and "start_index p = int k"
    and "end_index p = int (k + length (log_entries p))" and "k \<le> c" and "c < k + length (log_entries p)"
    and "(if st \<ge> start_index p then st - start_index p else 0) = int (c - k)"
    and "drop c (log_records l) = drop (c - k) (log_entries p) @ drop (k + length (log_entries p)) (log_records l)"
    and "k + length (log_entries p) < length (log_records l) \<longrightarrow>
      int (k + length (log_entries p)) \<in> fst ` set (m_log_indices l)"
proof -
  let ?h = "page_heap l"
  have "int c < m_log_size l" using c log_size_records [OF log] by simp
  then obtain m1 k r m2 where split: "m_log_indices l = m1 @ (int k, r) # m2"
    "k = length (chain_records ?h m1)" "int k \<le> int c" "int c < int k + int (length (log_entries (?h ! r)))"
    "start_index (?h ! r) = int k" "end_index (?h ! r) = int k + int (length (log_entries (?h ! r)))"
    "page_containing l (int c) = Inr (?h ! r)" "chain ?h m2 (end_index (?h ! r)) (m_log_size l)"
    by (rule page_containing_split [OF log of_nat_0_le_iff])
  have sorted: "omap_sorted (m_log_indices l)" using log by (simp add: log_readable_def)
  have key: "c = k" if "int c \<in> fst ` set (m_log_indices l)"
  proof (rule ccontr)
    assume "c \<noteq> k"
    with that split(1,3) sorted obtain x where x: "x \<in> set m2" "fst x = int c"
      by (fastforce simp: sorted_wrt_append)
    then show False using chain_keys [OF split(8) x(1)] split(4,6) by simp
  qed
  from st have "(if st \<ge> start_index (?h ! r) then st - start_index (?h ! r) else 0) = int (c - k)"
  proof
    assume "0 \<le> st \<and> st < int c \<and> int c \<in> fst ` set (m_log_indices l)"
    then show ?thesis using key split(5) by simp
  qed (use split(3,5) in simp)
  moreover have "int (k + length (log_entries (?h ! r))) \<in> fst ` set (m_log_indices l)"
    if "k + length (log_entries (?h ! r)) < length (log_records l)"
    using that split(1,6,8) log_size_records [OF log] by (cases m2) auto
  ultimately show ?thesis
    using split by (intro that [of "?h ! r" k]) (simp_all add: log_records_def)
qed

lemma Entries_loop_slice:
  assumes log: "log_readable l" and n: "n \<le> length (log_records l)"
  shows "\<lbrakk> c \<le> n; st = int c \<or> (0 \<le> st \<and> st < int c \<and> int c \<in> fst ` set (m_log_indices l)) \<or> c = n \<rbrakk> \<Longrightarrow>
     Entries_loop l st (int n) (int c) acc = Some (Inr (acc @ take (n - c) (drop c (log_records l))))"
proof (induction "n - c" arbitrary: c st acc rule: less_induct)
  case less
  let ?R = "log_records l"
  show ?case
  proof (cases "c < n")
    case False
    then show ?thesis using less.prems(1) by (simp add: Entries_loop.simps)
  next
    case True
    with n less.prems(2) have c: "c < length ?R"
      "st = int c \<or> (0 \<le> st \<and> st < int c \<and> int c \<in> fst ` set (m_log_indices l))" by auto
    obtain k p where pg: "page_containing l (int c) = Inr p" "start_index p = int k"
      "end_index p = int (k + length (log_entries p))" "k \<le> c" "c < k + length (log_entries p)"
      "(if st \<ge> start_index p then st - start_index p else 0) = int (c - k)"
      "drop c ?R = drop (c - k) (log_entries p) @ drop (k + length (log_entries p)) ?R"
      "k + length (log_entries p) < length ?R \<longrightarrow> int (k + length (log_entries p)) \<in> fst ` set (m_log_indices l)"
      by (rule Entries_loop_page [OF log c])
    let ?e = "k + length (log_entries p)"
    show ?thesis
    proof (cases "n \<le> ?e")
      case True
      then have "record_range p (int (c - k)) (int n - int k) = Inr (take (n - c) (drop c ?R))"
        using \<open>c < n\<close> pg(4,5,7) by (simp add: record_range_def flip: of_nat_diff) arith
      then show ?thesis
        using \<open>c < n\<close> True pg by (subst Entries_loop.simps) (simp add: Let_def, simp add: Entries_loop.simps)
    next
      case False
      have range: "record_range p (int (c - k)) (int (length (log_entries p))) = Inr (drop (c - k) (log_entries p))"
        using pg(4,5) by (simp add: record_range_def nat_diff_distrib')
      have "Entries_loop l (int (c - k)) (int n) (int ?e) (acc @ drop (c - k) (log_entries p)) =
          Some (Inr ((acc @ drop (c - k) (log_entries p)) @ take (n - ?e) (drop ?e ?R)))"
        by (rule less.hyps) (use False pg(4,5,8) n in auto)
      moreover have "take (n - c) (drop c ?R) = drop (c - k) (log_entries p) @ take (n - ?e) (drop ?e ?R)"
        unfolding pg(7) using False pg(4,5) by (simp add: add.commute)
      ultimately show ?thesis
        using range \<open>c < n\<close> False pg by (subst Entries_loop.simps) (simp add: Let_def)
    qed
  qed
qed

lemma Entries_log_list:
  assumes "log_readable l"
  shows "Entries l a b =
     (if 0 \<le> a \<and> a \<le> b \<and> b \<le> int (length (log_list l))
      then Inr (take (nat (b - a)) (drop (nat a) (log_list l))) else Inl Out_of_range)"
proof (cases "0 \<le> a \<and> a \<le> b \<and> b \<le> int (length (log_list l))")
  case True
  then obtain c n where ab: "a = int c" "b = int n" "c \<le> n" "n \<le> length (log_records l)"
    by (metis log_list_def length_map nonneg_int_cases of_nat_le_iff order_trans)
  have "Entries_loop l a b a [] = Some (Inr (take (n - c) (drop c (log_records l))))"
    using Entries_loop_slice [OF assms ab(4) ab(3), of a "[]"] ab by simp
  then show ?thesis
    using True ab LogSize_log_list [OF assms]
    by (simp add: Entries_def LastLogIndex_def log_list_def take_map drop_map flip: of_nat_diff)
next
  case False
  then show ?thesis
    using LogSize_log_list [OF assms] by (auto simp: Entries_def LastLogIndex_def)
qed

end
