(* ===== verification/Persisted_Log_Write.thy ===== *)
theory Persisted_Log_Write
  imports Persisted_Log_Read
begin

section \<open>Writing the persisted log\<close>

text \<open>
  The full invariant of the log, and what appending and truncating do to the list of entries.
  The invariant adds to the tiling of indices that \<open>m_open_page\<close> is the last page of
  \<open>m_log_indices\<close> and that every page has its file.
\<close>

subsection \<open>File names\<close>

lemma to_string_inj: "0 \<le> a \<Longrightarrow> 0 \<le> b \<Longrightarrow> to_string a = to_string b \<Longrightarrow> a = b"
  unfolding to_string_def by (metis digits_value_nat_to_string int_nat_eq not_less)

lemma open_name_inj: "0 \<le> a \<Longrightarrow> 0 \<le> b \<Longrightarrow> open_name a = open_name b \<longleftrightarrow> a = b"
  by (auto simp: open_name_def dest: to_string_inj)

lemma ClosedFilename_not_open [simp]: "ClosedFilename p \<noteq> open_name s"
proof
  assume "ClosedFilename p = open_name s"
  then have "hd (pad20 (nat (start_index p))) = CHR ''o''"
    by (cases "pad20 (nat (start_index p))") (auto simp: ClosedFilename_def open_name_def)
  moreover have "is_digit (hd (pad20 (nat (start_index p))))"
    by (rule pad20_digits [OF hd_in_set]) simp
  ultimately show False by simp
qed

lemma ClosedFilename_prefix:
  "str_prefix (str_find (CHR ''-'') (ClosedFilename p)) (ClosedFilename p) = pad20 (nat (start_index p))"
proof -
  have "takeWhile (\<lambda>x. x \<noteq> CHR ''-'') (pad20 (nat (start_index p)) @ CHR ''-'' # z) =
      pad20 (nat (start_index p))" for z
    using pad20_digits not_digit(1) by (subst takeWhile_append2) fastforce+
  then show ?thesis
    by (simp add: ClosedFilename_def str_find_def str_prefix_def)
qed

lemma ClosedFilename_inj:
  assumes "ClosedFilename p = ClosedFilename q" and "0 \<le> start_index p" and "0 \<le> start_index q"
  shows "start_index p = start_index q"
  using ClosedFilename_prefix [of p] ClosedFilename_prefix [of q] assms
    pad20_value [of "nat (start_index p)"] pad20_value [of "nat (start_index q)"] by simp

subsection \<open>The invariant\<close>

definition page_ok :: "string \<Rightarrow> int \<Rightarrow> file_system \<Rightarrow> Page \<Rightarrow> bool" where
  "page_ok d max_size fs p \<longleftrightarrow>
     page_dir p = d \<and> max_file_size p = max_size \<and>
     filename p \<in> {open_name (start_index p), ClosedFilename p} \<and>
     (is_open p \<longrightarrow> filename p = open_name (start_index p)) \<and>
     fs_read fs (d @ filename p) \<noteq> None \<and> 0 \<le> byte_offset p \<and>
     (\<forall>rec \<in> set (log_entries p). 0 \<le> rec_offset rec) \<and>
     (log_entries p = [] \<longrightarrow> byte_offset p = 0)"

definition pages_ok :: "PersistedLog \<Rightarrow> bool" where
  "pages_ok l \<longleftrightarrow>
     (\<forall>(k, r) \<in> set (m_log_indices l). page_ok (m_dir l) (m_max_file_size l) (disk l) (page_heap l ! r))"

definition log_attached :: "PersistedLog \<Rightarrow> bool" where
  "log_attached l \<longleftrightarrow>
     (\<exists>m r. m_open_page l = Some r \<and> is_open (page_heap l ! r) \<and>
        m_log_indices l = m @ [(start_index (page_heap l ! r), r)])"

definition log_inv :: "PersistedLog \<Rightarrow> bool" where
  "log_inv l \<longleftrightarrow>
     log_readable l \<and> distinct (map snd (m_log_indices l)) \<and> pages_ok l \<and> log_attached l \<and>
     0 \<le> m_max_file_size l \<and> m_max_file_size l < 2 ^ 31"

lemma log_inv_readable [simp]: "log_inv l \<Longrightarrow> log_readable l"
  by (simp add: log_inv_def)

text \<open>What the invariant says of the open page, in the form the proofs use.\<close>

lemma log_invE:
  assumes "log_inv l"
  obtains m r where "m_open_page l = Some r" and "is_open (page_heap l ! r)"
    and "m_log_indices l = m @ [(start_index (page_heap l ! r), r)]"
    and "r < length (page_heap l)" and "r \<notin> snd ` set m" and "distinct (map snd m)"
    and "omap_sorted m" and "\<forall>p \<in> set m. fst p < start_index (page_heap l ! r)"
    and "chain (page_heap l) m 0 (start_index (page_heap l ! r))"
    and "end_index (page_heap l ! r) = m_log_size l"
    and "m_log_size l = start_index (page_heap l ! r) + int (length (log_entries (page_heap l ! r)))"
    and "page_ok (m_dir l) (m_max_file_size l) (disk l) (page_heap l ! r)"
    and "\<forall>p \<in> set m. page_ok (m_dir l) (m_max_file_size l) (disk l) (page_heap l ! snd p)"
proof -
  from assms obtain m r where *: "m_open_page l = Some r" "is_open (page_heap l ! r)"
    "m_log_indices l = m @ [(start_index (page_heap l ! r), r)]"
    by (auto simp: log_inv_def log_attached_def)
  with assms show ?thesis
    by (intro that [of r m])
      (auto simp: log_inv_def log_readable_def chain_append sorted_wrt_append pages_ok_def)
qed

lemma log_invI:
  assumes "m_open_page l = Some r" and "is_open (page_heap l ! r)"
    and "m_log_indices l = m @ [(start_index (page_heap l ! r), r)]"
    and "r < length (page_heap l)" and "r \<notin> snd ` set m" and "distinct (map snd m)"
    and "omap_sorted m" and "\<forall>p \<in> set m. fst p < start_index (page_heap l ! r)"
    and "chain (page_heap l) m 0 (start_index (page_heap l ! r))"
    and "end_index (page_heap l ! r) = m_log_size l"
    and "m_log_size l = start_index (page_heap l ! r) + int (length (log_entries (page_heap l ! r)))"
    and "page_ok (m_dir l) (m_max_file_size l) (disk l) (page_heap l ! r)"
    and "\<forall>p \<in> set m. page_ok (m_dir l) (m_max_file_size l) (disk l) (page_heap l ! snd p)"
    and "0 \<le> m_max_file_size l" and "m_max_file_size l < 2 ^ 31"
  shows "log_inv l"
  using assms
  by (auto simp: log_inv_def log_readable_def chain_append sorted_wrt_append pages_ok_def
      log_attached_def)

lemma log_inv_sizes: "log_inv l \<Longrightarrow> 0 \<le> m_max_file_size l \<and> m_max_file_size l < 2 ^ 31"
  by (simp add: log_inv_def)

lemma page_ok_other_file:
  assumes "page_ok d s fs p" and "\<And>q. q \<noteq> d @ open_name k \<Longrightarrow> fs_read fs q \<noteq> None \<Longrightarrow> fs_read fs' q \<noteq> None"
    and "start_index p \<noteq> k" and "0 \<le> start_index p" and "0 \<le> k"
  shows "page_ok d s fs' p"
  using assms by (auto simp: page_ok_def open_name_inj)

lemma page_ok_more_files:
  assumes "page_ok d s fs p" and "\<And>q. fs_read fs q \<noteq> None \<Longrightarrow> fs_read fs' q \<noteq> None"
  shows "page_ok d s fs' p"
  using assms by (auto simp: page_ok_def)

subsection \<open>Closing the open page\<close>

text \<open>Closing a page that holds entries moves its file and touches no other one.\<close>

lemma Page_Close_nonempty:
  assumes ok: "page_ok d s fs p" and op: "is_open p" and ne: "log_entries p \<noteq> []" "start_index p < end_index p"
  obtains p' fs' where "Page_Close p fs = Inr (p', fs')" and "page_ok d s fs' p'"
    and "start_index p' = start_index p" and "end_index p' = end_index p" and "log_entries p' = log_entries p"
    and "\<And>f. f \<noteq> d @ open_name (start_index p) \<Longrightarrow> fs_read fs f \<noteq> None \<Longrightarrow> fs_read fs' f \<noteq> None"
proof -
  let ?s = "start_index p" and ?p1 = "p\<lparr>is_open := False\<rparr>"
  have name: "filename p = open_name ?s" "page_dir p = d" "max_file_size p = s"
    using ok op by (auto simp: page_ok_def)
  obtain bs where bs: "fs_read fs (d @ open_name ?s) = Some bs" using ok name by (auto simp: page_ok_def)
  define fs1 where "fs1 = fs_write (d @ ClosedFilename ?p1) bs (fs_remove (d @ open_name ?s) fs)"
  have "Page_Close p fs = Inr (?p1\<lparr>filename := ClosedFilename ?p1\<rparr>, fs1)"
    using op ne(2) name bs fs_rename_Inr [OF bs, of "d @ ClosedFilename ?p1"]
    by (simp add: Page_Close_def Let_def fs1_def) (metis ClosedFilename_not_open)
  moreover have "page_ok d s fs1 (?p1\<lparr>filename := ClosedFilename ?p1\<rparr>)"
    using ok name ne(1) by (auto simp: page_ok_def fs1_def ClosedFilename_def)
  ultimately show ?thesis by (rule that) (auto simp: fs1_def)
qed

text \<open>
  Replacing the last page by a closed one with the same entries and registering an empty page
  behind it keeps the invariant and the records.
\<close>

lemma log_inv_next_page:
  fixes l defines "h \<equiv> page_heap l" and "d \<equiv> m_dir l" and "n \<equiv> m_log_size l"
  assumes inv: "log_inv l" and op: "m_open_page l = Some r"
    and p: "start_index p = start_index (h ! r)" "end_index p = end_index (h ! r)"
      "log_entries p = log_entries (h ! r)" "start_index p < n" "page_ok d (m_max_file_size l) fs p"
    and files: "\<And>f. f \<noteq> d @ open_name (start_index p) \<Longrightarrow> fs_read (disk l) f \<noteq> None \<Longrightarrow> fs_read fs f \<noteq> None"
    and q: "q = \<lparr>is_open = True, byte_offset = 0, start_index = n, end_index = n, page_dir = d,
      filename = open_name n, log_entries = [], max_file_size = m_max_file_size l\<rparr>"
    and l': "l' = l\<lparr>page_heap := h[r := p] @ [q], disk := fs_touch (d @ open_name n) fs,
      m_open_page := Some (length h), m_log_indices := m_log_indices l @ [(n, length h)]\<rparr>"
  shows "log_inv l'" and "log_records l' = log_records l" and "page_heap l' ! length h = q"
    and "omap_insert n (length h) (m_log_indices l) = m_log_indices l @ [(n, length h)]"
proof -
  let ?s = "start_index (h ! r)"
  from inv obtain m where ix: "m_log_indices l = m @ [(?s, r)]"
    and r: "r < length h" "r \<notin> snd ` set m" "distinct (map snd m)"
    and m: "omap_sorted m" "\<forall>x \<in> set m. fst x < ?s" "chain h m 0 ?s"
    and e: "end_index (h ! r) = n" "n = start_index (h ! r) + int (length (log_entries (h ! r)))"
    and ok: "\<forall>x \<in> set m. page_ok d (m_max_file_size l) (disk l) (h ! snd x)"
    using op unfolding h_def d_def n_def by (metis log_invE option.inject)
  have heap: "page_heap l' ! length h = q" "page_heap l' ! r = p"
    "\<And>x. x \<in> set m \<Longrightarrow> page_heap l' ! snd x = h ! snd x"
    using r chain_refs [OF m(3)] by (force simp: l' nth_append nth_list_update)+
  have lt: "\<And>x. x \<in> set m \<Longrightarrow> snd x < length h" using chain_refs [OF m(3)] by auto
  then have fresh: "length h \<notin> snd ` set m" by force
  have old: "page_ok d (m_max_file_size l) (disk l') (h ! snd x)" if x: "x \<in> set m" for x
    by (rule page_ok_other_file [of _ _ "disk l", where k = ?s])
      (use x ok files p(1) m(2) chain_length [OF m(3)] chain_refs [OF m(3) x] chain_keys [OF m(3) x] in \<open>auto simp: l'\<close>)
  show "log_inv l'"
  proof (rule log_invI)
    show "m_open_page l' = Some (length h)"
      and "m_log_indices l' = (m @ [(?s, r)]) @ [(start_index (page_heap l' ! length h), length h)]"
      using heap ix by (simp_all add: l' q)
    show "chain (page_heap l') (m @ [(?s, r)]) 0 (start_index (page_heap l' ! length h))"
      unfolding chain_append
      by (rule exI [of _ ?s]) (use chain_cong [OF _ m(3), of "page_heap l'"] heap lt r e p in
          \<open>auto simp: l' q less_SucI\<close>)
    show "\<forall>x \<in> set (m @ [(?s, r)]). page_ok (m_dir l') (m_max_file_size l') (disk l') (page_heap l' ! snd x)"
      using old heap page_ok_more_files [OF p(5), of "disk l'"] by (auto simp: l' d_def)
  qed (use heap fresh r m p log_inv_sizes [OF inv] in \<open>auto simp: l' q sorted_wrt_append page_ok_def d_def n_def\<close>)
  have "chain_records (page_heap l') m = chain_records h m" by (rule chain_records_cong) (rule heap(3))
  then show "log_records l' = log_records l" using heap ix p(3) by (simp add: log_records_def l' q h_def)
  show "page_heap l' ! length h = q" by (rule heap(1))
  show "omap_insert n (length h) (m_log_indices l) = m_log_indices l @ [(n, length h)]"
    by (rule omap_insert_above) (use ix m(2) p in auto)
qed

lemma CreateOpenFile_inv:
  assumes inv: "log_inv l" and nonempty: "log_entries (page_heap l ! the (m_open_page l)) \<noteq> []"
  obtains l' where "CreateOpenFile l = Inr l'" and "log_inv l'" and "log_records l' = log_records l"
    and "m_log_size l' = m_log_size l" and "m_metadata l' = m_metadata l" and "m_dir l' = m_dir l"
    and "m_max_file_size l' = m_max_file_size l"
    and "m_open_page l' = Some (length (page_heap l))"
    and "log_entries (page_heap l' ! length (page_heap l)) = []"
proof -
  let ?h = "page_heap l" and ?d = "m_dir l" and ?n = "m_log_size l"
  from inv obtain m r where op: "m_open_page l = Some r" "is_open (?h ! r)"
    and e: "end_index (?h ! r) = ?n" "?n = start_index (?h ! r) + int (length (log_entries (?h ! r)))"
    and ok: "page_ok ?d (m_max_file_size l) (disk l) (?h ! r)" and r: "r < length ?h"
    by (rule log_invE)
  have ne: "log_entries (?h ! r) \<noteq> []" using nonempty op(1) by simp
  then have se: "start_index (?h ! r) < ?n" using e by simp
  then obtain p fs where c: "Page_Close (?h ! r) (disk l) = Inr (p, fs)" "page_ok ?d (m_max_file_size l) fs p"
    "start_index p = start_index (?h ! r)" "end_index p = end_index (?h ! r)" "log_entries p = log_entries (?h ! r)"
    "\<And>f. f \<noteq> ?d @ open_name (start_index (?h ! r)) \<Longrightarrow> fs_read (disk l) f \<noteq> None \<Longrightarrow> fs_read fs f \<noteq> None"
    using Page_Close_nonempty [OF ok op(2) ne] e(1) by metis
  define q where "q = \<lparr>is_open = True, byte_offset = 0, start_index = ?n, end_index = ?n,
    page_dir = ?d, filename = open_name ?n, log_entries = [], max_file_size = m_max_file_size l\<rparr>"
  define l' where "l' = l\<lparr>page_heap := ?h[r := p] @ [q], disk := fs_touch (?d @ open_name ?n) fs,
    m_open_page := Some (length ?h), m_log_indices := m_log_indices l @ [(?n, length ?h)]\<rparr>"
  have files: "\<And>f. f \<noteq> ?d @ open_name (start_index p) \<Longrightarrow> fs_read (disk l) f \<noteq> None \<Longrightarrow> fs_read fs f \<noteq> None"
    using c(3,6) by simp
  note N = log_inv_next_page [OF inv op(1) c(3,4,5) _ c(2) files q_def l'_def, unfolded c(3), OF se]
  have "CreateOpenFile l = Inr l'"
    using op(1) c(1) N(4)
    by (simp add: CreateOpenFile_def make_page_def Page_new_def LogSize_def Let_def l'_def q_def nth_append)
  then show ?thesis using N(1,2,3) by (intro that [of l']) (simp_all add: l'_def q_def)
qed

subsection \<open>Appending\<close>

text \<open>
  An entry can be appended when it serialises and its size does not exceed the page size. (A larger
  one, met by an empty open page, is the subject of the oversized-entry property.)
\<close>

definition entry_fits :: "protobuf \<Rightarrow> PersistedLog \<Rightarrow> LogEntry \<Rightarrow> bool" where
  "entry_fits pb l e \<longleftrightarrow>
     SerializeDelimited (entry_codec pb) e \<noteq> None \<and>
     int (ByteSizeLong (entry_codec pb) e) \<le> m_max_file_size l"

lemma write_entry_inv:
  assumes inv: "log_inv l" and op: "m_open_page l = Some r"
    and w: "WriteLogEntry pb e (page_heap l ! r) (disk l) = Some (p, fs')"
    and l': "l' = l\<lparr>page_heap := (page_heap l)[r := p], disk := fs', m_log_size := m_log_size l + 1\<rparr>"
  shows "log_inv l' \<and> log_list l' = log_list l @ [e]"
proof -
  from inv obtain m r' where op': "m_open_page l = Some r'" "is_open (page_heap l ! r')"
    "m_log_indices l = m @ [(start_index (page_heap l ! r'), r')]"
    and r: "r' < length (page_heap l)" "r' \<notin> snd ` set m" "distinct (map snd m)"
    and m: "omap_sorted m" "\<forall>p \<in> set m. fst p < start_index (page_heap l ! r')"
    "chain (page_heap l) m 0 (start_index (page_heap l ! r'))"
    and e: "end_index (page_heap l ! r') = m_log_size l"
    "m_log_size l = start_index (page_heap l ! r') + int (length (log_entries (page_heap l ! r')))"
    and ok: "page_ok (m_dir l) (m_max_file_size l) (disk l) (page_heap l ! r')"
    "\<forall>p \<in> set m. page_ok (m_dir l) (m_max_file_size l) (disk l) (page_heap l ! snd p)"
    by (rule log_invE)
  have rr [simp]: "r' = r" using op op'(1) by simp
  let ?h = "page_heap l"
  obtain bs where p: "p = (?h ! r)\<lparr>log_entries := log_entries (?h ! r) @
      [\<lparr>rec_entry = e, rec_offset = byte_offset (?h ! r)\<rparr>],
      byte_offset := byte_offset (?h ! r) + int (ByteSizeLong (entry_codec pb) e),
      end_index := end_index (?h ! r) + 1\<rparr>"
    and fs': "fs' = fs_append (page_dir (?h ! r) @ filename (?h ! r)) bs (disk l)"
    using w by (auto simp: WriteLogEntry_def split: option.splits)
  have heap: "page_heap l' ! r = p" "\<And>x. x \<in> set m \<Longrightarrow> page_heap l' ! snd x = ?h ! snd x"
    using r by (force simp: l' nth_list_update)+
  have files: "fs_read fs' f \<noteq> None" if "fs_read (disk l) f \<noteq> None" for f
    using that by (auto simp: fs')
  have "log_inv l'"
  proof (rule log_invI)
    show "chain (page_heap l') m 0 (start_index (page_heap l' ! r))"
      using chain_cong [OF _ m(3), of "page_heap l'"] heap chain_refs [OF m(3)]
      by (auto simp: l' p)
    show "page_ok (m_dir l') (m_max_file_size l') (disk l') (page_heap l' ! r)"
      using ok(1) heap files op'(2) by (auto simp: page_ok_def l' p)
    show "\<forall>x \<in> set m. page_ok (m_dir l') (m_max_file_size l') (disk l') (page_heap l' ! snd x)"
      using ok(2) heap(2) page_ok_more_files [where fs = "disk l" and fs' = fs', OF _ files]
      by (simp add: l')
  qed (use heap r m e op'(2,3) op log_inv_sizes [OF inv] in \<open>auto simp: l' p\<close>)
  moreover have "chain_records (page_heap l') m = chain_records ?h m"
    by (rule chain_records_cong) (rule heap(2))
  then have "log_list l' = log_list l @ [e]"
    using heap(1) op'(3) by (simp add: log_list_def log_records_def l' p)
  ultimately show ?thesis by simp
qed

lemma WriteLogEntry_Some:
  "SerializeDelimited (entry_codec pb) e \<noteq> None \<Longrightarrow> \<exists>p fs'. WriteLogEntry pb e q fs = Some (p, fs')"
  by (auto simp: WriteLogEntry_def)

lemma log_inv_touch:
  assumes "log_inv l"
  shows "log_inv (l\<lparr>disk := fs_touch f (disk l)\<rparr>)"
  using assms
  by (fastforce simp: log_inv_def log_readable_def log_attached_def pages_ok_def page_ok_def
      split: prod.splits)

lemma open_log_stream_inv:
  assumes "log_inv l"
  obtains l' where "open_log_stream l = Inr l'" and "log_inv l'"
    and "log_list l' = log_list l" and "m_max_file_size l' = m_max_file_size l"
    and "m_open_page l' = m_open_page l" and "page_heap l' = page_heap l"
proof -
  from assms obtain r where "m_open_page l = Some r" by (rule log_invE)
  with log_inv_touch [OF assms] show ?thesis
    by (intro that [of "l\<lparr>disk := fs_touch (m_dir l @ filename (page_heap l ! r)) (disk l)\<rparr>"])
      (simp_all add: open_log_stream_def log_list_def log_records_def)
qed

lemma persist_entry_inv:
  assumes inv: "log_inv l" and fits: "entry_fits pb l e"
  obtains l' where "persist_entry pb e l = Inr l'" and "log_inv l'"
    and "log_list l' = log_list l @ [e]" and "m_max_file_size l' = m_max_file_size l"
proof -
  from inv obtain m r where op: "m_open_page l = Some r"
    and ok: "page_ok (m_dir l) (m_max_file_size l) (disk l) (page_heap l ! r)"
    by (rule log_invE)
  let ?full = "int (ByteSizeLong (entry_codec pb) e) > size_t_of_int (RemainingSpace (page_heap l ! r))"
  have "log_entries (page_heap l ! r) \<noteq> []" if ?full
    using that ok fits log_inv_sizes [OF inv]
    by (auto simp: page_ok_def entry_fits_def RemainingSpace_def)
  then obtain l1 where l1: "(if ?full then rbind (CreateOpenFile l) open_log_stream else Inr l) = Inr l1"
    "log_inv l1" "log_list l1 = log_list l" "m_max_file_size l1 = m_max_file_size l"
  proof (cases ?full)
    case True
    with \<open>?full \<Longrightarrow> _\<close> op have ne: "log_entries (page_heap l ! the (m_open_page l)) \<noteq> []" by simp
    obtain l2 where l2: "CreateOpenFile l = Inr l2" "log_inv l2" "log_records l2 = log_records l"
      "m_max_file_size l2 = m_max_file_size l"
      by (rule CreateOpenFile_inv [OF inv ne])
    obtain l3 where "open_log_stream l2 = Inr l3" "log_inv l3" "log_list l3 = log_list l2"
      "m_max_file_size l3 = m_max_file_size l2"
      by (rule open_log_stream_inv [OF l2(2)])
    with l2 True that show thesis by (simp add: log_list_def)
  qed (use inv that in auto)
  from l1(2) obtain m1 r1 where op1: "m_open_page l1 = Some r1" by (rule log_invE)
  obtain p fs' where w: "WriteLogEntry pb e (page_heap l1 ! r1) (disk l1) = Some (p, fs')"
    using WriteLogEntry_Some [of pb e "page_heap l1 ! r1" "disk l1"] fits
    by (auto simp: entry_fits_def)
  define l' where "l' = l1\<lparr>page_heap := (page_heap l1)[r1 := p], disk := fs',
    m_log_size := m_log_size l1 + 1\<rparr>"
  have "persist_entry pb e l = Inr l'"
    unfolding persist_entry_def op option.case l1(1) by (simp add: op1 w l'_def)
  moreover have "log_inv l' \<and> log_list l' = log_list l1 @ [e]"
    by (rule write_entry_inv [OF l1(2) op1 w l'_def])
  ultimately show ?thesis using l1(3,4) by (intro that [of l']) (simp_all add: l'_def)
qed

lemma persist_loop_inv:
  assumes "log_inv l" and "\<forall>e \<in> set es. entry_fits pb l e"
  shows "\<exists>l'. persist_loop pb es l = Inr l' \<and> log_inv l' \<and> log_list l' = log_list l @ es \<and>
     m_max_file_size l' = m_max_file_size l"
  using assms
proof (induction es arbitrary: l)
  case (Cons e es)
  from Cons.prems obtain l1 where l1: "persist_entry pb e l = Inr l1" "log_inv l1"
    "log_list l1 = log_list l @ [e]" "m_max_file_size l1 = m_max_file_size l"
    using persist_entry_inv [of l pb e] by auto
  then have "\<forall>x \<in> set es. entry_fits pb l1 x" using Cons.prems(2) by (auto simp: entry_fits_def)
  with Cons.IH [OF l1(2)] l1 show ?case by auto
qed simp

lemma PersistLogEntries_inv:
  assumes "log_inv l" and "\<forall>e \<in> set es. entry_fits pb l e"
  obtains l' where "PersistLogEntries pb es l = Inr l'" and "log_inv l'"
    and "log_list l' = log_list l @ es" and "m_max_file_size l' = m_max_file_size l"
proof -
  obtain l1 where l1: "open_log_stream l = Inr l1" "log_inv l1" "log_list l1 = log_list l"
    "m_max_file_size l1 = m_max_file_size l"
    by (rule open_log_stream_inv [OF assms(1)])
  then have "\<forall>x \<in> set es. entry_fits pb l1 x" using assms(2) by (auto simp: entry_fits_def)
  with persist_loop_inv [OF l1(2)] l1 that show ?thesis by (auto simp: PersistLogEntries_def)
qed

lemma Append_inv:
  assumes "log_inv l" and "\<forall>e \<in> set es. entry_fits pb l e"
  shows "\<exists>l'. Append pb es l = Inr ((LogSize l, LogSize l + int (length es)), l') \<and> log_inv l' \<and>
     log_list l' = log_list l @ es \<and> m_max_file_size l' = m_max_file_size l"
proof -
  obtain l' where "PersistLogEntries pb es l = Inr l'" "log_inv l'" "log_list l' = log_list l @ es"
    "m_max_file_size l' = m_max_file_size l"
    by (rule PersistLogEntries_inv [OF assms])
  with assms(1) show ?thesis by (simp add: Append_def Let_def LogSize_log_list)
qed

lemma Append_entry_inv:
  assumes "log_inv l" and "entry_fits pb l e"
  shows "\<exists>l'. Append_entry pb e l = Inr (LogSize l, l') \<and> log_inv l' \<and> log_list l' = log_list l @ [e] \<and>
     m_max_file_size l' = m_max_file_size l"
proof -
  obtain l' where "PersistLogEntries pb [e] l = Inr l'" "log_inv l'" "log_list l' = log_list l @ [e]"
    "m_max_file_size l' = m_max_file_size l"
    using PersistLogEntries_inv [OF assms(1), of "[e]"] assms(2) by auto
  then show ?thesis by (simp add: Append_entry_def Let_def)
qed

subsection \<open>Truncating\<close>

text \<open>Truncation inside the open page keeps the whole invariant.\<close>

lemma truncate_open_page_inv:
  assumes inv: "log_inv l" and op: "m_open_page l = Some r"
    and i: "start_index (page_heap l ! r) < i" "i < m_log_size l"
    and t: "Page_TruncateSuffix i (page_heap l ! r) (disk l) = Inr (p, fs')"
    and l': "l' = l\<lparr>m_log_size := m_log_size l - (end_index (page_heap l ! r) - i),
                    page_heap := (page_heap l)[r := p], disk := fs'\<rparr>"
  shows "log_inv l' \<and> log_list l' = take (nat i) (log_list l) \<and> m_log_size l' = i \<and>
     m_open_page l' = Some r \<and> log_entries (page_heap l' ! r) \<noteq> []"
proof -
  from inv obtain m r' where op': "m_open_page l = Some r'" "is_open (page_heap l ! r')"
    "m_log_indices l = m @ [(start_index (page_heap l ! r'), r')]"
    and r: "r' < length (page_heap l)" "r' \<notin> snd ` set m" "distinct (map snd m)"
    and m: "omap_sorted m" "\<forall>p \<in> set m. fst p < start_index (page_heap l ! r')"
    "chain (page_heap l) m 0 (start_index (page_heap l ! r'))"
    and e: "end_index (page_heap l ! r') = m_log_size l"
    "m_log_size l = start_index (page_heap l ! r') + int (length (log_entries (page_heap l ! r')))"
    and ok: "page_ok (m_dir l) (m_max_file_size l) (disk l) (page_heap l ! r')"
    "\<forall>p \<in> set m. page_ok (m_dir l) (m_max_file_size l) (disk l) (page_heap l ! snd p)"
    by (rule log_invE)
  have rr [simp]: "r' = r" using op op'(1) by simp
  let ?h = "page_heap l" and ?s = "start_index (page_heap l ! r)"
  let ?n = "nat (i - ?s)"
  let ?off = "rec_offset (log_entries (?h ! r) ! ?n)"
  have n: "0 < ?n" "?n < length (log_entries (?h ! r))" using i e by auto
  have p: "p = (?h ! r)\<lparr>log_entries := take ?n (log_entries (?h ! r)), byte_offset := ?off,
      end_index := i\<rparr>"
    and fs': "fs_resize (page_dir (?h ! r) @ filename (?h ! r)) ?off (disk l) = Inr fs'"
    using t op'(2) by (auto simp: Page_TruncateSuffix_def Let_def split: if_splits)
  have off: "0 \<le> ?off" using ok(1) n(2) by (auto simp: page_ok_def)
  have files: "fs_read fs' f \<noteq> None" if "fs_read (disk l) f \<noteq> None" for f
    using fs' that by (auto simp: fs_resize_def split: option.splits if_splits)
  have heap: "page_heap l' ! r = p" "\<And>x. x \<in> set m \<Longrightarrow> page_heap l' ! snd x = ?h ! snd x"
    using r by (force simp: l' nth_list_update)+
  have size: "m_log_size l' = i" using e by (simp add: l')
  have "log_inv l'"
  proof (rule log_invI)
    show "chain (page_heap l') m 0 (start_index (page_heap l' ! r))"
      using chain_cong [OF _ m(3), of "page_heap l'"] heap chain_refs [OF m(3)]
      by (auto simp: l' p)
    show "page_ok (m_dir l') (m_max_file_size l') (disk l') (page_heap l' ! r)"
      using ok(1) heap files op'(2) off n by (auto simp: page_ok_def l' p dest: in_set_takeD)
    show "\<forall>x \<in> set m. page_ok (m_dir l') (m_max_file_size l') (disk l') (page_heap l' ! snd x)"
      using ok(2) heap(2) page_ok_more_files [where fs = "disk l" and fs' = fs', OF _ files]
      by (simp add: l')
  qed (use heap r m e n op'(2,3) op log_inv_sizes [OF inv] in \<open>auto simp: l' p\<close>)
  moreover have "chain_records (page_heap l') m = chain_records ?h m"
    by (rule chain_records_cong) (rule heap(2))
  then have "log_list l' = take (nat i) (log_list l)"
    using heap(1) op'(3) chain_length [OF m(3)] i n
    by (simp add: log_list_def log_records_def l' p take_map nat_diff_distrib)
  moreover have "log_entries (page_heap l' ! r) \<noteq> []" using heap(1) n by (auto simp: p)
  moreover have "m_open_page l' = Some r" using op by (simp add: l')
  ultimately show ?thesis using size by blast
qed

lemma Page_TruncateSuffix_Inr:
  assumes ok: "page_ok d s fs p" and i: "start_index p \<le> i" "i < start_index p + int (length (log_entries p))"
  shows "\<exists>p' fs'. Page_TruncateSuffix i p fs = Inr (p', fs')"
proof -
  let ?rec = "log_entries p ! nat (i - start_index p)"
  have "?rec \<in> set (log_entries p)" using i by simp
  then have "0 \<le> rec_offset ?rec" using ok by (simp add: page_ok_def)
  moreover obtain bs where "fs_read fs (page_dir p @ filename p) = Some bs"
    using ok by (auto simp: page_ok_def)
  ultimately show ?thesis
    using i by (auto simp: Page_TruncateSuffix_def Let_def fs_resize_def fs_rename_def)
qed

lemma TruncateSuffix_open_inv:
  assumes inv: "log_inv l" and i: "start_index (page_heap l ! the (m_open_page l)) < i"
  shows "\<exists>l'. TruncateSuffix i l = Inr l' \<and> log_inv l' \<and> log_list l' = take (nat i) (log_list l) \<and>
     m_max_file_size l' = m_max_file_size l"
proof (cases "i < m_log_size l")
  case False
  then show ?thesis
    using inv log_size_records [of l] by (auto simp: TruncateSuffix_def LastLogIndex_def LogSize_def log_list_def)
next
  case True
  from inv obtain m r where op: "m_open_page l = Some r"
    and e: "m_log_size l = start_index (page_heap l ! r) + int (length (log_entries (page_heap l ! r)))"
    and ok: "page_ok (m_dir l) (m_max_file_size l) (disk l) (page_heap l ! r)"
    by (rule log_invE)
  have s: "start_index (page_heap l ! r) < i" using i op by simp
  obtain p fs' where t: "Page_TruncateSuffix i (page_heap l ! r) (disk l) = Inr (p, fs')"
    using Page_TruncateSuffix_Inr [OF ok, of i] s True e by auto
  define l1 where "l1 = l\<lparr>m_log_size := m_log_size l - (end_index (page_heap l ! r) - i),
    page_heap := (page_heap l)[r := p], disk := fs'\<rparr>"
  from truncate_open_page_inv [OF inv op s True t l1_def] have l1: "log_inv l1"
    "log_list l1 = take (nat i) (log_list l)" "log_entries (page_heap l1 ! the (m_open_page l1)) \<noteq> []"
    by auto
  obtain l2 where "CreateOpenFile l1 = Inr l2" "log_inv l2" "log_records l2 = log_records l1"
    "m_max_file_size l2 = m_max_file_size l1"
    by (rule CreateOpenFile_inv [OF l1(1,3)])
  moreover have "TruncateSuffix i l = CreateOpenFile l1"
    using True s t op by (simp add: TruncateSuffix_def LastLogIndex_def LogSize_def Let_def l1_def)
  ultimately show ?thesis using l1(2) by (simp add: log_list_def l1_def)
qed

end
