(* ===== verification/Raft_Log_Interface.thy ===== *)
theory Raft_Log_Interface
  imports Persisted_Log_Write
begin

section \<open>The interface of the raft log\<close>

text \<open>
  The abstract class \<open>Log\<close> of \<open>src/raft/storage.h\<close> as a locale: what its client, the
  consensus module, relies on. Inside it the comparison loop of the AppendEntries handler is
  proved to compute the longest agreeing run of terms and the whole follower update to be
  \<open>reconcile\<close> on lists. The interpretation at the end discharges the laws for the persisted
  log.
\<close>

subsection \<open>Reconciling two logs, on lists\<close>

text \<open>The number of leading positions at which the terms agree.\<close>

fun agree :: "LogEntry list \<Rightarrow> LogEntry list \<Rightarrow> nat" where
  "agree (x # xs) (e # es) = (if entry_term x = entry_term e then Suc (agree xs es) else 0)"
| "agree xs es = 0"

text \<open>
  The log of a follower after it accepted the entries \<open>es\<close> at position \<open>s\<close>: what agrees is
  kept, and the suffix is replaced only if an entry is missing or conflicts.
\<close>

definition reconcile :: "LogEntry list \<Rightarrow> nat \<Rightarrow> LogEntry list \<Rightarrow> LogEntry list" where
  "reconcile xs s es =
     (let k = agree (drop s xs) es in if k = length es then xs else take (s + k) xs @ drop k es)"

text \<open>The position of the first entry of the log that contradicts the new entries.\<close>

definition first_conflict :: "LogEntry list \<Rightarrow> nat \<Rightarrow> LogEntry list \<Rightarrow> nat option" where
  "first_conflict xs s es =
     (let k = agree (drop s xs) es in if s + k < length xs \<and> k < length es then Some (s + k) else None)"

lemma agree_le: "agree xs es \<le> length xs" "agree xs es \<le> length es"
  by (induction xs es rule: agree.induct) auto

lemma agree_terms: "map entry_term (take (agree xs es) xs) = map entry_term (take (agree xs es) es)"
  by (induction xs es rule: agree.induct) auto

lemma agree_prefix: "map entry_term xs = map entry_term es \<Longrightarrow> agree (xs @ ys) es = length es"
  by (induction xs es rule: list_induct2') auto

lemma agree_covers:
  assumes "map entry_term (take (length es) xs) = map entry_term es"
  shows "agree xs es = length es"
  using agree_prefix [OF assms, of "drop (length es) xs"] by (simp only: append_take_drop_id)

lemma agree_append_all: "agree (take k xs @ ys) es \<ge> min k (agree xs es)"
proof (induction xs es arbitrary: k rule: agree.induct)
  case (1 x xs e es)
  then show ?case by (cases k) auto
qed auto

lemma reconcile_keeps_prefix:
  "s \<le> length xs \<Longrightarrow> take s (reconcile xs s es) = take s xs"
  by (auto simp: reconcile_def Let_def min_def)

lemma reconcile_terms:
  assumes "s \<le> length xs"
  shows "map entry_term (take (length es) (drop s (reconcile xs s es))) = map entry_term es"
proof -
  let ?k = "agree (drop s xs) es"
  have terms: "map entry_term (take ?k (drop s xs)) = map entry_term (take ?k es)" by (rule agree_terms)
  show ?thesis
  proof (cases "?k = length es")
    case True
    with terms show ?thesis by (simp add: reconcile_def)
  next
    case False
    have len: "s + ?k \<le> length xs" "?k < length es"
      using agree_le [of "drop s xs" es] False assms by auto
    have "drop s (reconcile xs s es) = take ?k (drop s xs) @ drop ?k es"
      using False len by (simp add: reconcile_def Let_def drop_take min_def)
    then have "take (length es) (drop s (reconcile xs s es)) = take ?k (drop s xs) @ drop ?k es"
      using len by simp
    then have "map entry_term (take (length es) (drop s (reconcile xs s es))) =
        map entry_term (take ?k es @ drop ?k es)" using terms by (simp only: map_append)
    then show ?thesis by (simp only: append_take_drop_id)
  qed
qed

lemma reconcile_same_terms:
  assumes "map entry_term (take (length es) (drop s xs)) = map entry_term es"
  shows "reconcile xs s es = xs"
  using agree_covers [OF assms] by (simp add: reconcile_def)

lemma reconcile_idem:
  "s \<le> length xs \<Longrightarrow> reconcile (reconcile xs s es) s es = reconcile xs s es"
  by (rule reconcile_same_terms [OF reconcile_terms])

lemma reconcile_length: "s \<le> length xs \<Longrightarrow> s + length es \<le> length (reconcile xs s es)"
  using agree_le [of "drop s xs" es] by (auto simp: reconcile_def Let_def)

text \<open>
  Raft's log matching between a follower's log and the leader's: entries with the same index and
  term have the same history.
\<close>

definition log_matching :: "LogEntry list \<Rightarrow> LogEntry list \<Rightarrow> bool" where
  "log_matching xs ys \<longleftrightarrow>
     (\<forall>i < min (length xs) (length ys).
        entry_term (xs ! i) = entry_term (ys ! i) \<longrightarrow> take (Suc i) xs = take (Suc i) ys)"

lemma log_matching_take:
  assumes "log_matching xs ys" and "k \<le> length xs" and "k \<le> length ys"
    and "0 < k \<Longrightarrow> entry_term (xs ! (k - 1)) = entry_term (ys ! (k - 1))"
  shows "take k xs = take k ys"
  using assms by (cases k) (auto simp: log_matching_def)

lemma agree_nth: "i < agree xs es \<Longrightarrow> entry_term (xs ! i) = entry_term (es ! i)"
  using agree_terms [of xs es] agree_le [of xs es]
  by (metis (no_types, lifting) length_map length_take min.absorb2 nth_map nth_take)

lemma agree_conflict:
  "agree xs es < length xs \<Longrightarrow> agree xs es < length es \<Longrightarrow>
     entry_term (xs ! agree xs es) \<noteq> entry_term (es ! agree xs es)"
  by (induction xs es rule: agree.induct) auto

text \<open>
  With entries that are a slice of the leader's log and a consistency check passed at
  \<open>s - 1\<close>, the follower's log agrees with the leader's up to the end of the slice.
\<close>

lemma reconcile_leader_prefix:
  assumes match: "log_matching xs L" and s: "s \<le> length xs" "s + n \<le> length L"
    and es: "es = take n (drop s L)"
    and prev: "0 < s \<Longrightarrow> entry_term (xs ! (s - 1)) = entry_term (L ! (s - 1))"
  shows "take (s + n) (reconcile xs s es) = take (s + n) L"
proof -
  let ?k = "agree (drop s xs) es"
  have len: "length es = n" using es s by simp
  have k: "s + ?k \<le> length xs" "?k \<le> n"
    using agree_le [of "drop s xs" es] s len by auto
  have pre: "take (s + ?k) xs = take (s + ?k) L"
  proof (rule log_matching_take [OF match])
    show "entry_term (xs ! (s + ?k - 1)) = entry_term (L ! (s + ?k - 1))" if "0 < s + ?k"
    proof (cases "?k = 0")
      case True
      with prev that show ?thesis by simp
    next
      case False
      then have "entry_term (drop s xs ! (?k - 1)) = entry_term (es ! (?k - 1))"
        by (intro agree_nth) simp
      with False k es s show ?thesis by (simp add: nth_append)
    qed
  qed (use k s in auto)
  show ?thesis
  proof (cases "?k = n")
    case True
    with pre len show ?thesis by (simp add: reconcile_def)
  next
    case False
    then have "reconcile xs s es = take (s + ?k) L @ drop ?k es"
      using pre len by (simp add: reconcile_def Let_def)
    moreover have "take (s + n) L = take (s + ?k) L @ drop ?k es"
      using k es by (simp add: drop_take take_add [symmetric] add.commute)
    ultimately show ?thesis using len k s by simp
  qed
qed

subsection \<open>The client's loop\<close>

text \<open>
  The comparison loop of \<open>ProcessAppendEntriesClientRequest\<close>, over the log it reads through
  \<open>LogSize\<close> and \<open>Entry\<close>: \<open>i\<close> is \<open>log_insert_index\<close> and the last argument the
  entries from \<open>new_entries_index\<close> on. The result says where the loop stopped and whether
  it broke out at a conflict.
\<close>

fun ae_scan ::
  "int \<Rightarrow> (int \<Rightarrow> LogEntry result) \<Rightarrow> int \<Rightarrow> LogEntry list \<Rightarrow> (int \<times> LogEntry list \<times> bool) result" where
  "ae_scan log_size entry i [] = Inr (i, [], False)"
| "ae_scan log_size entry i (e # es) =
     (if i < log_size then
        rbind (entry i) (\<lambda>x.
          if entry_term x = entry_term e then ae_scan log_size entry (i + 1) es
          else Inr (i, e # es, True))
      else Inr (i, e # es, False))"

lemma ae_scan_agree:
  assumes "\<And>j. 0 \<le> j \<Longrightarrow> j < int (length xs) \<Longrightarrow> entry j = Inr (xs ! nat j)"
  shows "s \<le> length xs \<Longrightarrow>
     ae_scan (int (length xs)) entry (int s) es =
       (let k = agree (drop s xs) es in
        Inr (int (s + k), drop k es, s + k < length xs \<and> k < length es))"
proof (induction es arbitrary: s)
  case (Cons e es)
  show ?case
  proof (cases "s < length xs")
    case True
    then have "drop s xs = xs ! s # drop (Suc s) xs" by (simp add: Cons_nth_drop_Suc)
    with True Cons.IH [of "Suc s"] show ?thesis by (simp add: assms Let_def add.commute)
  qed (use Cons.prems in simp)
qed simp

subsection \<open>The interface\<close>

text \<open>
  \<open>log_ok\<close> is the provider's invariant, \<open>entries_of\<close> its contents; \<open>storable\<close> and
  \<open>removable\<close> say which appends and truncations it supports.
\<close>

locale raft_log =
  fixes log_ok :: "'s \<Rightarrow> bool"
    and entries_of :: "'s \<Rightarrow> LogEntry list"
    and log_size :: "'s \<Rightarrow> int"
    and entry_at :: "'s \<Rightarrow> int \<Rightarrow> LogEntry result"
    and slice :: "'s \<Rightarrow> int \<Rightarrow> int \<Rightarrow> LogEntry list result"
    and storable :: "'s \<Rightarrow> LogEntry list \<Rightarrow> bool"
    and append :: "LogEntry list \<Rightarrow> 's \<Rightarrow> ((int \<times> int) \<times> 's) result"
    and removable :: "'s \<Rightarrow> int \<Rightarrow> bool"
    and truncate :: "int \<Rightarrow> 's \<Rightarrow> 's result"
  assumes size_law: "log_ok l \<Longrightarrow> log_size l = int (length (entries_of l))"
    and entry_law: "log_ok l \<Longrightarrow> 0 \<le> i \<Longrightarrow> i < int (length (entries_of l)) \<Longrightarrow>
      entry_at l i = Inr (entries_of l ! nat i)"
    and slice_law: "log_ok l \<Longrightarrow> 0 \<le> a \<Longrightarrow> a \<le> b \<Longrightarrow> b \<le> int (length (entries_of l)) \<Longrightarrow>
      slice l a b = Inr (take (nat (b - a)) (drop (nat a) (entries_of l)))"
    and append_law: "log_ok l \<Longrightarrow> storable l es \<Longrightarrow>
      \<exists>l'. append es l = Inr ((log_size l, log_size l + int (length es)), l') \<and> log_ok l' \<and>
        entries_of l' = entries_of l @ es \<and> (\<forall>es'. storable l es' \<longrightarrow> storable l' es')"
    and truncate_law: "log_ok l \<Longrightarrow> removable l i \<Longrightarrow> 0 \<le> i \<Longrightarrow>
      \<exists>l'. truncate i l = Inr l' \<and> log_ok l' \<and> entries_of l' = take (nat i) (entries_of l) \<and>
        (\<forall>es. storable l es \<longrightarrow> storable l' es)"
    and storable_suffix: "storable l es \<Longrightarrow> storable l (drop k es)"
begin

text \<open>What is read back after an append.\<close>

lemma append_then_slice:
  assumes "log_ok l" and "storable l es"
  shows "\<exists>l'. append es l = Inr ((log_size l, log_size l'), l') \<and> log_ok l' \<and>
     slice l' (log_size l) (log_size l') = Inr es \<and>
     (\<forall>i. 0 \<le> i \<longrightarrow> i < log_size l \<longrightarrow> entry_at l' i = entry_at l i)"
proof -
  obtain l' where l': "append es l = Inr ((log_size l, log_size l + int (length es)), l')"
    "log_ok l'" "entries_of l' = entries_of l @ es"
    using append_law [OF assms] by blast
  then show ?thesis
    using assms(1) by (intro exI [of _ l']) (auto simp: size_law entry_law slice_law nth_append nat_less_iff)
qed

lemma scan_spec:
  assumes "log_ok l" and "s \<le> length (entries_of l)"
  shows "ae_scan (log_size l) (entry_at l) (int s) es =
     (let k = agree (drop s (entries_of l)) es in
      Inr (int (s + k), drop k es, s + k < length (entries_of l) \<and> k < length es))"
  using ae_scan_agree [of "entries_of l" "entry_at l"] assms by (simp add: entry_law size_law)

text \<open>
  The follower update: scan, truncate at a conflict, append the rest.
\<close>

lemma follower_update:
  assumes ok: "log_ok l" and s: "s \<le> length (entries_of l)" and st: "storable l es"
    and rem: "\<And>i. first_conflict (entries_of l) s es = Some i \<Longrightarrow> removable l (int i)"
    and scan: "ae_scan (log_size l) (entry_at l) (int s) es = Inr (i, rest, conflict)"
  shows "\<exists>l1. (if conflict then truncate i l else Inr l) = Inr l1 \<and> log_ok l1 \<and>
     (if rest = [] then entries_of l1 = reconcile (entries_of l) s es
      else \<exists>ix l2. append rest l1 = Inr (ix, l2) \<and> log_ok l2 \<and>
             entries_of l2 = reconcile (entries_of l) s es)"
proof -
  let ?xs = "entries_of l" and ?k = "agree (drop s (entries_of l)) es"
  have k: "i = int (s + ?k)" "rest = drop ?k es" "conflict \<longleftrightarrow> s + ?k < length ?xs \<and> ?k < length es"
    using scan scan_spec [OF ok s, of es] by (simp_all add: Let_def)
  have le: "s + ?k \<le> length ?xs" using agree_le(1) [of "drop s ?xs" es] s by simp
  obtain l1 where l1: "(if conflict then truncate i l else Inr l) = Inr l1" "log_ok l1"
    "entries_of l1 = (if conflict then take (s + ?k) ?xs else ?xs)" "storable l1 rest"
  proof (cases conflict)
    case True
    have "removable l i" using True k rem [of "s + ?k"] by (simp add: first_conflict_def Let_def)
    from truncate_law [OF ok this] k st True show ?thesis
      by (metis (full_types) nat_int of_nat_0_le_iff storable_suffix that)
  next
    case False
    with ok storable_suffix [OF st] k(2) that show ?thesis by simp
  qed
  have rest: "rest = [] \<longleftrightarrow> ?k = length es" using k agree_le(2) [of "drop s ?xs" es] by auto
  show ?thesis
  proof (cases "rest = []")
    case True
    with rest k l1 show ?thesis by (intro exI [of _ l1]) (auto simp: reconcile_def)
  next
    case False
    obtain ix l2 where l2: "append rest l1 = Inr (ix, l2)" "log_ok l2" "entries_of l2 = entries_of l1 @ rest"
      using append_law [OF l1(2,4)] by blast
    have "entries_of l1 @ rest = reconcile ?xs s es"
      using l1(3) False rest k le agree_le(2) [of "drop s ?xs" es]
      by (auto simp: reconcile_def Let_def)
    with l1 l2 False show ?thesis by (intro exI [of _ l1]) auto
  qed
qed

end

subsection \<open>The persisted log provides the interface\<close>

text \<open>
  Entries are storable when each fits into a page; an index is removable when it lies behind the
  first entry of the open page.
\<close>

definition open_start :: "PersistedLog \<Rightarrow> int" where
  "open_start l = start_index (page_heap l ! the (m_open_page l))"

interpretation plog: raft_log log_inv log_list LogSize Entry Entries
  "\<lambda>l es. \<forall>e \<in> set es. entry_fits pb l e" "Append pb" "\<lambda>l i. open_start l < i" TruncateSuffix
  for pb
proof (unfold_locales, goal_cases)
  case (4 l es)
  then show ?case using Append_inv [of l es pb] by (auto simp: entry_fits_def)
next
  case (5 l i)
  then show ?case using TruncateSuffix_open_inv [of l i] by (auto simp: entry_fits_def open_start_def)
qed (auto simp: LogSize_log_list Entry_log_list Entries_log_list dest: in_set_dropD)

end
