(* ===== verification/Persisted_Log_Truncate.thy ===== *)
theory Persisted_Log_Truncate
  imports Persisted_Log_Write
begin

section \<open>Truncation across pages\<close>

text \<open>
  \<open>TruncateSuffix\<close> at or below the start of the open page walks back over closed pages. The
  remaining entries are the right ones, but the open page that \<open>CreateOpenFile\<close> registered
  is erased from \<open>m_log_indices\<close> again by the loop, so entries appended later are not
  found: the invariant \<open>log_attached\<close> is lost.
\<close>

lemma page_names_differ:
  assumes "page_ok d s fs p" and "page_ok d s fs q" and "start_index p \<noteq> start_index q"
    and "0 \<le> start_index p" and "0 \<le> start_index q"
  shows "filename p \<noteq> filename q"
proof
  assume eq: "filename p = filename q"
  have "filename p = open_name (start_index p) \<or> filename p = ClosedFilename p"
    and "filename q = open_name (start_index q) \<or> filename q = ClosedFilename q"
    using assms(1,2) by (auto simp: page_ok_def)
  with eq show False
    using assms(3-5) open_name_inj [OF assms(4,5)] ClosedFilename_inj [of p q]
      ClosedFilename_not_open [of p] ClosedFilename_not_open [of q] by metis
qed

lemma page_ok_remove_other:
  assumes "page_ok d s fs p" and "page_ok d s fs q" and "start_index p \<noteq> start_index q"
    and "0 \<le> start_index p" and "0 \<le> start_index q"
  shows "page_ok d s (fs_remove (d @ filename q) fs) p"
  using assms page_names_differ [OF assms] by (auto simp: page_ok_def)

text \<open>What the loop needs of the closed pages and what it leaves alone.\<close>

definition loop_inv :: "PersistedLog \<Rightarrow> bool" where
  "loop_inv l \<longleftrightarrow> log_readable l \<and> distinct (map snd (m_log_indices l)) \<and> pages_ok l"

definition loop_frame :: "PersistedLog \<Rightarrow> PersistedLog \<Rightarrow> bool" where
  "loop_frame l l' \<longleftrightarrow>
     m_open_page l' = m_open_page l \<and> m_max_file_size l' = m_max_file_size l \<and> m_dir l' = m_dir l \<and>
     length (page_heap l') = length (page_heap l) \<and>
     snd ` set (m_log_indices l') \<subseteq> snd ` set (m_log_indices l) \<and>
     (\<forall>r. r \<notin> snd ` set (m_log_indices l) \<longrightarrow> page_heap l' ! r = page_heap l ! r)"

lemma loop_frame_trans: "loop_frame l l1 \<Longrightarrow> loop_frame l1 l2 \<Longrightarrow> loop_frame l l2"
  unfolding loop_frame_def by (intro conjI) (simp, simp, simp, simp, blast, metis in_mono)

lemma loop_invE:
  assumes "loop_inv l" and "m_log_indices l = m @ [(k, r)]"
  shows "start_index (page_heap l ! r) = k" and "r < length (page_heap l)" and "0 \<le> k"
    and "end_index (page_heap l ! r) = m_log_size l"
    and "m_log_size l = k + int (length (log_entries (page_heap l ! r)))"
    and "chain (page_heap l) m 0 k" and "omap_sorted m" and "\<forall>p \<in> set m. fst p < k"
    and "r \<notin> snd ` set m" and "distinct (map snd m)"
    and "page_ok (m_dir l) (m_max_file_size l) (disk l) (page_heap l ! r)"
    and "\<forall>p \<in> set m. page_ok (m_dir l) (m_max_file_size l) (disk l) (page_heap l ! snd p)"
  using assms chain_length [of "page_heap l" m 0 k]
  by (auto simp: loop_inv_def log_readable_def chain_append sorted_wrt_append pages_ok_def)

lemma loop_inv_drop_page:
  assumes inv: "loop_inv l" and ix: "m_log_indices l = m @ [(k, r)]"
    and l1: "l1 = l\<lparr>disk := fs_remove (m_dir l @ filename (page_heap l ! r)) (disk l),
      m_log_indices := omap_erase (start_index (page_heap l ! r)) (m_log_indices l),
      m_log_size := m_log_size l - (end_index (page_heap l ! r) - start_index (page_heap l ! r))\<rparr>"
  shows "loop_inv l1 \<and> m_log_indices l1 = m \<and> m_log_size l1 = k \<and> loop_frame l l1 \<and>
     log_records l = log_records l1 @ log_entries (page_heap l ! r)"
proof -
  note E = loop_invE [OF inv ix]
  have m: "m_log_indices l1 = m"
    unfolding l1 using E(1,8) ix by (simp add: omap_erase_last order.strict_implies_not_eq)
  have size: "m_log_size l1 = k" using E(1,4,5) by (simp add: l1)
  have "page_ok (m_dir l) (m_max_file_size l) (disk l1) (page_heap l ! snd x)" if x: "x \<in> set m" for x
    unfolding l1 using E x chain_refs [OF E(6) x] chain_keys [OF E(6) x]
    by (auto intro!: page_ok_remove_other)
  then have "pages_ok l1" using m by (auto simp: pages_ok_def l1)
  moreover have "log_readable l1"
    using E(6,7) m size by (simp add: log_readable_def) (simp add: l1)
  moreover have "loop_frame l l1"
    using m ix by (auto simp: loop_frame_def) (simp_all add: l1)
  moreover have "log_records l = log_records l1 @ log_entries (page_heap l ! r)"
    using m ix by (simp add: log_records_def) (simp add: l1)
  ultimately show ?thesis using m size E(10) by (simp add: loop_inv_def)
qed

lemma truncate_loop_drop_page:
  assumes inv: "loop_inv l" and ix: "m_log_indices l = m @ [(k, r)]" and i: "i \<le> k"
    and l1: "l1 = l\<lparr>disk := fs_remove (m_dir l @ filename (page_heap l ! r)) (disk l),
      m_log_indices := omap_erase (start_index (page_heap l ! r)) (m_log_indices l),
      m_log_size := m_log_size l - (end_index (page_heap l ! r) - start_index (page_heap l ! r))\<rparr>"
  shows "truncate_loop i l = truncate_loop i l1"
proof -
  have "length (m_log_indices l1) < length (m_log_indices l)"
    using loop_inv_drop_page [OF inv ix l1] ix by simp
  moreover have "omap_rbegin (m_log_indices l) = Some (k, r)" by (simp add: ix omap_rbegin_def)
  ultimately show ?thesis
    using i loop_invE(1) [OF inv ix] by (subst truncate_loop.simps) (simp add: Let_def l1)
qed

lemma Page_TruncateSuffix_result:
  assumes "Page_TruncateSuffix i p fs = Inr (p', fs')"
  shows "start_index p' = start_index p" and "end_index p' = i" and "is_open p' = is_open p"
    and "log_entries p' = take (nat (i - start_index p)) (log_entries p)"
  using assms
  by (auto simp: Page_TruncateSuffix_def Let_def split: if_splits)

text \<open>The three cases of a round: the last page goes, is cut, or ends at the removal index.\<close>

lemma truncate_loop_cut_page:
  assumes inv: "loop_inv l" and ix: "m_log_indices l = m @ [(k, r)]" and i: "k < i" "i < m_log_size l"
  shows "\<exists>l'. truncate_loop i l = Inr l' \<and> log_readable l' \<and> log_list l' = take (nat i) (log_list l) \<and>
     m_log_size l' = i \<and> loop_frame l l'"
proof -
  note E = loop_invE [OF inv ix]
  let ?p = "page_heap l ! r"
  obtain p' fs' where t: "Page_TruncateSuffix i ?p (disk l) = Inr (p', fs')"
    using Page_TruncateSuffix_Inr [OF E(11), of i] i E(1,5) by auto
  note P = Page_TruncateSuffix_result [OF t]
  define l' where "l' = l\<lparr>m_log_size := m_log_size l - (end_index ?p - i),
    page_heap := (page_heap l)[r := p'], disk := fs'\<rparr>"
  have heap: "page_heap l' ! r = p'" "\<And>y. y \<in> set m \<Longrightarrow> page_heap l' ! snd y = page_heap l ! snd y"
    using E(2,9) by (force simp: l'_def nth_list_update)+
  have "chain (page_heap l') m 0 k"
    by (rule chain_cong [OF _ E(6)]) (use heap chain_refs [OF E(6)] in \<open>auto simp: l'_def\<close>)
  then have "log_readable l'"
    using heap(1) P E(1,2,4,5,7,8) i ix
    by (auto simp: log_readable_def l'_def chain_append sorted_wrt_append)
  moreover have "chain_records (page_heap l') m = chain_records (page_heap l) m"
    by (rule chain_records_cong) (rule heap(2))
  then have "log_list l' = take (nat i) (log_list l)"
    using heap(1) P ix chain_length [OF E(6)] i E(1,3)
    by (simp add: log_list_def log_records_def l'_def take_map nat_diff_distrib)
  moreover have "truncate_loop i l = Inr l'"
    using i E(1,4) ix t by (subst truncate_loop.simps) (simp add: Let_def l'_def omap_rbegin_def)
  moreover have "loop_frame l l'"
    using ix by (auto simp: loop_frame_def l'_def nth_list_update)
  ultimately show ?thesis using E(4) by (auto simp: l'_def)
qed

lemma truncate_loop_take:
  assumes "loop_inv l" and "0 \<le> i" and "i \<le> m_log_size l"
  shows "\<exists>l'. truncate_loop i l = Inr l' \<and> log_readable l' \<and> log_list l' = take (nat i) (log_list l) \<and>
     m_log_size l' = i \<and> loop_frame l l'"
  using assms
proof (induction "length (m_log_indices l)" arbitrary: l rule: less_induct)
  case less
  show ?case
  proof (cases "m_log_indices l" rule: rev_cases)
    case Nil
    with less.prems have "m_log_size l = 0" by (simp add: loop_inv_def log_readable_def)
    with Nil less.prems show ?thesis
      by (subst truncate_loop.simps)
        (simp add: omap_rbegin_def loop_inv_def log_list_def log_records_def loop_frame_def)
  next
    case (snoc m x)
    then obtain k r where ix: "m_log_indices l = m @ [(k, r)]" by (cases x) auto
    let ?p = "page_heap l ! r"
    consider (drop) "i \<le> k" | (cut) "k < i" "i < m_log_size l" | (keep) "k < i" "i = m_log_size l"
      using less.prems(3) by linarith
    then show ?thesis
    proof cases
      case drop
      define l1 where "l1 = l\<lparr>disk := fs_remove (m_dir l @ filename ?p) (disk l),
        m_log_indices := omap_erase (start_index ?p) (m_log_indices l),
        m_log_size := m_log_size l - (end_index ?p - start_index ?p)\<rparr>"
      note D = loop_inv_drop_page [OF less.prems(1) ix l1_def]
      have "length (m_log_indices l1) < length (m_log_indices l)" using D ix by simp
      from less.hyps [OF this] obtain l' where l': "truncate_loop i l1 = Inr l'" "log_readable l'"
        "log_list l' = take (nat i) (log_list l1)" "m_log_size l' = i" "loop_frame l1 l'"
        using D less.prems(2) drop by auto
      have "take (nat i) (log_list l) = take (nat i) (log_list l1)"
        using D drop log_size_records [of l1] by (simp add: log_list_def loop_inv_def)
      with truncate_loop_drop_page [OF less.prems(1) ix drop l1_def] l' D loop_frame_trans show ?thesis by auto
    next
      case cut
      then show ?thesis by (rule truncate_loop_cut_page [OF less.prems(1) ix])
    next
      case keep
      then have "truncate_loop i l = Inr l"
        using loop_invE(1,4) [OF less.prems(1) ix] ix
        by (subst truncate_loop.simps) (simp add: Let_def omap_rbegin_def)
      with keep less.prems(1) show ?thesis
        using log_size_records [of l] by (auto simp: loop_inv_def log_list_def loop_frame_def)
    qed
  qed
qed

subsection \<open>The whole operation\<close>

text \<open>
  A detached log: the open page is empty, has room for a full page and is not registered in
  \<open>m_log_indices\<close>.
\<close>

definition log_detached :: "PersistedLog \<Rightarrow> bool" where
  "log_detached l \<longleftrightarrow>
     (\<exists>r. m_open_page l = Some r \<and> r < length (page_heap l) \<and> r \<notin> snd ` set (m_log_indices l) \<and>
        byte_offset (page_heap l ! r) = 0 \<and> max_file_size (page_heap l ! r) = m_max_file_size l)"

text \<open>
  The state just before the loop: the emptied open page has been closed and a fresh page with the
  same start index has been registered.
\<close>

definition fresh_open_page :: "PersistedLog \<Rightarrow> PersistedLog" where
  "fresh_open_page l =
     (let r = the (m_open_page l); p = page_heap l ! r; s = start_index p; h = length (page_heap l)
      in l\<lparr>page_heap := (page_heap l)[r := p\<lparr>end_index := s, byte_offset := 0, log_entries := [], is_open := False\<rparr>] @
             [\<lparr>is_open = True, byte_offset = 0, start_index = s, end_index = s, page_dir = m_dir l,
               filename = open_name s, log_entries = [], max_file_size = m_max_file_size l\<rparr>],
           disk := fs_touch (m_dir l @ open_name s) (fs_remove (m_dir l @ filename p) (disk l)),
           m_open_page := Some h, m_log_indices := butlast (m_log_indices l) @ [(s, h)], m_log_size := s\<rparr>)"

lemma TruncateSuffix_fresh_open_page:
  assumes inv: "log_inv l" and i: "i \<le> start_index (page_heap l ! the (m_open_page l))" "i < m_log_size l"
  shows "TruncateSuffix i l = truncate_loop i (fresh_open_page l)"
proof -
  from inv obtain m r where op: "m_open_page l = Some r" "is_open (page_heap l ! r)"
    "m_log_indices l = m @ [(start_index (page_heap l ! r), r)]"
    and r: "r < length (page_heap l)" and m: "\<forall>p \<in> set m. fst p < start_index (page_heap l ! r)"
    and e: "end_index (page_heap l ! r) = m_log_size l"
    and ok: "page_ok (m_dir l) (m_max_file_size l) (disk l) (page_heap l ! r)"
    by (rule log_invE)
  let ?h = "page_heap l"
  let ?p = "?h ! r" and ?s = "start_index (?h ! r)"
  define p0 where "p0 = ?p\<lparr>end_index := ?s, byte_offset := 0, log_entries := []\<rparr>"
  define l0 where "l0 = l\<lparr>m_log_indices := omap_erase ?s (m_log_indices l),
    m_log_size := m_log_size l - (end_index ?p - ?s), page_heap := ?h[r := p0]\<rparr>"
  have l0: "m_log_indices l0 = m" "m_log_size l0 = ?s" "page_heap l0 ! r = p0" "m_open_page l0 = Some r"
    using op e m r by (simp_all add: l0_def omap_erase_last order.strict_implies_not_eq)
  have "CreateOpenFile l0 = Inr (fresh_open_page l)"
    using l0 op ok omap_insert_above [OF m, of "length ?h"]
    by (simp add: CreateOpenFile_def Page_Close_def make_page_def Page_new_def LogSize_def Let_def
        p0_def nth_append page_ok_def fresh_open_page_def)
      (simp add: l0_def p0_def)
  then show ?thesis
    using i op by (simp add: TruncateSuffix_def LastLogIndex_def LogSize_def Let_def l0_def p0_def)
qed

lemma fresh_open_page_inv:
  assumes inv: "log_inv l"
  shows "loop_inv (fresh_open_page l)"
    and "log_records (fresh_open_page l) = take (nat (m_log_size (fresh_open_page l))) (log_records l)"
proof -
  from inv obtain m r where op: "m_open_page l = Some r" "is_open (page_heap l ! r)"
    "m_log_indices l = m @ [(start_index (page_heap l ! r), r)]"
    and r: "r < length (page_heap l)" "r \<notin> snd ` set m" "distinct (map snd m)"
    and m: "omap_sorted m" "\<forall>p \<in> set m. fst p < start_index (page_heap l ! r)"
    "chain (page_heap l) m 0 (start_index (page_heap l ! r))"
    and ok: "page_ok (m_dir l) (m_max_file_size l) (disk l) (page_heap l ! r)"
    "\<forall>p \<in> set m. page_ok (m_dir l) (m_max_file_size l) (disk l) (page_heap l ! snd p)"
    by (rule log_invE)
  let ?h = "page_heap l" and ?l1 = "fresh_open_page l"
  let ?p = "?h ! r" and ?s = "start_index (?h ! r)"
  have s0: "0 \<le> ?s" using chain_length [OF m(3)] by simp
  have f: "m_log_indices ?l1 = m @ [(?s, length ?h)]" "m_log_size ?l1 = ?s" "m_dir ?l1 = m_dir l"
    "m_max_file_size ?l1 = m_max_file_size l" "length (page_heap ?l1) = Suc (length ?h)"
    "disk ?l1 = fs_touch (m_dir l @ open_name ?s) (fs_remove (m_dir l @ filename ?p) (disk l))"
    using op by (simp_all add: fresh_open_page_def Let_def)
  have q: "page_heap ?l1 ! length ?h = \<lparr>is_open = True, byte_offset = 0, start_index = ?s, end_index = ?s,
      page_dir = m_dir l, filename = open_name ?s, log_entries = [], max_file_size = m_max_file_size l\<rparr>"
    using op by (simp add: fresh_open_page_def Let_def nth_append)
  have lt: "snd x < length ?h" "r \<noteq> snd x" if "x \<in> set m" for x using chain_refs [OF m(3) that] that r(2) by auto
  have heap: "page_heap ?l1 ! snd x = ?h ! snd x" if "x \<in> set m" for x
    using op lt [OF that] by (simp add: fresh_open_page_def Let_def nth_append)
  have "page_ok (m_dir l) (m_max_file_size l) (disk ?l1) (?h ! snd x)" if x: "x \<in> set m" for x
    unfolding f(6)
    by (rule page_ok_more_files [OF page_ok_remove_other [of _ _ _ _ ?p]])
      (use ok x m(2) s0 chain_refs [OF m(3) x] chain_keys [OF m(3) x] in auto)
  then have "pages_ok ?l1" using heap q by (auto simp: pages_ok_def f) (simp add: page_ok_def)
  moreover have "chain (page_heap ?l1) m 0 ?s"
    by (rule chain_cong [OF _ m(3)]) (use heap lt in \<open>auto simp: f less_SucI\<close>)
  then have "log_readable ?l1"
    using q m by (auto simp: log_readable_def chain_append sorted_wrt_append f)
  ultimately show "loop_inv ?l1" using r(3) lt by (force simp: loop_inv_def f)
  have "chain_records (page_heap ?l1) m = chain_records ?h m" by (rule chain_records_cong) (rule heap)
  then show "log_records ?l1 = take (nat (m_log_size ?l1)) (log_records l)"
    using q op(3) chain_length [OF m(3)] by (simp add: log_records_def f)
qed

lemma TruncateSuffix_closed_setup:
  assumes inv: "log_inv l" and i: "i \<le> start_index (page_heap l ! the (m_open_page l))" "i < m_log_size l"
  obtains l1 m where "TruncateSuffix i l = truncate_loop i l1" and "loop_inv l1"
    and "m_log_indices l1 = m @ [(m_log_size l1, length (page_heap l))]"
    and "m_open_page l1 = Some (length (page_heap l))"
    and "m_log_size l1 = start_index (page_heap l ! the (m_open_page l))"
    and "byte_offset (page_heap l1 ! length (page_heap l)) = 0"
    and "max_file_size (page_heap l1 ! length (page_heap l)) = m_max_file_size l1"
    and "m_max_file_size l1 = m_max_file_size l"
    and "log_records l1 = take (nat (m_log_size l1)) (log_records l)"
  by (rule that [OF TruncateSuffix_fresh_open_page [OF assms] fresh_open_page_inv(1) [OF inv] _ _ _ _ _ _
        fresh_open_page_inv(2) [OF inv]])
    (simp_all add: fresh_open_page_def Let_def nth_append)

lemma TruncateSuffix_closed:
  assumes inv: "log_inv l" and i: "0 \<le> i" "i \<le> start_index (page_heap l ! the (m_open_page l))"
    "i < m_log_size l"
  shows "\<exists>l'. TruncateSuffix i l = Inr l' \<and> log_readable l' \<and> log_list l' = take (nat i) (log_list l) \<and>
     m_log_size l' = i \<and> log_detached l' \<and> m_max_file_size l' = m_max_file_size l"
proof -
  obtain l1 m where t: "TruncateSuffix i l = truncate_loop i l1" and inv1: "loop_inv l1"
    and ix: "m_log_indices l1 = m @ [(m_log_size l1, length (page_heap l))]"
    and op: "m_open_page l1 = Some (length (page_heap l))"
    and s: "m_log_size l1 = start_index (page_heap l ! the (m_open_page l))"
    and p: "byte_offset (page_heap l1 ! length (page_heap l)) = 0"
      "max_file_size (page_heap l1 ! length (page_heap l)) = m_max_file_size l1"
      "m_max_file_size l1 = m_max_file_size l"
    and recs: "log_records l1 = take (nat (m_log_size l1)) (log_records l)"
    by (rule TruncateSuffix_closed_setup [OF inv i(2,3)])
  note E = loop_invE [OF inv1 ix]
  let ?r = "length (page_heap l)"
  define l2 where "l2 = l1\<lparr>disk := fs_remove (m_dir l1 @ filename (page_heap l1 ! ?r)) (disk l1),
    m_log_indices := omap_erase (start_index (page_heap l1 ! ?r)) (m_log_indices l1),
    m_log_size := m_log_size l1 - (end_index (page_heap l1 ! ?r) - start_index (page_heap l1 ! ?r))\<rparr>"
  note D = loop_inv_drop_page [OF inv1 ix l2_def]
  have "truncate_loop i l1 = truncate_loop i l2"
    using i(2) s by (intro truncate_loop_drop_page [OF inv1 ix _ l2_def]) simp
  moreover obtain l' where l': "truncate_loop i l2 = Inr l'" "log_readable l'"
    "log_list l' = take (nat i) (log_list l2)" "m_log_size l' = i" "loop_frame l2 l'"
    using truncate_loop_take [of l2 i] D i s by auto
  moreover have "log_entries (page_heap l1 ! ?r) = []" using E(5) by simp
  then have "log_records l2 = take (nat (m_log_size l1)) (log_records l)" using D recs by simp
  then have "log_list l2 = take (nat (m_log_size l1)) (log_list l)" by (simp add: log_list_def take_map)
  moreover have "page_heap l2 = page_heap l1" "m_open_page l2 = m_open_page l1"
    "m_max_file_size l2 = m_max_file_size l1" by (simp_all add: l2_def)
  moreover have "log_detached l'"
    using l'(5) D E(2,9) op p calculation(6-8) by (auto simp: log_detached_def loop_frame_def)
  ultimately show ?thesis
    using t i(2) s p(3) l'(5) by (auto simp: loop_frame_def min_def)
qed

lemma detached_append_unreadable:
  assumes read: "log_readable l" and det: "log_detached l" and fits: "entry_fits pb l e"
    and sizes: "m_max_file_size l < 2 ^ 31"
  shows "\<exists>l'. Append_entry pb e l = Inr (LogSize l, l') \<and> LogSize l' = LogSize l + 1 \<and>
     Entry l' (LogSize l) = Inl Undefined_behaviour"
proof -
  obtain r where r: "m_open_page l = Some r" "r < length (page_heap l)"
    "r \<notin> snd ` set (m_log_indices l)" "byte_offset (page_heap l ! r) = 0"
    "max_file_size (page_heap l ! r) = m_max_file_size l"
    using det by (auto simp: log_detached_def)
  define l1 where "l1 = l\<lparr>disk := fs_touch (m_dir l @ filename (page_heap l ! r)) (disk l)\<rparr>"
  obtain p fs' where w: "WriteLogEntry pb e (page_heap l ! r) (disk l1) = Some (p, fs')"
    using WriteLogEntry_Some fits by (auto simp: entry_fits_def) blast
  define l' where "l' = l1\<lparr>page_heap := (page_heap l)[r := p], disk := fs', m_log_size := m_log_size l + 1\<rparr>"
  have "\<not> int (ByteSizeLong (entry_codec pb) e) > size_t_of_int (RemainingSpace (page_heap l ! r))"
    using fits r sizes by (auto simp: entry_fits_def RemainingSpace_def)
  then have app: "Append_entry pb e l = Inr (LogSize l, l')"
    using r(1) w
    by (simp add: Append_entry_def PersistLogEntries_def open_log_stream_def persist_entry_def
        Let_def l1_def l'_def)
  have size: "m_log_size l = int (length (log_records l))" by (rule log_size_records [OF read])
  have "Entry l' (LogSize l) = Inl Undefined_behaviour"
  proof (cases "m_log_indices l" rule: rev_cases)
    case Nil
    then show ?thesis
      using size by (simp add: Entry_def LastLogIndex_def LogSize_def l'_def l1_def
          page_containing_def omap_upper_prev_def)
  next
    case (snoc m x)
    obtain k r2 where x: "x = (k, r2)" by (cases x)
    have ch: "chain (page_heap l) m 0 k" "start_index (page_heap l ! r2) = k"
      "m_log_size l = k + int (length (log_entries (page_heap l ! r2)))" "\<forall>y \<in> set m. fst y < k"
      using read snoc x by (auto simp: log_readable_def chain_append sorted_wrt_append)
    have "omap_upper_prev (m_log_size l) (m_log_indices l) = Some (k, r2)"
      using omap_upper_prev_split [of m "m_log_size l" k "[]" r2] ch snoc x by fastforce
    moreover have "page_heap l' ! r2 = page_heap l ! r2"
      using r(3) snoc x by (auto simp: l'_def nth_list_update)
    ultimately show ?thesis
      using ch size by (simp add: Entry_def LastLogIndex_def LogSize_def page_containing_def)
        (simp add: l'_def l1_def)
  qed
  with app show ?thesis by (simp add: LogSize_def l'_def)
qed

end
