(* ===== verification/Persisted_Metadata.thy ===== *)
theory Persisted_Metadata
  imports Persisted_Log_Truncate
begin

section \<open>Durability of the raft metadata\<close>

text \<open>
  Term and vote are written alternately to the files \<open>metadata1\<close> and \<open>metadata2\<close>; a
  restart reads both and keeps the higher version. The frame lemmas show that no operation on
  log entries touches these files or the metadata in memory, so \<open>metadata_synced\<close> is kept
  by every operation of the log and a restart brings back the last metadata that was set.
\<close>

subsection \<open>Log operations leave the metadata alone\<close>

definition is_log_name :: "string \<Rightarrow> bool" where
  "is_log_name f \<longleftrightarrow> (\<exists>s. f = open_name s) \<or> (\<exists>p. f = ClosedFilename p)"

abbreviation metadata_names :: "string set" where
  "metadata_names \<equiv> {''metadata1'', ''metadata2''}"

definition names_ok :: "PersistedLog \<Rightarrow> bool" where
  "names_ok l \<longleftrightarrow>
     (\<forall>p \<in> set (page_heap l). page_dir p = m_dir l \<and> is_log_name (filename p)) \<and>
     (\<forall>r. m_open_page l = Some r \<longrightarrow> r < length (page_heap l)) \<and>
     (\<forall>x \<in> set (m_log_indices l). snd x < length (page_heap l))"

definition log_frame :: "PersistedLog \<Rightarrow> PersistedLog \<Rightarrow> bool" where
  "log_frame l l' \<longleftrightarrow>
     names_ok l' \<and> m_dir l' = m_dir l \<and> m_metadata l' = m_metadata l \<and>
     (\<forall>f \<in> metadata_names. fs_read (disk l') (m_dir l @ f) = fs_read (disk l) (m_dir l @ f))"

lemma ClosedFilename_not_metadata: "f \<in> metadata_names \<Longrightarrow> ClosedFilename p \<noteq> f"
proof
  assume f: "f \<in> metadata_names" and "ClosedFilename p = f"
  then have "hd (pad20 (nat (start_index p))) = CHR ''m''"
    by (cases "pad20 (nat (start_index p))") (auto simp: ClosedFilename_def)
  moreover have "is_digit (hd (pad20 (nat (start_index p))))"
    by (rule pad20_digits [OF hd_in_set]) simp
  ultimately show False by simp
qed

lemma log_name_not_metadata: "is_log_name g \<Longrightarrow> f \<in> metadata_names \<Longrightarrow> g \<noteq> f"
  by (auto simp: is_log_name_def open_name_def ClosedFilename_not_metadata)

lemma is_log_name_simps [simp]: "is_log_name (open_name s)" "is_log_name (ClosedFilename p)"
  by (auto simp: is_log_name_def)

lemma log_frame_refl: "names_ok l \<Longrightarrow> log_frame l l"
  by (simp add: log_frame_def)

lemma log_frame_trans: "log_frame l l1 \<Longrightarrow> log_frame l1 l2 \<Longrightarrow> log_frame l l2"
  by (simp add: log_frame_def)

lemma log_frame_names: "log_frame l l' \<Longrightarrow> names_ok l'"
  by (simp add: log_frame_def)

text \<open>File operations on a page's file.\<close>

lemma fs_rename_other:
  "fs_rename a b fs = Inr fs' \<Longrightarrow> q \<noteq> a \<Longrightarrow> q \<noteq> b \<Longrightarrow> fs_read fs' q = fs_read fs q"
  by (auto simp: fs_rename_def split: option.splits if_splits)

lemma fs_resize_other: "fs_resize a n fs = Inr fs' \<Longrightarrow> q \<noteq> a \<Longrightarrow> fs_read fs' q = fs_read fs q"
  by (auto simp: fs_resize_def split: option.splits if_splits)

lemma Page_Close_frame:
  assumes "Page_Close p fs = Inr (p', fs')" and "is_log_name (filename p)" and "f \<in> metadata_names"
  shows "page_dir p' = page_dir p \<and> is_log_name (filename p') \<and>
     fs_read fs' (page_dir p @ f) = fs_read fs (page_dir p @ f)"
proof -
  have ne: "f \<noteq> filename p" "\<And>q. f \<noteq> ClosedFilename q"
    using log_name_not_metadata [OF assms(2,3)] ClosedFilename_not_metadata [OF assms(3)] by metis+
  show ?thesis
    using assms ne by (auto simp: Page_Close_def Let_def fs_rename_other split: if_splits)
qed

lemma Page_TruncateSuffix_frame:
  assumes "Page_TruncateSuffix i p fs = Inr (p', fs')" and "is_log_name (filename p)" and "f \<in> metadata_names"
  shows "page_dir p' = page_dir p \<and> is_log_name (filename p') \<and>
     fs_read fs' (page_dir p @ f) = fs_read fs (page_dir p @ f)"
proof -
  have ne: "f \<noteq> filename p" "\<And>q. f \<noteq> ClosedFilename q"
    using log_name_not_metadata [OF assms(2,3)] ClosedFilename_not_metadata [OF assms(3)] by metis+
  show ?thesis
    using assms ne
    by (auto simp: Page_TruncateSuffix_def Let_def fs_resize_other fs_rename_other split: if_splits)
qed

lemma WriteLogEntry_frame:
  assumes "WriteLogEntry pb e p fs = Some (p', fs')" and "is_log_name (filename p)" and "f \<in> metadata_names"
  shows "page_dir p' = page_dir p \<and> is_log_name (filename p') \<and>
     fs_read fs' (page_dir p @ f) = fs_read fs (page_dir p @ f)"
  using assms log_name_not_metadata [OF assms(2,3)]
  by (auto simp: WriteLogEntry_def split: option.splits)

text \<open>Replacing one page of the heap, and allocating one.\<close>

lemma names_ok_page: "names_ok l \<Longrightarrow> r < length (page_heap l) \<Longrightarrow>
    page_dir (page_heap l ! r) = m_dir l \<and> is_log_name (filename (page_heap l ! r))"
  by (simp add: names_ok_def)

lemma log_frame_update_page:
  assumes "names_ok l" and "r < length (page_heap l)" and "page_dir p = m_dir l" and "is_log_name (filename p)"
    and "\<And>f. f \<in> metadata_names \<Longrightarrow> fs_read fs' (m_dir l @ f) = fs_read (disk l) (m_dir l @ f)"
    and "m_dir l' = m_dir l" and "m_metadata l' = m_metadata l" and "page_heap l' = (page_heap l)[r := p]"
    and "disk l' = fs'" and "m_open_page l' = m_open_page l" and "set (m_log_indices l') \<subseteq> set (m_log_indices l)"
  shows "log_frame l l'"
  using assms set_update_subset_insert [of "page_heap l" r p]
  by (auto simp: log_frame_def names_ok_def)

lemma alloc_page_frame:
  assumes "names_ok l" and "page_heap l' = page_heap l @ [p]"
    and "page_dir p = m_dir l" and "is_log_name (filename p)"
    and "disk l' = fs_touch (m_dir l @ open_name start) (disk l)"
    and "set (m_log_indices l') \<subseteq> insert (k, length (page_heap l)) (set (m_log_indices l))"
    and "m_open_page l' \<in> {Some (length (page_heap l)), m_open_page l}"
    and "m_dir l' = m_dir l" and "m_metadata l' = m_metadata l"
  shows "log_frame l l'"
proof -
  have "m_dir l @ f \<noteq> m_dir l @ open_name start" if "f \<in> metadata_names" for f
    using that by (auto simp: open_name_def)
  with assms show ?thesis by (auto simp: log_frame_def names_ok_def less_Suc_eq)
qed

lemma CreateOpenFile_frame:
  assumes ok: "names_ok l" and res: "CreateOpenFile l = Inr l'"
  shows "log_frame l l'"
proof -
  obtain r p fs' where r: "m_open_page l = Some r" and cl: "Page_Close (page_heap l ! r) (disk l) = Inr (p, fs')"
    using res by (auto simp: CreateOpenFile_def split: option.splits)
  have lt: "r < length (page_heap l)" using ok r by (simp add: names_ok_def)
  note pg = names_ok_page [OF ok lt]
  let ?l1 = "l\<lparr>page_heap := (page_heap l)[r := p], disk := fs'\<rparr>"
  have f1: "log_frame l ?l1"
    by (rule log_frame_update_page [OF ok lt]) (use pg Page_Close_frame [OF cl] in auto)
  have "log_frame ?l1 l'"
    by (rule alloc_page_frame [OF log_frame_names [OF f1], where start = "m_log_size l" and k = "m_log_size l"])
      (use res r cl set_omap_insert_subset [of "m_log_size l" "length (page_heap l)" "m_log_indices l"] in
        \<open>auto simp: CreateOpenFile_def make_page_def Page_new_def LogSize_def Let_def nth_append\<close>)
  with f1 show ?thesis by (rule log_frame_trans)
qed

lemma log_frame_touch:
  assumes "names_ok l" and "m_open_page l = Some r"
  shows "log_frame l (l\<lparr>disk := fs_touch (m_dir l @ filename (page_heap l ! r)) (disk l)\<rparr>)"
proof -
  have lt: "r < length (page_heap l)" using assms by (simp add: names_ok_def)
  have "f \<noteq> filename (page_heap l ! r)" if "f \<in> metadata_names" for f
    using that names_ok_page [OF assms(1) lt] log_name_not_metadata by metis
  with assms(1) show ?thesis by (auto simp: log_frame_def names_ok_def)
qed

lemma open_log_stream_frame:
  "names_ok l \<Longrightarrow> open_log_stream l = Inr l' \<Longrightarrow> log_frame l l'"
  using log_frame_touch by (auto simp: open_log_stream_def split: option.splits)

lemma persist_entry_frame:
  assumes ok: "names_ok l" and res: "persist_entry pb e l = Inr l'"
  shows "log_frame l l'"
proof -
  obtain r0 where r0: "m_open_page l = Some r0"
    using res by (auto simp: persist_entry_def split: option.splits)
  obtain l1 where
    l1: "(if int (ByteSizeLong (entry_codec pb) e) > size_t_of_int (RemainingSpace (page_heap l ! r0))
          then rbind (CreateOpenFile l) open_log_stream else Inr l) = Inr l1"
    and rest: "(case m_open_page l1 of None \<Rightarrow> Inl Undefined_behaviour
      | Some r \<Rightarrow> (case WriteLogEntry pb e (page_heap l1 ! r) (disk l1) of None \<Rightarrow> Inl Runtime_error
         | Some (p, fs') \<Rightarrow> Inr (l1\<lparr>page_heap := (page_heap l1)[r := p], disk := fs',
             m_log_size := m_log_size l1 + 1\<rparr>))) = Inr l'"
    using res unfolding persist_entry_def r0 option.case rbind_Inr_iff by blast
  obtain r p fs' where r: "m_open_page l1 = Some r"
    and w: "WriteLogEntry pb e (page_heap l1 ! r) (disk l1) = Some (p, fs')"
    and l': "l' = l1\<lparr>page_heap := (page_heap l1)[r := p], disk := fs', m_log_size := m_log_size l1 + 1\<rparr>"
    using rest by (auto split: option.splits)
  have f1: "log_frame l l1"
  proof (cases "l1 = l")
    case False
    with l1 obtain l2 where l2: "CreateOpenFile l = Inr l2" "open_log_stream l2 = Inr l1"
      by (auto split: if_splits)
    note f = CreateOpenFile_frame [OF ok l2(1)]
    from f open_log_stream_frame [OF log_frame_names [OF f] l2(2)] show ?thesis
      by (rule log_frame_trans)
  qed (simp add: log_frame_refl [OF ok])
  then have ok1: "names_ok l1" by (rule log_frame_names)
  have lt: "r < length (page_heap l1)" using ok1 r by (simp add: names_ok_def)
  have "log_frame l1 l'"
    by (rule log_frame_update_page [OF ok1 lt])
      (use names_ok_page [OF ok1 lt] WriteLogEntry_frame [OF w] l' in auto)
  with f1 show ?thesis by (rule log_frame_trans)
qed

lemma persist_loop_frame: "names_ok l \<Longrightarrow> persist_loop pb es l = Inr l' \<Longrightarrow> log_frame l l'"
proof (induction es arbitrary: l)
  case (Cons e es)
  then show ?case
    by (auto dest: persist_entry_frame log_frame_names intro: log_frame_trans)
qed (simp add: log_frame_refl)

lemma PersistLogEntries_frame:
  "names_ok l \<Longrightarrow> PersistLogEntries pb es l = Inr l' \<Longrightarrow> log_frame l l'"
  unfolding PersistLogEntries_def
  by (auto dest: open_log_stream_frame persist_loop_frame log_frame_names intro: log_frame_trans)

lemma Append_frame: "names_ok l \<Longrightarrow> Append pb es l = Inr (ix, l') \<Longrightarrow> log_frame l l'"
  by (auto simp: Append_def Let_def dest: PersistLogEntries_frame)

lemma Append_entry_frame: "names_ok l \<Longrightarrow> Append_entry pb e l = Inr (ix, l') \<Longrightarrow> log_frame l l'"
  by (auto simp: Append_entry_def Let_def dest: PersistLogEntries_frame)

lemma log_frame_truncate_page:
  assumes ok: "names_ok l" and r: "r < length (page_heap l)"
    and t: "Page_TruncateSuffix i (page_heap l ! r) (disk l) = Inr (p, fs')"
  shows "log_frame l (l\<lparr>m_log_size := n, page_heap := (page_heap l)[r := p], disk := fs'\<rparr>)"
  by (rule log_frame_update_page [OF ok r])
    (use names_ok_page [OF ok r] Page_TruncateSuffix_frame [OF t] in auto)

lemma log_frame_drop_page:
  assumes ok: "names_ok l" and r: "r < length (page_heap l)"
  shows "log_frame l (l\<lparr>disk := fs_remove (m_dir l @ filename (page_heap l ! r)) (disk l),
     m_log_indices := omap_erase k (m_log_indices l), m_log_size := n\<rparr>)"
proof -
  have "f \<noteq> filename (page_heap l ! r)" if "f \<in> metadata_names" for f
    using that names_ok_page [OF ok r] log_name_not_metadata by metis
  with ok show ?thesis by (auto simp: log_frame_def names_ok_def omap_erase_def)
qed

lemma truncate_loop_frame: "names_ok l \<Longrightarrow> truncate_loop i l = Inr l' \<Longrightarrow> log_frame l l'"
proof (induction i l rule: truncate_loop.induct)
  case (1 i l)
  show ?case
  proof (cases "omap_rbegin (m_log_indices l)")
    case None
    with 1 show ?thesis by (subst (asm) truncate_loop.simps) (simp add: log_frame_refl)
  next
    case (Some x)
    obtain k r where x: "x = (k, r)" by (cases x)
    with Some have rb: "omap_rbegin (m_log_indices l) = Some (k, r)" by simp
    then have "(k, r) \<in> set (m_log_indices l)"
      by (metis last_in_set omap_rbegin_def option.distinct(1) option.inject)
    with 1(2) have lt: "r < length (page_heap l)" by (force simp: names_ok_def)
    let ?p = "page_heap l ! r"
    let ?l1 = "l\<lparr>disk := fs_remove (m_dir l @ filename ?p) (disk l),
      m_log_indices := omap_erase (start_index ?p) (m_log_indices l),
      m_log_size := m_log_size l - (end_index ?p - start_index ?p)\<rparr>"
    note drop = log_frame_drop_page [OF 1(2) lt]
    show ?thesis
    proof (cases "start_index ?p \<ge> i")
      case True
      have short: "length (m_log_indices ?l1) < length (m_log_indices l)"
        and rec: "truncate_loop i ?l1 = Inr l'"
        using 1(3) rb True by (subst (asm) truncate_loop.simps; simp add: Let_def split: if_splits)+
      have "log_frame ?l1 l'"
        by (rule 1(1) [OF rb refl refl True refl short log_frame_names [OF drop] rec])
      with drop show ?thesis by (rule log_frame_trans)
    next
      case False
      then show ?thesis
        using 1(2,3) rb lt
        by (subst (asm) truncate_loop.simps)
          (auto simp: Let_def log_frame_refl split: if_splits intro: log_frame_truncate_page)
    qed
  qed
qed

lemma TruncateSuffix_frame:
  assumes ok: "names_ok l" and res: "TruncateSuffix i l = Inr l'"
  shows "log_frame l l'"
proof (cases "i > LastLogIndex l")
  case True
  with ok res show ?thesis by (simp add: TruncateSuffix_def log_frame_refl)
next
  case False
  with res obtain r where r: "m_open_page l = Some r"
    by (auto simp: TruncateSuffix_def split: option.splits)
  have lt: "r < length (page_heap l)" using ok r by (simp add: names_ok_def)
  let ?p = "page_heap l ! r"
  show ?thesis
  proof (cases "i > start_index ?p")
    case True
    with False res r obtain p fs' where t: "Page_TruncateSuffix i ?p (disk l) = Inr (p, fs')"
      and c: "CreateOpenFile (l\<lparr>m_log_size := m_log_size l - (end_index ?p - i),
        page_heap := (page_heap l)[r := p], disk := fs'\<rparr>) = Inr l'"
      by (auto simp: TruncateSuffix_def Let_def)
    note f1 = log_frame_truncate_page [OF ok lt t]
    from f1 CreateOpenFile_frame [OF log_frame_names [OF f1] c] show ?thesis by (rule log_frame_trans)
  next
    case below: False
    let ?l1 = "l\<lparr>m_log_indices := omap_erase (start_index ?p) (m_log_indices l),
      m_log_size := m_log_size l - (end_index ?p - start_index ?p),
      page_heap := (page_heap l)[r := ?p\<lparr>end_index := start_index ?p, byte_offset := 0, log_entries := []\<rparr>]\<rparr>"
    obtain l2 where c: "CreateOpenFile ?l1 = Inr l2" and t: "truncate_loop i l2 = Inr l'"
      using below False res r by (auto simp: TruncateSuffix_def Let_def)
    have f1: "log_frame l ?l1"
      by (rule log_frame_update_page [OF ok lt])
        (use names_ok_page [OF ok lt] in \<open>auto simp: omap_erase_def\<close>)
    note f2 = CreateOpenFile_frame [OF log_frame_names [OF f1] c]
    from truncate_loop_frame [OF log_frame_names [OF f2] t] f1 f2 show ?thesis
      by (blast intro: log_frame_trans)
  qed
qed

subsection \<open>The two metadata files\<close>

definition read_metadata :: "protobuf \<Rightarrow> PersistedLog \<Rightarrow> string \<Rightarrow> LogMetadata option" where
  "read_metadata pb l path =
     (case fs_read (disk l) path of
        None \<Rightarrow> None
      | Some bs \<Rightarrow> map_option fst (ParseDelimited (metadata_codec pb) default_metadata bs))"

text \<open>
  What is on disk for the metadata in memory, at version \<open>v\<close>: nothing at version zero, else
  the file of \<open>v\<close> holds it and the other file is missing (at version one) or holds version
  \<open>v - 1\<close>.
\<close>

definition metadata_synced :: "protobuf \<Rightarrow> PersistedLog \<Rightarrow> bool" where
  "metadata_synced pb l \<longleftrightarrow>
     (let v = md_version (m_metadata l) in
      0 \<le> v \<and>
      (if v = 0
       then m_metadata l = default_metadata \<and>
            (\<forall>f \<in> metadata_names. fs_read (disk l) (m_dir l @ f) = None)
       else read_metadata pb l (metadata_path l v) = Some (m_metadata l) \<and>
            (if v = 1 then fs_read (disk l) (metadata_path l (v - 1)) = None
             else \<exists>old. read_metadata pb l (metadata_path l (v - 1)) = Some old \<and>
                    md_version old = v - 1)))"

lemma metadata_path_alt: "metadata_path l v = m_dir l @ (if even v then ''metadata1'' else ''metadata2'')"
  by (simp add: metadata_path_def even_iff_mod_2_eq_zero)

lemma metadata_path_cases: "metadata_path l v \<in> (\<lambda>f. m_dir l @ f) ` metadata_names"
  by (simp add: metadata_path_alt)

lemma metadata_path_next: "metadata_path l (v + 1) \<noteq> metadata_path l v"
  by (simp add: metadata_path_alt)

lemma metadata_path_other: "metadata_path l (v + 1 - 1) = metadata_path l v"
  by simp

lemma log_frame_synced:
  assumes "log_frame l l'" and "metadata_synced pb l"
  shows "metadata_synced pb l'"
proof -
  have "read_metadata pb l' (metadata_path l' v) = read_metadata pb l (metadata_path l v)"
    and "fs_read (disk l') (metadata_path l' v) = fs_read (disk l) (metadata_path l v)" for v
    using assms(1) by (simp_all add: log_frame_def read_metadata_def metadata_path_alt)
  with assms show ?thesis by (auto simp: metadata_synced_def log_frame_def Let_def)
qed

lemma SetMetadata_Inr:
  assumes "SetMetadata pb md l = Inr l'"
  shows "m_metadata l' = md\<lparr>md_version := md_version (m_metadata l) + 1\<rparr>"
    and "\<exists>bs. SerializeDelimited (metadata_codec pb) (m_metadata l') = Some bs \<and>
       l' = l\<lparr>m_metadata := m_metadata l',
              disk := fs_write (metadata_path l (md_version (m_metadata l) + 1)) bs (disk l)\<rparr>"
  using assms
  by (auto simp: SetMetadata_def PersistMetadata_def metadata_path_def Let_def split: option.splits)

lemma SetMetadata_names: "names_ok l \<Longrightarrow> SetMetadata pb md l = Inr l' \<Longrightarrow> names_ok l'"
  by (fastforce simp: SetMetadata_def PersistMetadata_def Let_def names_ok_def split: option.splits)

lemma SetMetadata_synced:
  assumes codec: "codec_ok default_metadata (metadata_codec pb)"
    and sync: "metadata_synced pb l" and set: "SetMetadata pb md l = Inr l'"
  shows "metadata_synced pb l'"
proof -
  let ?v = "md_version (m_metadata l)"
  obtain bs where ser: "SerializeDelimited (metadata_codec pb) (m_metadata l') = Some bs"
    and l': "l' = l\<lparr>m_metadata := m_metadata l', disk := fs_write (metadata_path l (?v + 1)) bs (disk l)\<rparr>"
    using SetMetadata_Inr(2) [OF set] by blast
  have v': "md_version (m_metadata l') = ?v + 1" using SetMetadata_Inr(1) [OF set] by simp
  have d: "disk l' = fs_write (metadata_path l (?v + 1)) bs (disk l)" "m_dir l' = m_dir l"
    by (subst l', simp)+
  have path: "metadata_path l' w = metadata_path l w" for w
    using d(2) by (simp add: metadata_path_def)
  have new: "read_metadata pb l' (metadata_path l' (?v + 1)) = Some (m_metadata l')"
    using codec_parse_all [OF codec ser] by (simp add: read_metadata_def d path)
  have old: "read_metadata pb l' (metadata_path l' ?v) = read_metadata pb l (metadata_path l ?v)"
    "fs_read (disk l') (metadata_path l' ?v) = fs_read (disk l) (metadata_path l ?v)"
    using metadata_path_next [of l ?v] by (simp_all add: read_metadata_def d path)
  have "0 \<le> ?v" using sync by (simp add: metadata_synced_def Let_def)
  show ?thesis
  proof (cases "?v = 0")
    case True
    then show ?thesis
      using sync new old(2) v' by (simp add: metadata_synced_def Let_def metadata_path_alt)
  next
    case False
    then show ?thesis
      using sync new old(1) v' \<open>0 \<le> ?v\<close> by (auto simp: metadata_synced_def Let_def)
  qed
qed

subsection \<open>Restarting\<close>

lemma load_entries_returns:
  assumes "codec_ok d (entry_codec pb)"
  shows "\<exists>rs. load_entries pb t bs n acc = Inr rs"
proof (induction "length bs" arbitrary: t bs n acc rule: less_induct)
  case less
  show ?case
  proof (cases "ParseDelimited (entry_codec pb) t bs")
    case None
    then show ?thesis by (subst load_entries.simps) simp
  next
    case (Some x)
    obtain e k where x: "x = (e, k)" by (cases x)
    have k: "0 < k" "k \<le> length bs" using codec_progress [OF assms] Some x by auto
    then have short: "length (drop k bs) < length bs" by simp
    with less.hyps [OF short] Some x k show ?thesis
      by (subst load_entries.simps) (simp add: Let_def)
  qed
qed

lemma restore_log_file_frame:
  assumes ok: "names_ok l" and f: "f \<notin> metadata_names" and res: "restore_file pb f l = Inr l'"
  shows "log_frame l l'"
proof -
  obtain es where es: "LoadLogEntries pb (m_dir l @ f) l = Inr es"
    using res f by (auto simp: restore_file_def Let_def)
  have ins: "set (omap_insert s r (m_log_indices l)) \<subseteq> insert (s, r) (set (m_log_indices l))" for s r
    by (rule set_omap_insert_subset)
  show ?thesis
  proof (cases "IsFileOpen f")
    case True
    show ?thesis
      by (rule alloc_page_frame [OF ok, where start = "m_log_size l" and k = "m_log_size l"])
        (use res f es True ins [of "m_log_size l" "length (page_heap l)"] in
          \<open>auto simp: restore_file_def make_page_def Page_new_def LogSize_def Let_def nth_append\<close>)
  next
    case False
    then obtain start where st: "stoi (str_prefix (str_find (CHR ''-'') f) f) = Inr start"
      using res f es by (auto simp: restore_file_def Let_def)
    show ?thesis
      by (rule alloc_page_frame [OF ok, where start = start and k = start])
        (use res f es False st ins [of start "length (page_heap l)"] in
          \<open>auto simp: restore_file_def make_page_def Page_new_def LogSize_def Let_def nth_append\<close>)
  qed
qed

text \<open>
  Reading the files in any order ends with the newest metadata \<open>M\<close>: every metadata file
  that is read holds \<open>M\<close> or an older version.
\<close>

definition newest_on_disk :: "protobuf \<Rightarrow> PersistedLog \<Rightarrow> LogMetadata \<Rightarrow> bool" where
  "newest_on_disk pb l M \<longleftrightarrow>
     (\<forall>f \<in> metadata_names. fs_read (disk l) (m_dir l @ f) \<noteq> None \<longrightarrow>
        (\<exists>m. read_metadata pb l (m_dir l @ f) = Some m \<and> (m = M \<or> md_version m < md_version M)))"

lemma newest_on_disk_frame:
  "log_frame l l' \<Longrightarrow> newest_on_disk pb l M \<Longrightarrow> newest_on_disk pb l' M"
  by (simp add: newest_on_disk_def log_frame_def read_metadata_def)

lemma LoadMetadata_newest:
  assumes "newest_on_disk pb l M" and "f \<in> metadata_names" and "fs_read (disk l) (m_dir l @ f) \<noteq> None"
    and "m_metadata l = M \<or> md_version (m_metadata l) < md_version M"
  shows "\<exists>l'. LoadMetadata pb (m_dir l @ f) l = Inr l' \<and> disk l' = disk l \<and> m_dir l' = m_dir l \<and>
     (names_ok l \<longrightarrow> names_ok l') \<and>
     (m_metadata l' = M \<or> md_version (m_metadata l') < md_version M) \<and>
     (m_metadata l = M \<or> read_metadata pb l (m_dir l @ f) = Some M \<longrightarrow> m_metadata l' = M)"
proof -
  obtain bs m n where bs: "fs_read (disk l) (m_dir l @ f) = Some bs"
    "ParseDelimited (metadata_codec pb) default_metadata bs = Some (m, n)"
    and m: "m = M \<or> md_version m < md_version M" and rd: "read_metadata pb l (m_dir l @ f) = Some m"
    using assms(1-3) by (fastforce simp: newest_on_disk_def read_metadata_def split: option.splits)
  show ?thesis
    using bs m rd assms(4) by (auto simp: LoadMetadata_def Let_def names_ok_def)
qed

text \<open>The files of the directory that a restart can digest.\<close>

definition dir_ok :: "string \<Rightarrow> file_system \<Rightarrow> bool" where
  "dir_ok d fs \<longleftrightarrow>
     (\<forall>f \<in> set (ListDirectoryContents d fs).
        f \<in> metadata_names \<or> IsFileOpen f \<or>
        (\<exists>p. f = ClosedFilename p \<and> 0 \<le> start_index p \<and> start_index p < 2 ^ 31))"

lemma restore_log_file_returns:
  assumes "codec_ok default_entry (entry_codec pb)" and "f \<notin> metadata_names"
    and "IsFileOpen f \<or> (\<exists>p. f = ClosedFilename p \<and> 0 \<le> start_index p \<and> start_index p < 2 ^ 31)"
  shows "\<exists>l'. restore_file pb f l = Inr l'"
proof -
  obtain es where es: "LoadLogEntries pb (m_dir l @ f) l = Inr es"
    using load_entries_returns [OF assms(1)] unfolding LoadLogEntries_def by blast
  show ?thesis
  proof (cases "IsFileOpen f")
    case True
    with es assms(2) show ?thesis
      by (auto simp: restore_file_def make_page_def Page_new_def Let_def)
  next
    case False
    with assms(3) obtain p where p: "f = ClosedFilename p" "0 \<le> start_index p" "start_index p < 2 ^ 31"
      by auto
    have "stoi (pad20 (nat (start_index p))) = Inr (start_index p)"
      using stoi_digits [of "pad20 (nat (start_index p))"] p pad20_digits
      by (simp add: pad20_value in_int_def)
    with es assms(2) False p(1) show ?thesis
      by (auto simp: restore_file_def make_page_def Page_new_def Let_def ClosedFilename_prefix)
  qed
qed

lemma restore_files_newest:
  assumes "names_ok l" and "newest_on_disk pb l M"
    and "m_metadata l = M \<or> md_version (m_metadata l) < md_version M"
    and "\<forall>f \<in> set fs \<inter> metadata_names. fs_read (disk l) (m_dir l @ f) \<noteq> None"
    and "restore_files pb fs l = Inr l'"
  shows "log_frame (l\<lparr>m_metadata := m_metadata l'\<rparr>) l' \<and>
     (m_metadata l = M \<or> (\<exists>f \<in> set fs \<inter> metadata_names. read_metadata pb l (m_dir l @ f) = Some M) \<longrightarrow>
        m_metadata l' = M) \<and>
     (set fs \<inter> metadata_names = {} \<longrightarrow> m_metadata l' = m_metadata l)"
  using assms
proof (induction fs arbitrary: l)
  case (Cons f fs)
  obtain l1 where r: "restore_file pb f l = Inr l1" "restore_files pb fs l1 = Inr l'"
    using Cons.prems(5) by auto
  show ?case
  proof (cases "f \<in> metadata_names")
    case True
    with Cons.prems(4) have ex: "fs_read (disk l) (m_dir l @ f) \<noteq> None" by auto
    from LoadMetadata_newest [OF Cons.prems(2) True ex Cons.prems(3)] Cons.prems(1) r(1) True
    have l1: "disk l1 = disk l" "m_dir l1 = m_dir l"
      "names_ok l1" "m_metadata l1 = M \<or> md_version (m_metadata l1) < md_version M"
      "m_metadata l = M \<or> read_metadata pb l (m_dir l @ f) = Some M \<longrightarrow> m_metadata l1 = M"
      by (auto simp: restore_file_def Let_def)
    have same: "newest_on_disk pb l1 M" "\<And>q. read_metadata pb l1 q = read_metadata pb l q"
      using Cons.prems(2) l1(1,2) by (simp_all add: newest_on_disk_def read_metadata_def)
    have "\<forall>f \<in> set fs \<inter> metadata_names. fs_read (disk l1) (m_dir l1 @ f) \<noteq> None"
      using Cons.prems(4) l1(1,2) by auto
    from Cons.IH [OF l1(3) same(1) l1(4) this r(2)] l1 same(2) True show ?thesis
      by (auto simp: log_frame_def)
  next
    case False
    note fr = restore_log_file_frame [OF Cons.prems(1) False r(1)]
    have l1: "m_dir l1 = m_dir l" "m_metadata l1 = m_metadata l"
      "\<forall>f \<in> metadata_names. fs_read (disk l1) (m_dir l @ f) = fs_read (disk l) (m_dir l @ f)"
      using fr by (auto simp: log_frame_def)
    have rd: "\<forall>g \<in> metadata_names. read_metadata pb l1 (m_dir l @ g) = read_metadata pb l (m_dir l @ g)"
      using l1(3) by (auto simp: read_metadata_def)
    have older: "m_metadata l1 = M \<or> md_version (m_metadata l1) < md_version M"
      using Cons.prems(3) l1(2) by simp
    have int: "set (f # fs) \<inter> metadata_names = set fs \<inter> metadata_names" using False by auto
    have ex: "\<forall>f \<in> set fs \<inter> metadata_names. fs_read (disk l1) (m_dir l1 @ f) \<noteq> None"
      using Cons.prems(4) l1(1,3) unfolding int by (metis IntE)
    have "(\<exists>g \<in> set fs \<inter> metadata_names. read_metadata pb l1 (m_dir l1 @ g) = Some M) \<longleftrightarrow>
        (\<exists>g \<in> set fs \<inter> metadata_names. read_metadata pb l (m_dir l @ g) = Some M)"
      using rd l1(1) by (intro bex_cong refl) auto
    with Cons.IH [OF log_frame_names [OF fr] newest_on_disk_frame [OF fr Cons.prems(2)] older ex r(2)] l1
    show ?thesis unfolding int by (simp add: log_frame_def)
  qed
qed (simp add: log_frame_def)

lemma restore_files_returns:
  assumes "codec_ok default_entry (entry_codec pb)"
    and "names_ok l" and "newest_on_disk pb l M"
    and "m_metadata l = M \<or> md_version (m_metadata l) < md_version M"
    and "\<forall>f \<in> set fs. (f \<in> metadata_names \<and> fs_read (disk l) (m_dir l @ f) \<noteq> None) \<or>
       (f \<notin> metadata_names \<and> (IsFileOpen f \<or>
          (\<exists>p. f = ClosedFilename p \<and> 0 \<le> start_index p \<and> start_index p < 2 ^ 31)))"
  shows "\<exists>l'. restore_files pb fs l = Inr l'"
  using assms(2-)
proof (induction fs arbitrary: l)
  case (Cons f fs)
  obtain l1 where r: "restore_file pb f l = Inr l1"
    using Cons.prems LoadMetadata_newest [OF Cons.prems(2) _ _ Cons.prems(3), of f]
      restore_log_file_returns [OF assms(1), of f l]
    by (cases "f \<in> metadata_names") (auto simp: restore_file_def Let_def)
  then have "restore_files pb [f] l = Inr l1" by simp
  from restore_files_newest [OF Cons.prems(1-3) _ this] Cons.prems(4)
  have f1: "log_frame (l\<lparr>m_metadata := m_metadata l1\<rparr>) l1" by auto
  then have d: "m_dir l1 = m_dir l" by (simp add: log_frame_def)
  have same: "fs_read (disk l1) (m_dir l @ g) = fs_read (disk l) (m_dir l @ g)" if "g \<in> metadata_names" for g
    using f1 that by (auto simp: log_frame_def)
  have "newest_on_disk pb l1 M"
    using Cons.prems(2) same by (simp add: newest_on_disk_def read_metadata_def d)
  moreover have "m_metadata l1 = M \<or> md_version (m_metadata l1) < md_version M"
  proof (cases "f \<in> metadata_names")
    case True
    then show ?thesis
      using LoadMetadata_newest [OF Cons.prems(2) True _ Cons.prems(3)] Cons.prems(4) r
      by (auto simp: restore_file_def Let_def)
  next
    case False
    then show ?thesis
      using restore_log_file_frame [OF Cons.prems(1) False r] Cons.prems(3) by (simp add: log_frame_def)
  qed
  moreover have "\<forall>f \<in> set fs. (f \<in> metadata_names \<and> fs_read (disk l1) (m_dir l1 @ f) \<noteq> None) \<or>
     (f \<notin> metadata_names \<and> (IsFileOpen f \<or>
        (\<exists>p. f = ClosedFilename p \<and> 0 \<le> start_index p \<and> start_index p < 2 ^ 31)))"
    using Cons.prems(4) same d by (metis list.set_intros(2))
  ultimately have "\<exists>l'. restore_files pb fs l1 = Inr l'"
    using Cons.IH log_frame_names [OF f1] by blast
  with r show ?case by simp
qed simp

lemma ListDirectoryContents_iff:
  "CHR ''/'' \<notin> set f \<Longrightarrow> f \<in> set (ListDirectoryContents d fs) \<longleftrightarrow> fs_read fs (d @ f) \<noteq> None"
proof -
  assume f: "CHR ''/'' \<notin> set f"
  have "d @ f \<in> fst ` set fs \<longleftrightarrow> f \<in> set (ListDirectoryContents d fs)"
  proof
    assume "d @ f \<in> fst ` set fs"
    with f show "f \<in> set (ListDirectoryContents d fs)"
      by (auto simp: ListDirectoryContents_def intro!: rev_image_eqI [of "d @ f"])
  next
    assume "f \<in> set (ListDirectoryContents d fs)"
    then obtain p where p: "p \<in> fst ` set fs" "take (length d) p = d" "f = drop (length d) p"
      by (auto simp: ListDirectoryContents_def)
    then have "p = d @ f" by (metis append_take_drop_id)
    with p(1) show "d @ f \<in> fst ` set fs" by simp
  qed
  then show ?thesis by (simp add: map_of_eq_None_iff del: not_None_eq)
qed

lemma metadata_synced_newest:
  assumes "metadata_synced pb l" and "md_version (m_metadata l) \<noteq> 0"
  shows "newest_on_disk pb l (m_metadata l)"
    and "\<exists>f \<in> metadata_names. read_metadata pb l (m_dir l @ f) = Some (m_metadata l)"
  using assms
  by (auto simp: metadata_synced_def newest_on_disk_def Let_def metadata_path_alt split: if_splits)

text \<open>The empty log on which a restart begins to read the files of the directory.\<close>

definition blank_log :: "string \<Rightarrow> int \<Rightarrow> file_system \<Rightarrow> PersistedLog" where
  "blank_log d n fs = \<lparr>m_log_size = 0, m_metadata = default_metadata, m_open_page = None,
     m_dir = d, m_log_indices = [], m_max_file_size = n, page_heap = [], disk = fs\<rparr>"

lemma blank_log_listed:
  "f \<in> metadata_names \<Longrightarrow> f \<in> set (sort (ListDirectoryContents d fs)) \<longleftrightarrow> fs_read fs (d @ f) \<noteq> None"
  using ListDirectoryContents_iff [of f d fs] by auto

lemma blank_log_metadata:
  fixes pb :: protobuf and l :: PersistedLog and n :: int
  assumes "metadata_synced pb l"
  defines "b \<equiv> blank_log (m_dir l) n (disk l)"
  shows "names_ok b" and "newest_on_disk pb b (m_metadata l)"
    and "m_metadata b = m_metadata l \<or> md_version (m_metadata b) < md_version (m_metadata l)"
    and "m_metadata b = m_metadata l \<or> (\<exists>f \<in> set (sort (ListDirectoryContents (m_dir l) (disk l))) \<inter> metadata_names.
      read_metadata pb b (m_dir b @ f) = Some (m_metadata l))"
proof -
  have same: "read_metadata pb b q = read_metadata pb l q" for q
    by (simp add: read_metadata_def b_def blank_log_def)
  show "names_ok b" by (simp add: names_ok_def b_def blank_log_def)
  have zero: "m_metadata l = default_metadata" if "md_version (m_metadata l) = 0"
    using assms(1) that by (auto simp: metadata_synced_def Let_def)
  show "m_metadata b = m_metadata l \<or> md_version (m_metadata b) < md_version (m_metadata l)"
    using assms(1) zero by (auto simp: metadata_synced_def Let_def b_def blank_log_def default_metadata_def split: if_splits)
  show "newest_on_disk pb b (m_metadata l)"
  proof (cases "md_version (m_metadata l) = 0")
    case True
    then show ?thesis
      using assms(1) by (simp add: metadata_synced_def newest_on_disk_def b_def blank_log_def Let_def)
  next
    case False
    with metadata_synced_newest(1) [OF assms(1)] same show ?thesis
      by (simp add: newest_on_disk_def) (simp add: b_def blank_log_def)
  qed
  show "m_metadata b = m_metadata l \<or> (\<exists>f \<in> set (sort (ListDirectoryContents (m_dir l) (disk l))) \<inter> metadata_names.
      read_metadata pb b (m_dir b @ f) = Some (m_metadata l))"
  proof (cases "md_version (m_metadata l) = 0")
    case True
    then show ?thesis using zero by (simp add: b_def blank_log_def)
  next
    case False
    from metadata_synced_newest(2) [OF assms(1) this] obtain f where f: "f \<in> metadata_names"
      "read_metadata pb l (m_dir l @ f) = Some (m_metadata l)" by blast
    moreover have "f \<in> set (sort (ListDirectoryContents (m_dir l) (disk l)))"
      using f blank_log_listed by (auto simp: read_metadata_def split: option.splits)
    ultimately show ?thesis using same by (auto simp: b_def blank_log_def)
  qed
qed

lemma PersistedLog_new_restore:
  "PersistedLog_new pb d True n fs =
     rbind (restore_files pb (sort (ListDirectoryContents d fs)) (blank_log d n fs)) (\<lambda>l1.
       case m_open_page l1 of
         Some r \<Rightarrow> Inr l1
       | None \<Rightarrow> (let (r, l2) = make_page 0 True l1 in
           Inr (l2\<lparr>m_open_page := Some r, m_log_indices := omap_insert 0 r (m_log_indices l2)\<rparr>)))"
  by (simp add: PersistedLog_new_def RestoreState_def blank_log_def Let_def)

text \<open>A restart that succeeds recovers the metadata.\<close>

lemma restart_metadata_Inr:
  assumes sync: "metadata_synced pb l" and res: "PersistedLog_new pb (m_dir l) True n (disk l) = Inr l'"
  shows "m_metadata l' = m_metadata l \<and> metadata_synced pb l' \<and> names_ok l' \<and> m_dir l' = m_dir l"
proof -
  let ?b = "blank_log (m_dir l) n (disk l)"
  let ?fs = "sort (ListDirectoryContents (m_dir l) (disk l))"
  note B = blank_log_metadata [OF sync, of n]
  obtain l1 where l1: "restore_files pb ?fs ?b = Inr l1" using res by (auto simp: PersistedLog_new_restore)
  have "\<forall>f \<in> set ?fs \<inter> metadata_names. fs_read (disk ?b) (m_dir ?b @ f) \<noteq> None"
    using blank_log_listed [of _ "m_dir l" "disk l"] by (auto simp: blank_log_def)
  from restore_files_newest [OF B(1-3) this l1] B(4) have M: "m_metadata l1 = m_metadata l"
    and fr: "log_frame (?b\<lparr>m_metadata := m_metadata l1\<rparr>) l1" by blast+
  have names: "names_ok l1" by (rule log_frame_names [OF fr])
  have fr1: "log_frame l l1" using fr M by (simp add: log_frame_def blank_log_def)
  have "log_frame l1 l'"
  proof (cases "m_open_page l1")
    case (Some r)
    then show ?thesis using res l1 names by (simp add: PersistedLog_new_restore log_frame_refl)
  next
    case None
    then have l': "l' = (let (r, l2) = make_page 0 True l1 in
      l2\<lparr>m_open_page := Some r, m_log_indices := omap_insert 0 r (m_log_indices l2)\<rparr>)"
      using res l1 by (simp add: PersistedLog_new_restore make_page_def Page_new_def Let_def)
    show ?thesis
      by (rule alloc_page_frame [OF names, where start = 0 and k = 0])
        (use set_omap_insert_subset [of 0 "length (page_heap l1)" "m_log_indices l1"] in
          \<open>auto simp: l' make_page_def Page_new_def Let_def\<close>)
  qed
  from log_frame_trans [OF fr1 this] show ?thesis
    using log_frame_synced [OF _ sync] by (auto simp: log_frame_def)
qed

lemma restart_returns:
  assumes codec: "codec_ok default_entry (entry_codec pb)"
    and sync: "metadata_synced pb l" and dir: "dir_ok (m_dir l) (disk l)"
  shows "\<exists>l'. PersistedLog_new pb (m_dir l) True n (disk l) = Inr l'"
proof -
  let ?b = "blank_log (m_dir l) n (disk l)"
  let ?fs = "sort (ListDirectoryContents (m_dir l) (disk l))"
  note B = blank_log_metadata [OF sync, of n]
  have "\<forall>f \<in> set ?fs. (f \<in> metadata_names \<and> fs_read (disk ?b) (m_dir ?b @ f) \<noteq> None) \<or>
     (f \<notin> metadata_names \<and> (IsFileOpen f \<or>
        (\<exists>p. f = ClosedFilename p \<and> 0 \<le> start_index p \<and> start_index p < 2 ^ 31)))"
  proof
    fix f assume f: "f \<in> set ?fs"
    show "(f \<in> metadata_names \<and> fs_read (disk ?b) (m_dir ?b @ f) \<noteq> None) \<or>
      (f \<notin> metadata_names \<and> (IsFileOpen f \<or>
         (\<exists>p. f = ClosedFilename p \<and> 0 \<le> start_index p \<and> start_index p < 2 ^ 31)))"
      using f dir blank_log_listed [of f "m_dir l" "disk l"]
      by (cases "f \<in> metadata_names") (auto simp: blank_log_def dir_ok_def)
  qed
  from restore_files_returns [OF codec B(1-3) this] obtain l1 where "restore_files pb ?fs ?b = Inr l1" by blast
  then show ?thesis
    by (cases "m_open_page l1") (auto simp: PersistedLog_new_restore make_page_def Page_new_def Let_def)
qed


end
