(* ===== verification/Cluster_Configuration.thy ===== *)
theory Cluster_Configuration
  imports Raft_Messages
begin

section \<open>Cluster configurations\<close>

text \<open>
  \<open>src/raft/cluster_configuration.h\<close> and \<open>.cpp\<close>: the member lists a node knows by log
  index, the configuration in force, the quorum test of stable and joint configurations and
  the progress of newly added servers during log synchronisation. The mutex of
  \<open>SyncState\<close> makes each of its operations atomic and is not modelled further.
\<close>

subsection \<open>State and operations\<close>

datatype ConfigurationState = CONF_EMPTY | CONF_SYNC | CONF_JOINT | CONF_STABLE

record SyncState =
  sync_index :: int
  sync_done :: bool
  sync_progress :: bool
  state_diff :: "(string \<times> (int \<times> int)) list"
  sync_addresses :: "string uset"

record ClusterConfiguration =
  m_id :: int
  cc_state :: ConfigurationState
  m_current_configuration :: Configuration
  m_addresses :: "string uset"
  m_configurations :: "Configuration omap"
  m_log_sync :: "SyncState option"

definition ClusterConfiguration_new :: ClusterConfiguration where
  "ClusterConfiguration_new =
     \<lparr>m_id = -1, cc_state = CONF_EMPTY, m_current_configuration = empty_configuration,
      m_addresses = [], m_configurations = [], m_log_sync = None\<rparr>"

definition Configuration_at :: "int \<Rightarrow> ClusterConfiguration \<Rightarrow> Configuration result" where
  "Configuration_at i c =
     (case map_of (m_configurations c) i of None \<Rightarrow> Inl Out_of_range | Some conf \<Rightarrow> Inr conf)"

definition SetState :: "ConfigurationState \<Rightarrow> ClusterConfiguration \<Rightarrow> ClusterConfiguration" where
  "SetState new_state c = c\<lparr>cc_state := new_state\<rparr>"

definition SetConfiguration :: "int \<Rightarrow> Configuration \<Rightarrow> ClusterConfiguration \<Rightarrow> ClusterConfiguration" where
  "SetConfiguration new_id configuration c =
     (let c1 = (if length (next_configuration configuration) = 0
                then SetState CONF_STABLE c else SetState CONF_JOINT c)
      in c1\<lparr>m_id := new_id, m_current_configuration := configuration,
            m_addresses := uset_insert_all (map address (next_configuration configuration))
              (uset_insert_all (map address (prev_configuration configuration)) [])\<rparr>)"

definition InsertNewConfiguration ::
  "int \<Rightarrow> Configuration \<Rightarrow> ClusterConfiguration \<Rightarrow> ClusterConfiguration" where
  "InsertNewConfiguration new_id new_configuration c =
     (let c1 = c\<lparr>m_configurations := omap_insert new_id new_configuration (m_configurations c)\<rparr>;
          (k, conf) = last (m_configurations c1)
      in if m_id c1 \<noteq> k then SetConfiguration k conf c1 else c1)"

text \<open>
  In state SYNC the pointer \<open>m_log_sync\<close> is set (\<open>sync_pointer_ok\<close> below), so the
  \<open>None\<close> branches of the next two operations do not arise.
\<close>

definition ServerAddresses :: "ClusterConfiguration \<Rightarrow> string uset" where
  "ServerAddresses c =
     (if cc_state c = CONF_SYNC
      then (case m_log_sync c of
              None \<Rightarrow> m_addresses c
            | Some s \<Rightarrow> uset_insert_all (sync_addresses s) (m_addresses c))
      else m_addresses c)"

definition KnownServer :: "string \<Rightarrow> ClusterConfiguration \<Rightarrow> bool" where
  "KnownServer addr c \<longleftrightarrow>
     addr \<in> set (m_addresses c) \<or>
     (cc_state c = CONF_SYNC \<and>
      (case m_log_sync c of None \<Rightarrow> False | Some s \<Rightarrow> addr \<in> set (sync_addresses s)))"

definition Config_TruncateSuffix :: "int \<Rightarrow> ClusterConfiguration \<Rightarrow> ClusterConfiguration result" where
  "Config_TruncateSuffix removal_index c =
     (let c1 = c\<lparr>m_configurations := omap_erase_above removal_index (m_configurations c)\<rparr> in
      case omap_rbegin (m_configurations c1) of
        None \<Rightarrow> Inl Undefined_behaviour
      | Some (k, conf) \<Rightarrow> Inr (if m_id c1 \<noteq> k then SetConfiguration k conf c1 else c1))"

definition count_votes :: "Server list \<Rightarrow> string uset \<Rightarrow> nat" where
  "count_votes servers peer_votes = length (filter (\<lambda>s. address s \<in> set peer_votes) servers)"

definition CheckQuorum :: "string uset \<Rightarrow> ClusterConfiguration \<Rightarrow> bool" where
  "CheckQuorum peer_votes c =
     (let conf = m_current_configuration c in
      if cc_state c = CONF_JOINT
      then count_votes (prev_configuration conf) peer_votes * 2 > length (prev_configuration conf) \<and>
           count_votes (next_configuration conf) peer_votes * 2 > length (next_configuration conf)
      else length peer_votes * 2 > length (prev_configuration conf))"

definition SyncState_new :: "int \<Rightarrow> string list \<Rightarrow> SyncState" where
  "SyncState_new commit_index new_servers =
     \<lparr>sync_index = commit_index, sync_done = False, sync_progress = False,
      state_diff = fold (\<lambda>a d. AList.update a (0, 0) d) new_servers [],
      sync_addresses = uset_insert_all new_servers []\<rparr>"

definition StartLogSync :: "int \<Rightarrow> string list \<Rightarrow> ClusterConfiguration \<Rightarrow> ClusterConfiguration" where
  "StartLogSync commit_index new_servers c =
     (let sync_servers = filter (\<lambda>s. \<not> KnownServer s c) new_servers
      in SetState CONF_SYNC (c\<lparr>m_log_sync := Some (SyncState_new commit_index sync_servers)\<rparr>))"

definition CancelLogSync :: "ClusterConfiguration \<Rightarrow> ClusterConfiguration" where
  "CancelLogSync c = SetState CONF_STABLE (c\<lparr>m_log_sync := None\<rparr>)"

definition SyncProgress :: "ClusterConfiguration \<Rightarrow> bool result" where
  "SyncProgress c =
     (case m_log_sync c of None \<Rightarrow> Inl Undefined_behaviour | Some s \<Rightarrow> Inr (sync_progress s))"

definition SyncComplete :: "ClusterConfiguration \<Rightarrow> bool result" where
  "SyncComplete c =
     (case m_log_sync c of None \<Rightarrow> Inl Undefined_behaviour | Some s \<Rightarrow> Inr (sync_done s))"

text \<open>The loop of \<open>UpdateSyncProgress\<close>, with its \<open>break\<close>: progress and done.\<close>

fun sync_scan :: "int \<Rightarrow> (string \<times> (int \<times> int)) list \<Rightarrow> bool \<Rightarrow> bool \<times> bool" where
  "sync_scan idx [] dn = (True, dn)"
| "sync_scan idx ((a, (prev_index, curr_index)) # ds) dn =
     (if prev_index \<ge> curr_index then (False, False)
      else sync_scan idx ds (if curr_index < idx then False else dn))"

definition UpdateSyncProgress ::
  "string \<Rightarrow> int \<Rightarrow> ClusterConfiguration \<Rightarrow> (bool \<times> ClusterConfiguration) result" where
  "UpdateSyncProgress addr new_match_index c =
     (if cc_state c \<noteq> CONF_SYNC then Inr (False, c)
      else case m_log_sync c of
        None \<Rightarrow> Inl Undefined_behaviour
      | Some s \<Rightarrow>
          let prev_index = (case map_of (state_diff s) addr of None \<Rightarrow> 0 | Some (p, _) \<Rightarrow> p);
              diff = AList.update addr (prev_index, new_match_index) (state_diff s);
              (progress, dn) = sync_scan (sync_index s) diff True
          in Inr (progress,
                  c\<lparr>m_log_sync := Some (s\<lparr>state_diff := diff, sync_progress := progress,
                                          sync_done := dn\<rparr>)\<rparr>))"

subsection \<open>Well-formedness\<close>

text \<open>
  The configuration in force and its address set agree; a joint configuration is one with a
  non-empty next member list; a synchronisation in progress has its record.
\<close>

definition config_addresses :: "Configuration \<Rightarrow> string set" where
  "config_addresses conf = address ` (set (prev_configuration conf) \<union> set (next_configuration conf))"

definition sync_pointer_ok :: "ClusterConfiguration \<Rightarrow> bool" where
  "sync_pointer_ok c \<longleftrightarrow> (cc_state c = CONF_SYNC \<longrightarrow> m_log_sync c \<noteq> None)"

definition config_wf :: "ClusterConfiguration \<Rightarrow> bool" where
  "config_wf c \<longleftrightarrow>
     set (m_addresses c) = config_addresses (m_current_configuration c) \<and>
     distinct (m_addresses c) \<and> omap_sorted (m_configurations c) \<and> sync_pointer_ok c \<and>
     (cc_state c = CONF_JOINT \<longrightarrow> next_configuration (m_current_configuration c) \<noteq> [])"

lemma config_wf_new: "config_wf ClusterConfiguration_new"
  by (simp add: config_wf_def ClusterConfiguration_new_def config_addresses_def
      empty_configuration_def sync_pointer_ok_def)

lemma config_wf_SetConfiguration:
  "omap_sorted (m_configurations c) \<Longrightarrow> config_wf (SetConfiguration i conf c)"
  by (auto simp: config_wf_def SetConfiguration_def SetState_def Let_def config_addresses_def
      sync_pointer_ok_def)

lemma config_wf_InsertNewConfiguration:
  assumes "config_wf c" shows "config_wf (InsertNewConfiguration i conf c)"
proof -
  let ?c = "c\<lparr>m_configurations := omap_insert i conf (m_configurations c)\<rparr>"
  have sorted: "omap_sorted (m_configurations ?c)"
    using assms by (simp add: config_wf_def omap_insert_sorted)
  then have "config_wf ?c" using assms by (simp add: config_wf_def sync_pointer_ok_def)
  then show ?thesis
    using config_wf_SetConfiguration [OF sorted]
    by (auto simp: InsertNewConfiguration_def Let_def split: prod.splits option.splits)
qed

lemma config_wf_TruncateSuffix:
  assumes "config_wf c" and "Config_TruncateSuffix i c = Inr c'"
  shows "config_wf c'"
proof -
  let ?c = "c\<lparr>m_configurations := omap_erase_above i (m_configurations c)\<rparr>"
  have sorted: "omap_sorted (m_configurations ?c)"
    using assms(1) sorted_wrt_filter [of "\<lambda>p q. fst p < fst q" "m_configurations c"]
    by (simp add: config_wf_def omap_erase_above_def sorted_wrt_map)
  then have "config_wf ?c" using assms(1) by (simp add: config_wf_def sync_pointer_ok_def)
  then show ?thesis
    using config_wf_SetConfiguration [OF sorted] assms(2)
    by (auto simp: Config_TruncateSuffix_def Let_def split: option.splits if_splits)
qed

lemma config_wf_StartLogSync: "config_wf c \<Longrightarrow> config_wf (StartLogSync i new_servers c)"
  by (auto simp: StartLogSync_def SetState_def config_wf_def sync_pointer_ok_def Let_def)

lemma config_wf_CancelLogSync: "config_wf c \<Longrightarrow> config_wf (CancelLogSync c)"
  by (auto simp: CancelLogSync_def SetState_def config_wf_def sync_pointer_ok_def)

lemma config_wf_UpdateSyncProgress:
  "config_wf c \<Longrightarrow> UpdateSyncProgress addr i c = Inr (b, c') \<Longrightarrow> config_wf c'"
  by (auto simp: UpdateSyncProgress_def Let_def config_wf_def sync_pointer_ok_def
      split: if_splits option.splits prod.splits)

lemma sync_scan_spec:
  "sync_scan idx ds dn =
     (let progress = (\<forall>(a, p, k) \<in> set ds. p < k)
      in (progress, progress \<and> dn \<and> (\<forall>(a, p, k) \<in> set ds. idx \<le> k)))"
  by (induction idx ds dn rule: sync_scan.induct) (auto simp: Let_def split: prod.splits)

lemma KnownServer_iff: "KnownServer addr c \<longleftrightarrow> addr \<in> set (ServerAddresses c)"
  by (auto simp: KnownServer_def ServerAddresses_def split: option.splits)

subsection \<open>Quorums\<close>

text \<open>
  The interface that voting and replication rely on: two quorums drawn from the same membership
  share a member. \<open>votes\<close> are the sets a node collects, \<open>members\<close> the servers that may
  contribute to them.
\<close>

locale quorum_system =
  fixes is_quorum :: "'c \<Rightarrow> 'a uset \<Rightarrow> bool"
    and members :: "'c \<Rightarrow> 'a set"
    and proper :: "'c \<Rightarrow> bool"
  assumes quorums_meet:
    "\<lbrakk> proper c; is_quorum c V; is_quorum c W; distinct V; distinct W;
       set V \<subseteq> members c; set W \<subseteq> members c \<rbrakk> \<Longrightarrow> set V \<inter> set W \<noteq> {}"
begin

lemma quorum_nonempty:
  "\<lbrakk> proper c; is_quorum c V; distinct V; set V \<subseteq> members c \<rbrakk> \<Longrightarrow> V \<noteq> []"
  using quorums_meet [of c V V] by auto

lemma no_disjoint_quorums:
  assumes "proper c" and "is_quorum c V" and "distinct V" and "set V \<subseteq> members c"
    and "distinct W" and "set W \<subseteq> members c" and "set V \<inter> set W = {}"
  shows "\<not> is_quorum c W"
  using quorums_meet [OF assms(1,2)] assms(3-7) by blast

text \<open>One voter, one choice: two choices cannot both be backed by quorums.\<close>

lemma unique_choice:
  assumes "proper c" and "is_quorum c V" and "is_quorum c W" and "distinct V" and "distinct W"
    and "set V \<subseteq> members c" and "set W \<subseteq> members c"
    and "\<forall>v \<in> set V. choice v = x" and "\<forall>w \<in> set W. choice w = y"
  shows "x = y"
proof -
  obtain v where "v \<in> set V" and "v \<in> set W" using quorums_meet [OF assms(1-7)] by auto
  with assms(8,9) have "choice v = x" and "choice v = y" by blast+
  then show ?thesis by simp
qed

end

lemma majorities_meet:
  assumes "distinct V" and "distinct W" and "set V \<subseteq> set M" and "set W \<subseteq> set M"
    and "2 * length V > length M" and "2 * length W > length M"
  shows "set V \<inter> set W \<noteq> {}"
proof
  assume dis: "set V \<inter> set W = {}"
  have "length V + length W = card (set V \<union> set W)"
    using dis assms(1,2) by (simp add: card_Un_disjoint distinct_card)
  also have "\<dots> \<le> card (set M)" using assms(3,4) by (intro card_mono) auto
  also have "\<dots> \<le> length M" by (rule card_length)
  finally show False using assms(5,6) by simp
qed

lemma count_votes_filter:
  assumes "distinct (map address servers)"
  shows "count_votes servers V = card (set V \<inter> address ` set servers)"
proof -
  have "count_votes servers V = length (filter (\<lambda>a. a \<in> set V) (map address servers))"
    by (simp add: count_votes_def filter_map comp_def)
  also have "\<dots> = card (set (filter (\<lambda>a. a \<in> set V) (map address servers)))"
    by (rule distinct_card [OF distinct_filter [OF assms], symmetric])
  also have "set (filter (\<lambda>a. a \<in> set V) (map address servers)) = set V \<inter> address ` set servers"
    by auto
  finally show ?thesis .
qed

lemma counted_majorities_meet:
  assumes "distinct (map address servers)"
    and "count_votes servers V * 2 > length servers" and "count_votes servers W * 2 > length servers"
  shows "set V \<inter> set W \<inter> address ` set servers \<noteq> {}"
proof
  assume dis: "set V \<inter> set W \<inter> address ` set servers = {}"
  let ?A = "address ` set servers"
  have "count_votes servers V + count_votes servers W = card ((set V \<inter> ?A) \<union> (set W \<inter> ?A))"
    using dis by (subst card_Un_disjoint) (auto simp: count_votes_filter [OF assms(1)])
  also have "\<dots> \<le> card ?A" by (intro card_mono) auto
  also have "\<dots> \<le> length servers" using card_image_le [of "set servers" address] card_length [of servers] by simp
  finally show False using assms(2,3) by simp
qed

text \<open>
  \<open>CheckQuorum\<close> is a quorum system on the members of a stable or joint configuration: outside
  SYNC, where servers that are not members yet are counted too.
\<close>

definition stable_or_joint :: "ClusterConfiguration \<Rightarrow> bool" where
  "stable_or_joint c \<longleftrightarrow>
     cc_state c \<in> {CONF_STABLE, CONF_JOINT} \<and>
     distinct (map address (prev_configuration (m_current_configuration c))) \<and>
     distinct (map address (next_configuration (m_current_configuration c))) \<and>
     (cc_state c = CONF_STABLE \<longrightarrow> next_configuration (m_current_configuration c) = [])"

interpretation cq: quorum_system "\<lambda>c V. CheckQuorum V c"
  "\<lambda>c. config_addresses (m_current_configuration c)" stable_or_joint
proof (unfold_locales, goal_cases)
  case (1 c V W)
  let ?prev = "prev_configuration (m_current_configuration c)"
  show ?case
  proof (cases "cc_state c = CONF_JOINT")
    case True
    then show ?thesis
      using 1(1-3) counted_majorities_meet [of ?prev V W]
      by (auto simp: CheckQuorum_def stable_or_joint_def Let_def)
  next
    case False
    then have "config_addresses (m_current_configuration c) = set (map address ?prev)"
      using 1(1) by (auto simp: stable_or_joint_def config_addresses_def)
    with False 1 show ?thesis
      using majorities_meet [of V W "map address ?prev"] by (simp add: CheckQuorum_def Let_def)
  qed
qed

end
