(* ===== verification/Session_Cache.thy ===== *)
theory Session_Cache
  imports Raft_Messages
begin

section \<open>The session cache\<close>

text \<open>
  \<open>src/raft/session_cache.h\<close> and \<open>.cpp\<close>: client sessions and the responses already given
  to them, in a least-recently-used cache made of a hash map and a doubly linked list between
  two sentinel nodes. Nodes live in an explicit heap and a \<open>std::shared_ptr\<close> is an optional
  address. Each operation runs under the cache's mutex. The second half proves that the pointer
  structure implements a list with the most recently used session in front.
\<close>

subsection \<open>State and operations\<close>

type_synonym node_ref = nat

record LRUNode =
  node_val :: "(int \<times> ClientRequest_Response) list"
  node_prev :: "node_ref option"
  node_next :: "node_ref option"
  node_id :: int

record ClientRequestLRUCache =
  m_capacity :: int
  m_size :: int
  m_cache :: "(int \<times> node_ref) list"
  m_head :: node_ref
  m_tail :: node_ref
  node_heap :: "LRUNode list"

definition LRUNode_new :: "int \<Rightarrow> LRUNode" where
  "LRUNode_new i = \<lparr>node_val = [], node_prev = None, node_next = None, node_id = i\<rparr>"

definition LRUCache_new :: "int \<Rightarrow> ClientRequestLRUCache" where
  "LRUCache_new capacity =
     \<lparr>m_capacity = capacity, m_size = 0, m_cache = [], m_head = 0, m_tail = 1,
      node_heap = [(LRUNode_new (-1))\<lparr>node_next := Some 1\<rparr>, (LRUNode_new (-1))\<lparr>node_prev := Some 0\<rparr>]\<rparr>"

text \<open>Access through a pointer: undefined when it is null.\<close>

fun deref :: "node_ref option \<Rightarrow> node_ref result" where
  "deref None = Inl Undefined_behaviour"
| "deref (Some r) = Inr r"

abbreviation node_at :: "ClientRequestLRUCache \<Rightarrow> node_ref \<Rightarrow> LRUNode" where
  "node_at c r \<equiv> node_heap c ! r"

definition set_next :: "node_ref \<Rightarrow> node_ref option \<Rightarrow> ClientRequestLRUCache \<Rightarrow> ClientRequestLRUCache" where
  "set_next r p c = c\<lparr>node_heap := (node_heap c)[r := (node_at c r)\<lparr>node_next := p\<rparr>]\<rparr>"

definition set_prev :: "node_ref \<Rightarrow> node_ref option \<Rightarrow> ClientRequestLRUCache \<Rightarrow> ClientRequestLRUCache" where
  "set_prev r p c = c\<lparr>node_heap := (node_heap c)[r := (node_at c r)\<lparr>node_prev := p\<rparr>]\<rparr>"

definition set_val ::
  "node_ref \<Rightarrow> (int \<times> ClientRequest_Response) list \<Rightarrow> ClientRequestLRUCache \<Rightarrow> ClientRequestLRUCache" where
  "set_val r v c = c\<lparr>node_heap := (node_heap c)[r := (node_at c r)\<lparr>node_val := v\<rparr>]\<rparr>"

definition EraseTail :: "ClientRequestLRUCache \<Rightarrow> ClientRequestLRUCache result" where
  "EraseTail c =
     rbind (deref (node_prev (node_at c (m_tail c)))) (\<lambda>erase_node.
     rbind (deref (node_prev (node_at c erase_node))) (\<lambda>before.
       let c1 = set_next before (Some (m_tail c)) c;
           c2 = set_prev (m_tail c) (Some before) c1;
           c3 = set_prev erase_node None (set_next erase_node None c2);
           c4 = c3\<lparr>m_size := m_size c3 - 1\<rparr>;
           i = node_id (node_at c4 erase_node)
       in if map_of (m_cache c4) i = None then Inl Undefined_behaviour
          else Inr (c4\<lparr>m_cache := AList.delete i (m_cache c4)\<rparr>)))"

definition PushHead :: "node_ref \<Rightarrow> ClientRequestLRUCache \<Rightarrow> ClientRequestLRUCache result" where
  "PushHead cur c =
     rbind
       (if m_size c = 0 then
          Inr (set_next cur (Some (m_tail c)) (set_prev cur (Some (m_head c))
                (set_prev (m_tail c) (Some cur) (set_next (m_head c) (Some cur) c))))
        else
          let c1 = set_prev cur (Some (m_head c))
                     (set_next cur (node_next (node_at c (m_head c))) c)
          in rbind (deref (node_next (node_at c1 (m_head c1)))) (\<lambda>first.
               Inr (set_next (m_head c1) (Some cur) (set_prev first (Some cur) c1))))
       (\<lambda>c2. let c3 = c2\<lparr>m_size := m_size c2 + 1\<rparr>
             in if m_size c3 > m_capacity c3 then EraseTail c3 else Inr c3)"

text \<open>The block of \<open>NodeValue\<close> and \<open>UpdateNode\<close> that takes a node out of the list.\<close>

definition unlink_node :: "node_ref \<Rightarrow> ClientRequestLRUCache \<Rightarrow> ClientRequestLRUCache result" where
  "unlink_node cur c =
     rbind (deref (node_prev (node_at c cur))) (\<lambda>p.
       let c1 = set_next p (node_next (node_at c cur)) c in
       rbind (deref (node_next (node_at c1 cur))) (\<lambda>n.
         let c2 = set_prev n (node_prev (node_at c1 cur)) c1;
             c3 = set_next cur None (set_prev cur None c2)
         in Inr (c3\<lparr>m_size := m_size c3 - 1\<rparr>)))"

definition CreateNode :: "int \<Rightarrow> ClientRequestLRUCache \<Rightarrow> ClientRequestLRUCache result" where
  "CreateNode client_id c =
     (if map_of (m_cache c) client_id \<noteq> None then Inl Out_of_range
      else
        let r = length (node_heap c);
            c1 = c\<lparr>node_heap := node_heap c @ [LRUNode_new client_id],
                   m_cache := AList.update client_id r (m_cache c)\<rparr>
        in PushHead r c1)"

definition NodeValue ::
  "int \<Rightarrow> int \<Rightarrow> ClientRequestLRUCache \<Rightarrow> (ClientRequest_Response \<times> ClientRequestLRUCache) result" where
  "NodeValue client_id sequence_num c =
     (case map_of (m_cache c) client_id of
        None \<Rightarrow> Inl Out_of_range
      | Some cur \<Rightarrow>
          (case map_of (node_val (node_at c cur)) sequence_num of
             None \<Rightarrow> Inl Out_of_range
           | Some reply \<Rightarrow>
               rbind (unlink_node cur c) (\<lambda>c1.
               rbind (PushHead cur c1) (\<lambda>c2. Inr (reply, c2)))))"

definition UpdateNode ::
  "int \<Rightarrow> int \<Rightarrow> ClientRequest_Response \<Rightarrow> ClientRequestLRUCache \<Rightarrow> ClientRequestLRUCache result" where
  "UpdateNode client_id sequence_num reply c =
     (case map_of (m_cache c) client_id of
        None \<Rightarrow> Inl Out_of_range
      | Some cur \<Rightarrow>
          rbind (unlink_node cur
                   (set_val cur (AList.update sequence_num reply (node_val (node_at c cur))) c))
            (PushHead cur))"

definition NodeExists :: "int \<Rightarrow> ClientRequestLRUCache \<Rightarrow> bool" where
  "NodeExists client_id c \<longleftrightarrow> map_of (m_cache c) client_id \<noteq> None"

text \<open>Class \<open>SessionCache\<close>, whose only member is the cache.\<close>

type_synonym SessionCache = ClientRequestLRUCache

definition AddSession :: "int \<Rightarrow> SessionCache \<Rightarrow> SessionCache result" where
  "AddSession client_id c = CreateNode client_id c"

definition CacheResponse ::
  "int \<Rightarrow> int \<Rightarrow> ClientRequest_Response \<Rightarrow> SessionCache \<Rightarrow> SessionCache result" where
  "CacheResponse client_id sequence_num reply c = UpdateNode client_id sequence_num reply c"

text \<open>The result flag, the reply (unchanged when nothing is cached) and the cache.\<close>

definition GetCachedResponse ::
  "int \<Rightarrow> int \<Rightarrow> ClientRequest_Response \<Rightarrow> SessionCache \<Rightarrow>
   (bool \<times> ClientRequest_Response \<times> SessionCache) result" where
  "GetCachedResponse client_id sequence_num reply c =
     (case NodeValue client_id sequence_num c of
        Inr (r, c') \<Rightarrow> Inr (True, r, c')
      | Inl e \<Rightarrow> if e = Out_of_range then Inr (False, reply, c) else Inl e)"

definition SessionExists :: "int \<Rightarrow> SessionCache \<Rightarrow> bool" where
  "SessionExists client_id c = NodeExists client_id c"

subsection \<open>The pointer structure represents a list\<close>

text \<open>Adjacent nodes point at each other.\<close>

fun links :: "LRUNode list \<Rightarrow> node_ref list \<Rightarrow> bool" where
  "links h (a # b # rs) \<longleftrightarrow>
     node_next (h ! a) = Some b \<and> node_prev (h ! b) = Some a \<and> links h (b # rs)"
| "links h rs \<longleftrightarrow> True"

text \<open>
  \<open>lru_nodes c rs\<close>: the list runs from the head sentinel through the nodes \<open>rs\<close> to the
  tail sentinel, and the hash map holds exactly these nodes under their identifiers.
\<close>

definition lru_nodes :: "ClientRequestLRUCache \<Rightarrow> node_ref list \<Rightarrow> bool" where
  "lru_nodes c rs \<longleftrightarrow>
     distinct (m_head c # rs @ [m_tail c]) \<and>
     (\<forall>r \<in> set (m_head c # rs @ [m_tail c]). r < length (node_heap c)) \<and>
     links (node_heap c) (m_head c # rs @ [m_tail c]) \<and>
     m_size c = int (length rs)"

definition lru_index :: "ClientRequestLRUCache \<Rightarrow> node_ref list \<Rightarrow> bool" where
  "lru_index c rs \<longleftrightarrow>
     (\<forall>k r. map_of (m_cache c) k = Some r \<longleftrightarrow> r \<in> set rs \<and> node_id (node_at c r) = k) \<and>
     distinct (map (\<lambda>r. node_id (node_at c r)) rs)"

type_synonym lru = "(int \<times> (int \<times> ClientRequest_Response) list) list"

definition lru_abs :: "ClientRequestLRUCache \<Rightarrow> node_ref list \<Rightarrow> lru" where
  "lru_abs c rs = map (\<lambda>r. (node_id (node_at c r), node_val (node_at c r))) rs"

definition lru_rep :: "ClientRequestLRUCache \<Rightarrow> lru \<Rightarrow> bool" where
  "lru_rep c xs \<longleftrightarrow>
     (\<exists>rs. lru_nodes c rs \<and> lru_index c rs \<and> xs = lru_abs c rs) \<and>
     0 \<le> m_capacity c \<and> m_size c \<le> m_capacity c"

lemma links_append: "links h (xs @ a # ys) \<longleftrightarrow> links h (xs @ [a]) \<and> links h (a # ys)"
  by (induction h xs rule: links.induct) auto

lemma links_frame:
  assumes "\<And>r. r \<in> set (butlast rs) \<Longrightarrow> node_next (h' ! r) = node_next (h ! r)"
    and "\<And>r. r \<in> set (tl rs) \<Longrightarrow> node_prev (h' ! r) = node_prev (h ! r)"
  shows "links h rs \<Longrightarrow> links h' rs"
  using assms
proof (induction h rs rule: links.induct)
  case (1 h a b rs)
  then show ?case by (cases rs) auto
qed auto

subsection \<open>Pointer updates\<close>

text \<open>What pointer updates leave alone: everything but the links.\<close>

definition lru_frame :: "ClientRequestLRUCache \<Rightarrow> ClientRequestLRUCache \<Rightarrow> bool" where
  "lru_frame c c' \<longleftrightarrow>
     m_capacity c' = m_capacity c \<and> m_cache c' = m_cache c \<and> m_head c' = m_head c \<and>
     m_tail c' = m_tail c \<and> length (node_heap c') = length (node_heap c) \<and>
     (\<forall>r. node_id (node_at c' r) = node_id (node_at c r) \<and> node_val (node_at c' r) = node_val (node_at c r))"

lemma lru_frame_refl [simp]: "lru_frame c c"
  by (simp add: lru_frame_def)

lemma lru_frame_trans: "lru_frame c c1 \<Longrightarrow> lru_frame c1 c2 \<Longrightarrow> lru_frame c c2"
  by (simp add: lru_frame_def)

lemma node_update_other: "P (xs ! i) = P y \<Longrightarrow> P (xs[i := y] ! j) = P (xs ! j)"
  by (cases "i < length xs") (auto simp: nth_list_update list_update_beyond)

lemma in_set_tl: "x \<in> set (tl xs) \<Longrightarrow> x \<in> set xs"
  by (cases xs) auto

lemma set_links_frame [simp]: "lru_frame c (set_next r p c)" "lru_frame c (set_prev r p c)"
  by (auto simp: lru_frame_def set_next_def set_prev_def intro!: node_update_other [where P = node_id]
      node_update_other [where P = node_val])

lemma set_links_simps [simp]:
  "m_size (set_next r p c) = m_size c" "m_size (set_prev r p c) = m_size c"
  "m_head (set_next r p c) = m_head c" "m_head (set_prev r p c) = m_head c"
  "m_tail (set_next r p c) = m_tail c" "m_tail (set_prev r p c) = m_tail c"
  "m_capacity (set_next r p c) = m_capacity c" "m_capacity (set_prev r p c) = m_capacity c"
  "m_cache (set_next r p c) = m_cache c" "m_cache (set_prev r p c) = m_cache c"
  "length (node_heap (set_next r p c)) = length (node_heap c)"
  "length (node_heap (set_prev r p c)) = length (node_heap c)"
  by (simp_all add: set_next_def set_prev_def)

lemma set_links_read [simp]:
  "r < length (node_heap c) \<Longrightarrow>
     node_next (node_at (set_next r p c) q) = (if q = r then p else node_next (node_at c q))"
  "r < length (node_heap c) \<Longrightarrow>
     node_prev (node_at (set_prev r p c) q) = (if q = r then p else node_prev (node_at c q))"
  "node_prev (node_at (set_next r p c) q) = node_prev (node_at c q)"
  "node_next (node_at (set_prev r p c) q) = node_next (node_at c q)"
  by (auto simp: set_next_def set_prev_def nth_list_update
      intro!: node_update_other [where P = node_next] node_update_other [where P = node_prev])

lemma set_links_node [simp]:
  "node_id (node_at (set_next r p c) q) = node_id (node_at c q)"
  "node_id (node_at (set_prev r p c) q) = node_id (node_at c q)"
  "node_val (node_at (set_next r p c) q) = node_val (node_at c q)"
  "node_val (node_at (set_prev r p c) q) = node_val (node_at c q)"
  using set_links_frame [of c r p] by (simp_all add: lru_frame_def)

lemma lru_frame_links:
  "lru_frame c (set_next r p c') \<longleftrightarrow> lru_frame c c'" "lru_frame c (set_prev r p c') \<longleftrightarrow> lru_frame c c'"
  "lru_frame c (c'\<lparr>m_size := n\<rparr>) \<longleftrightarrow> lru_frame c c'"
  by (simp_all add: lru_frame_def)

lemma lru_index_frame:
  "lru_frame c c' \<Longrightarrow> lru_index c' rs \<longleftrightarrow> lru_index c rs"
  by (simp add: lru_index_def lru_frame_def)

lemma lru_abs_frame: "lru_frame c c' \<Longrightarrow> lru_abs c' rs = lru_abs c rs"
  by (simp add: lru_abs_def lru_frame_def)

text \<open>Removing the node \<open>cur\<close> from the middle of the list.\<close>

lemma unlink_node_list:
  assumes "lru_nodes c (xs @ cur # ys)"
  obtains c' where "unlink_node cur c = Inr c'" and "lru_nodes c' (xs @ ys)" and "lru_frame c c'"
proof -
  obtain as p where p: "m_head c # xs = as @ [p]" by (cases xs rule: rev_cases) auto
  obtain n bs where n: "ys @ [m_tail c] = n # bs" by (cases ys) auto
  have full: "m_head c # (xs @ cur # ys) @ [m_tail c] = as @ p # cur # n # bs"
    using p n by (metis append_Cons append_assoc append_Nil)
  have new: "m_head c # (xs @ ys) @ [m_tail c] = as @ p # n # bs"
    using p n by (metis append_Cons append_assoc append_Nil)
  have L: "links (node_heap c) (as @ [p])" "links (node_heap c) (n # bs)"
    "node_next (node_at c p) = Some cur" "node_prev (node_at c cur) = Some p"
    "node_next (node_at c cur) = Some n" "node_prev (node_at c n) = Some cur"
    using assms full links_append [of _ as p "cur # n # bs"] by (auto simp: lru_nodes_def)
  have D: "distinct (as @ p # cur # n # bs)"
    and B: "\<forall>r \<in> set (as @ p # cur # n # bs). r < length (node_heap c)"
    using assms full by (auto simp only: lru_nodes_def)
  define c1 where "c1 = set_next cur None (set_prev cur None (set_prev n (Some p) (set_next p (Some n) c)))"
  have u: "unlink_node cur c = Inr (c1\<lparr>m_size := m_size c - 1\<rparr>)"
    using L D B by (auto simp: unlink_node_def c1_def Let_def)
  have "links (node_heap c1) (as @ [p])"
    by (rule links_frame [OF _ _ L(1)]) (use D B in \<open>auto simp: c1_def dest: in_set_tl\<close>)
  moreover have "links (node_heap c1) (n # bs)"
    by (rule links_frame [OF _ _ L(2)]) (use D B in \<open>auto simp: c1_def dest: in_set_butlastD split: if_splits\<close>)
  moreover have "node_next (node_at c1 p) = Some n" "node_prev (node_at c1 n) = Some p"
    using D B by (auto simp: c1_def)
  ultimately have "links (node_heap c1) (as @ p # n # bs)"
    by (subst links_append) simp
  moreover have "m_head c1 = m_head c" "m_tail c1 = m_tail c" "length (node_heap c1) = length (node_heap c)"
    by (simp_all add: c1_def)
  ultimately have "lru_nodes (c1\<lparr>m_size := m_size c - 1\<rparr>) (xs @ ys)"
    using assms D B new by (auto simp: lru_nodes_def)
  with u that show ?thesis by (simp add: lru_frame_links c1_def)
qed

text \<open>Erasing the last node.\<close>

lemma EraseTail_list:
  assumes nodes: "lru_nodes c (xs @ [cur])" and ix: "lru_index c (xs @ [cur])"
  obtains c' where "EraseTail c = Inr c'" and "lru_nodes c' xs" and "lru_index c' xs"
    and "lru_abs c' xs = lru_abs c xs" and "m_capacity c' = m_capacity c" and "m_size c' = m_size c - 1"
proof -
  obtain as p where p: "m_head c # xs = as @ [p]" by (cases xs rule: rev_cases) auto
  let ?t = "m_tail c"
  have full: "m_head c # (xs @ [cur]) @ [?t] = as @ [p, cur, ?t]" using p by simp
  have L: "links (node_heap c) (as @ [p])" "node_prev (node_at c cur) = Some p"
    "node_prev (node_at c ?t) = Some cur"
    using nodes links_append [of _ as p "[cur, ?t]"] unfolding lru_nodes_def full by auto
  have D: "distinct (as @ [p, cur, ?t])" and B: "\<forall>r \<in> set (as @ [p, cur, ?t]). r < length (node_heap c)"
    using nodes full by (auto simp only: lru_nodes_def)
  define c1 where "c1 = set_prev cur None (set_next cur None (set_prev ?t (Some p) (set_next p (Some ?t) c)))"
  let ?i = "node_id (node_at c cur)"
  let ?c' = "c1\<lparr>m_size := m_size c - 1, m_cache := AList.delete ?i (m_cache c)\<rparr>"
  have fr: "lru_frame c c1" by (simp add: c1_def lru_frame_links)
  have "map_of (m_cache c) ?i = Some cur" using ix by (simp add: lru_index_def)
  then have "EraseTail c = Inr ?c'"
    using L by (simp add: EraseTail_def Let_def c1_def)
  moreover have "links (node_heap c1) (as @ [p])"
    by (rule links_frame [OF _ _ L(1)]) (use D B in \<open>auto simp: c1_def dest: in_set_tl\<close>)
  then have "links (node_heap c1) (as @ [p, ?t])"
    using D B by (subst links_append) (auto simp: c1_def)
  then have "lru_nodes ?c' xs"
    using nodes p D B by (auto simp: lru_nodes_def c1_def) (metis append_Cons append_assoc append_Nil)+
  moreover have "lru_index ?c' xs"
    using ix fr by (auto simp: lru_index_def lru_frame_def delete_conv split: if_splits)
      (metis (mono_tags, lifting) image_eqI)
  moreover have "lru_abs ?c' xs = lru_abs c xs" using fr by (simp add: lru_abs_def lru_frame_def)
  ultimately show ?thesis using that by (simp add: c1_def)
qed

text \<open>Inserting the node \<open>cur\<close> behind the head, before the capacity check.\<close>

lemma push_links:
  assumes nodes: "lru_nodes c rs" and cur: "cur \<notin> set (m_head c # rs @ [m_tail c])" "cur < length (node_heap c)"
  obtains c2 where "lru_nodes c2 (cur # rs)" and "lru_frame c c2"
    and "PushHead cur c = (if m_size c2 > m_capacity c2 then EraseTail c2 else Inr c2)"
proof -
  obtain b bs where b: "rs @ [m_tail c] = b # bs" by (cases rs) auto
  let ?h = "m_head c"
  have D: "distinct (?h # b # bs)" "cur \<noteq> ?h" "cur \<noteq> b" "cur \<notin> set bs"
    and B: "\<forall>r \<in> set (?h # b # bs). r < length (node_heap c)" and L: "links (node_heap c) (?h # b # bs)"
    using nodes cur unfolding lru_nodes_def b by auto
  define c1 where "c1 =
    (if m_size c = 0
     then set_next cur (Some (m_tail c)) (set_prev cur (Some ?h) (set_prev (m_tail c) (Some cur) (set_next ?h (Some cur) c)))
     else set_next ?h (Some cur) (set_prev b (Some cur) (set_prev cur (Some ?h) (set_next cur (Some b) c))))"
  define c2 where "c2 = c1\<lparr>m_size := m_size c1 + 1\<rparr>"
  have zero: "b = m_tail c \<and> bs = []" if "m_size c = 0" using that nodes b by (simp add: lru_nodes_def)
  have fr: "lru_frame c c1" by (simp add: c1_def lru_frame_links)
  have push: "PushHead cur c = (if m_size c2 > m_capacity c2 then EraseTail c2 else Inr c2)"
    using L D B cur(2) by (simp add: PushHead_def Let_def c2_def c1_def)
  have rd: "node_next (node_at c1 ?h) = Some cur" "node_prev (node_at c1 cur) = Some ?h"
    "node_next (node_at c1 cur) = Some b" "node_prev (node_at c1 b) = Some cur"
    using D B cur(2) zero by (auto simp: c1_def)
  have "links (node_heap c) (b # bs)" using L by simp
  then have "links (node_heap c1) (b # bs)"
    by (rule links_frame [rotated 2])
      (use D B cur(2) zero in \<open>auto simp: c1_def dest: in_set_butlastD split: if_splits\<close>)
  then have "links (node_heap c2) (?h # cur # rs @ [m_tail c])"
    using rd by (simp add: b c2_def)
  moreover have "m_size c1 = m_size c" by (simp add: c1_def)
  ultimately have "lru_nodes c2 (cur # rs)"
    using nodes cur fr by (auto simp: lru_nodes_def c2_def lru_frame_def)
  with push fr that show ?thesis by (simp add: c2_def lru_frame_links)
qed

lemma PushHead_rep:
  assumes nodes: "lru_nodes c rs" and cur: "cur \<notin> set (m_head c # rs @ [m_tail c])" "cur < length (node_heap c)"
    and ix: "lru_index c (cur # rs)" and cap: "0 \<le> m_capacity c" "m_size c \<le> m_capacity c"
  obtains c' where "PushHead cur c = Inr c'" and "m_capacity c' = m_capacity c"
    and "lru_rep c' (take (nat (m_capacity c)) (lru_abs c (cur # rs)))"
proof -
  obtain c2 where c2: "lru_nodes c2 (cur # rs)" "lru_frame c c2"
    "PushHead cur c = (if m_size c2 > m_capacity c2 then EraseTail c2 else Inr c2)"
    by (rule push_links [OF nodes cur])
  have ix2: "lru_index c2 (cur # rs)" using lru_index_frame [OF c2(2)] ix by simp
  have abs2: "lru_abs c2 ys = lru_abs c ys" for ys by (rule lru_abs_frame [OF c2(2)])
  have sz: "m_capacity c2 = m_capacity c" "m_size c2 = m_size c + 1" "m_size c = int (length rs)"
    using c2(1,2) nodes by (auto simp: lru_frame_def lru_nodes_def)
  show ?thesis
  proof (cases "m_size c2 > m_capacity c2")
    case False
    then have "take (nat (m_capacity c)) (lru_abs c (cur # rs)) = lru_abs c2 (cur # rs)"
      unfolding abs2 using sz by (simp add: lru_abs_def)
    with False c2 ix2 sz cap show ?thesis by (intro that [of c2]) (auto simp: lru_rep_def)
  next
    case True
    obtain xs z where xs: "cur # rs = xs @ [z]" by (metis append_butlast_last_id list.distinct(1))
    obtain c' where c': "EraseTail c2 = Inr c'" "lru_nodes c' xs" "lru_index c' xs"
      "lru_abs c' xs = lru_abs c2 xs" "m_capacity c' = m_capacity c2" "m_size c' = m_size c2 - 1"
      using EraseTail_list c2(1) ix2 unfolding xs by blast
    have "length xs = nat (m_capacity c)" using True sz cap arg_cong [OF xs, of length] by simp
    then have "take (nat (m_capacity c)) (lru_abs c (cur # rs)) = lru_abs c' xs"
      unfolding xs c'(4) abs2 by (simp add: lru_abs_def)
    with True c' c2(3) sz cap show ?thesis by (intro that [of c']) (auto simp: lru_rep_def)
  qed
qed

subsection \<open>Refinement\<close>

text \<open>The specification: operations on a list, most recently used session in front.\<close>

definition lru_add :: "nat \<Rightarrow> int \<Rightarrow> lru \<Rightarrow> lru" where
  "lru_add cap k xs = take cap ((k, []) # xs)"

definition lru_touch :: "int \<Rightarrow> (int \<times> ClientRequest_Response) list \<Rightarrow> lru \<Rightarrow> lru" where
  "lru_touch k v xs = (k, v) # AList.delete k xs"

lemma lru_repE:
  assumes "lru_rep c xs"
  obtains rs where "lru_nodes c rs" and "lru_index c rs" and "xs = lru_abs c rs"
    and "0 \<le> m_capacity c" and "m_size c \<le> m_capacity c"
  using assms by (auto simp: lru_rep_def)

lemma lru_index_lookup:
  assumes "lru_index c rs"
  shows "map_of (lru_abs c rs) k = map_option (\<lambda>r. node_val (node_at c r)) (map_of (m_cache c) k)"
proof (cases "map_of (m_cache c) k")
  case None
  then have "k \<notin> fst ` set (lru_abs c rs)" using assms by (force simp: lru_index_def lru_abs_def)
  then have "map_of (lru_abs c rs) k = None" by (simp add: map_of_eq_None_iff)
  then show ?thesis using None by simp
next
  case (Some r)
  then have "(k, node_val (node_at c r)) \<in> set (lru_abs c rs)" using assms by (auto simp: lru_index_def lru_abs_def)
  moreover have "distinct (map fst (lru_abs c rs))" using assms by (simp add: lru_index_def lru_abs_def comp_def)
  ultimately show ?thesis using Some by (simp add: map_of_eq_Some_iff)
qed

lemma NodeExists_rep: "lru_rep c xs \<Longrightarrow> NodeExists k c \<longleftrightarrow> map_of xs k \<noteq> None"
  by (elim lru_repE) (simp add: NodeExists_def lru_index_lookup)

lemma LRUCache_new_rep: "0 \<le> n \<Longrightarrow> lru_rep (LRUCache_new n) []"
  by (auto simp: lru_rep_def LRUCache_new_def lru_nodes_def lru_index_def lru_abs_def)

lemma CreateNode_rep:
  assumes "lru_rep c xs" and "map_of xs k = None"
  shows "\<exists>c'. CreateNode k c = Inr c' \<and> m_capacity c' = m_capacity c \<and>
     lru_rep c' (lru_add (nat (m_capacity c)) k xs)"
proof -
  obtain rs where rs: "lru_nodes c rs" "lru_index c rs" "xs = lru_abs c rs"
    "0 \<le> m_capacity c" "m_size c \<le> m_capacity c"
    by (rule lru_repE [OF assms(1)])
  let ?r = "length (node_heap c)"
  define c1 where "c1 = c\<lparr>node_heap := node_heap c @ [LRUNode_new k], m_cache := AList.update k ?r (m_cache c)\<rparr>"
  have old: "r < ?r" if "r \<in> set (m_head c # rs @ [m_tail c])" for r
    using that rs(1) by (auto simp: lru_nodes_def)
  then have same: "node_at c1 r = node_at c r" if "r \<in> set (m_head c # rs @ [m_tail c])" for r
    using that by (simp add: c1_def nth_append)
  have absent: "map_of (m_cache c) k = None" using assms(2) rs(2,3) by (simp add: lru_index_lookup)
  have "links (node_heap c1) (m_head c # rs @ [m_tail c])"
    by (rule links_frame [of _ _ "node_heap c"])
      (use rs(1) same in \<open>auto simp: lru_nodes_def dest: in_set_butlastD in_set_tl\<close>)
  then have n1: "lru_nodes c1 rs" using rs(1) old by (auto simp: lru_nodes_def c1_def less_SucI)
  have new: "node_id (node_at c1 ?r) = k" "node_val (node_at c1 ?r) = []" "?r \<notin> set rs"
    using old by (auto simp: c1_def LRUNode_new_def)
  have "lru_index c1 (?r # rs)"
  proof -
    have a: "map_of (m_cache c1) j = (if j = k then Some ?r else map_of (m_cache c) j)" for j
      by (simp add: c1_def update_conv)
    have b: "map (\<lambda>r. node_id (node_at c1 r)) rs = map (\<lambda>r. node_id (node_at c r)) rs" using same by simp
    have c: "node_id (node_at c r) \<noteq> k" if "r \<in> set rs" for r
      using that absent rs(2) unfolding lru_index_def by (metis option.distinct(1))
    show ?thesis
      using rs(2) new same c absent unfolding lru_index_def a list.map b
      by (auto split: if_splits) blast
  qed
  moreover have "lru_abs c1 (?r # rs) = (k, []) # xs"
    using new same by (simp add: lru_abs_def rs(3))
  moreover have "?r \<notin> set (m_head c1 # rs @ [m_tail c1])" "?r < length (node_heap c1)"
    using old by (auto simp: c1_def)
  ultimately obtain c' where "PushHead ?r c1 = Inr c'" "m_capacity c' = m_capacity c1"
    "lru_rep c' (take (nat (m_capacity c1)) ((k, []) # xs))"
    using PushHead_rep [OF n1, of ?r] rs(4,5) by (auto simp: c1_def)
  then show ?thesis using absent by (simp add: CreateNode_def Let_def lru_add_def c1_def)
qed

text \<open>
  Moving a node to the front: shared by \<open>NodeValue\<close> and \<open>UpdateNode\<close>. The list never
  exceeds its capacity, so nothing is evicted.
\<close>

lemma delete_split:
  assumes "distinct (map fst (xs @ (k, v) # ys))"
  shows "AList.delete k (xs @ (k, v) # ys) = xs @ ys"
proof -
  have "filter (\<lambda>(k', _). k \<noteq> k') xs = xs" "filter (\<lambda>(k', _). k \<noteq> k') ys = ys"
    using assms by (force simp: filter_id_conv image_iff)+
  then show ?thesis by (simp add: AList.delete_eq)
qed

lemma move_to_front:
  assumes rep: "lru_rep c xs" and k: "map_of (m_cache c) k = Some cur"
  shows "\<exists>c1 c'. unlink_node cur c = Inr c1 \<and> PushHead cur c1 = Inr c' \<and>
     m_capacity c' = m_capacity c \<and> lru_rep c' (lru_touch k (node_val (node_at c cur)) xs)"
proof -
  obtain rs where rs: "lru_nodes c rs" "lru_index c rs" "xs = lru_abs c rs"
    "0 \<le> m_capacity c" "m_size c \<le> m_capacity c"
    by (rule lru_repE [OF rep])
  have cur: "cur \<in> set rs" "node_id (node_at c cur) = k" using rs(2) k by (auto simp: lru_index_def)
  then obtain ps qs where split: "rs = ps @ cur # qs" by (meson split_list)
  obtain c1 where c1: "unlink_node cur c = Inr c1" "lru_nodes c1 (ps @ qs)" "lru_frame c c1"
    by (rule unlink_node_list [of c ps cur qs]) (use rs(1) split in auto)
  have sz: "m_size c1 = m_size c - 1" using c1(2) rs(1) split by (simp add: lru_nodes_def)
  have fresh: "cur \<notin> set (m_head c1 # (ps @ qs) @ [m_tail c1])" "cur < length (node_heap c1)"
    using rs(1) split c1(3) by (auto simp: lru_nodes_def lru_frame_def)
  have "lru_index c1 (cur # ps @ qs)"
    using rs(2) unfolding lru_index_frame [OF c1(3)] split by (auto simp: lru_index_def)
  then obtain c' where c': "PushHead cur c1 = Inr c'" "m_capacity c' = m_capacity c1"
    "lru_rep c' (take (nat (m_capacity c1)) (lru_abs c1 (cur # ps @ qs)))"
    using PushHead_rep [OF c1(2) fresh] rs(4,5) sz c1(3) by (auto simp: lru_frame_def)
  have d: "distinct (map fst (lru_abs c ps @ (k, node_val (node_at c cur)) # lru_abs c qs))"
    using rs(2) cur(2) unfolding split by (auto simp: lru_index_def lru_abs_def comp_def)
  have "lru_abs c1 (cur # ps @ qs) = lru_touch k (node_val (node_at c cur)) xs"
    unfolding lru_abs_frame [OF c1(3)] rs(3) split lru_touch_def
    using delete_split [OF d] cur(2) by (simp add: lru_abs_def)
  moreover have "length (lru_abs c1 (cur # ps @ qs)) \<le> nat (m_capacity c1)"
    using rs(1,5) split c1(3) by (simp add: lru_nodes_def lru_abs_def lru_frame_def)
  ultimately have "take (nat (m_capacity c1)) (lru_abs c1 (cur # ps @ qs)) =
      lru_touch k (node_val (node_at c cur)) xs" by simp
  with c' c1(1,3) show ?thesis by (intro exI [of _ c1] exI [of _ c']) (simp add: lru_frame_def)
qed

lemma NodeValue_rep:
  assumes "lru_rep c xs"
  shows "case map_of xs k of
      None \<Rightarrow> NodeValue k n c = Inl Out_of_range
    | Some v \<Rightarrow>
        (case map_of v n of
           None \<Rightarrow> NodeValue k n c = Inl Out_of_range
         | Some reply \<Rightarrow> \<exists>c'. NodeValue k n c = Inr (reply, c') \<and> m_capacity c' = m_capacity c \<and>
             lru_rep c' (lru_touch k v xs))"
proof -
  obtain rs where "lru_index c rs" "xs = lru_abs c rs" by (rule lru_repE [OF assms])
  then have lk: "map_of xs k = map_option (\<lambda>r. node_val (node_at c r)) (map_of (m_cache c) k)"
    by (simp add: lru_index_lookup)
  show ?thesis
  proof (cases "map_of (m_cache c) k")
    case (Some cur)
    with move_to_front [OF assms Some] lk show ?thesis
      by (auto simp: NodeValue_def split: option.splits)
  qed (use lk in \<open>simp add: NodeValue_def\<close>)
qed

lemma set_val_rep:
  assumes rep: "lru_rep c xs" and k: "map_of (m_cache c) k = Some cur"
  shows "\<exists>ys. lru_rep (set_val cur v c) ys \<and> lru_touch k v ys = lru_touch k v xs"
proof -
  obtain rs where rs: "lru_nodes c rs" "lru_index c rs" "xs = lru_abs c rs"
    "0 \<le> m_capacity c" "m_size c \<le> m_capacity c"
    by (rule lru_repE [OF rep])
  let ?c = "set_val cur v c"
  have same: "node_id (node_at ?c r) = node_id (node_at c r)" "node_next (node_at ?c r) = node_next (node_at c r)"
    "node_prev (node_at ?c r) = node_prev (node_at c r)" for r
    by (auto simp: set_val_def intro!: node_update_other [where P = node_id]
        node_update_other [where P = node_next] node_update_other [where P = node_prev])
  have other: "node_val (node_at ?c r) = node_val (node_at c r)" if "r \<noteq> cur" for r
    using that by (simp add: set_val_def)
  have cur: "cur \<in> set rs" "node_id (node_at c cur) = k" using rs(2) k by (auto simp: lru_index_def)
  have "links (node_heap ?c) (m_head c # rs @ [m_tail c])"
    by (rule links_frame [of _ _ "node_heap c"]) (use rs(1) same in \<open>auto simp: lru_nodes_def\<close>)
  then have "lru_nodes ?c rs" using rs(1) by (simp add: lru_nodes_def set_val_def)
  moreover have "lru_index ?c rs" using rs(2) same(1) by (simp add: lru_index_def) (simp add: set_val_def)
  ultimately have "lru_rep ?c (lru_abs ?c rs)" using rs(4,5) by (auto simp: lru_rep_def set_val_def)
  moreover have "AList.delete k (lru_abs ?c rs) = AList.delete k (lru_abs c rs)"
  proof -
    have "r \<noteq> cur" if "node_id (node_at c r) \<noteq> k" for r using that cur(2) by auto
    then show ?thesis
      by (auto simp: AList.delete_eq lru_abs_def filter_map comp_def same(1) other intro!: map_cong)
  qed
  ultimately show ?thesis using rs(3) by (auto simp: lru_touch_def)
qed

lemma UpdateNode_rep:
  assumes "lru_rep c xs"
  shows "case map_of xs k of
      None \<Rightarrow> UpdateNode k n reply c = Inl Out_of_range
    | Some v \<Rightarrow> \<exists>c'. UpdateNode k n reply c = Inr c' \<and> m_capacity c' = m_capacity c \<and>
        lru_rep c' (lru_touch k (AList.update n reply v) xs)"
proof -
  obtain rs where rs: "lru_nodes c rs" "lru_index c rs" "xs = lru_abs c rs" by (rule lru_repE [OF assms])
  then have lk: "map_of xs k = map_option (\<lambda>r. node_val (node_at c r)) (map_of (m_cache c) k)"
    by (simp add: lru_index_lookup)
  show ?thesis
  proof (cases "map_of (m_cache c) k")
    case (Some cur)
    let ?v = "AList.update n reply (node_val (node_at c cur))"
    have "cur < length (node_heap c)" using rs(1,2) Some by (auto simp: lru_nodes_def lru_index_def)
    then have new: "node_val (node_at (set_val cur ?v c) cur) = ?v" by (simp add: set_val_def)
    have cache: "map_of (m_cache (set_val cur ?v c)) k = Some cur" using Some by (simp add: set_val_def)
    from set_val_rep [OF assms Some, of ?v] obtain ys where ys: "lru_rep (set_val cur ?v c) ys"
      "lru_touch k ?v ys = lru_touch k ?v xs" by blast
    from move_to_front [OF ys(1) cache] ys(2) lk Some new show ?thesis
      by (auto simp: UpdateNode_def) (simp add: set_val_def)
  qed (use lk in \<open>simp add: UpdateNode_def\<close>)
qed

subsection \<open>The interface of the cache\<close>

text \<open>
  What the consensus module relies on: which sessions are live and what is stored for each
  sequence number, whatever the order of use.
\<close>

locale session_store =
  fixes valid :: "'s \<Rightarrow> bool"
    and live :: "int \<Rightarrow> 's \<Rightarrow> bool"
    and stored :: "'s \<Rightarrow> int \<Rightarrow> int \<Rightarrow> ClientRequest_Response option"
    and register :: "int \<Rightarrow> 's \<Rightarrow> 's result"
    and store :: "int \<Rightarrow> int \<Rightarrow> ClientRequest_Response \<Rightarrow> 's \<Rightarrow> 's result"
    and fetch :: "int \<Rightarrow> int \<Rightarrow> ClientRequest_Response \<Rightarrow> 's \<Rightarrow> (bool \<times> ClientRequest_Response \<times> 's) result"
  assumes register_law: "valid s \<Longrightarrow> \<not> live k s \<Longrightarrow>
      \<exists>s'. register k s = Inr s' \<and> valid s' \<and> live k s' \<and> (\<forall>n. stored s' k n = None)"
    and store_law: "valid s \<Longrightarrow> live k s \<Longrightarrow>
      \<exists>s'. store k n r s = Inr s' \<and> valid s' \<and> (\<forall>j. live j s' \<longleftrightarrow> live j s) \<and>
        (\<forall>j m. stored s' j m = (if j = k \<and> m = n then Some r else stored s j m))"
    and fetch_miss: "valid s \<Longrightarrow> stored s k n = None \<Longrightarrow> fetch k n d s = Inr (False, d, s)"
    and fetch_hit: "valid s \<Longrightarrow> stored s k n = Some r \<Longrightarrow>
      \<exists>s'. fetch k n d s = Inr (True, r, s') \<and> valid s' \<and> (\<forall>j. live j s' \<longleftrightarrow> live j s) \<and> stored s' = stored s"
begin

lemma store_then_fetch:
  assumes "valid s" and "live k s"
  shows "\<exists>s' s''. store k n r s = Inr s' \<and> fetch k n d s' = Inr (True, r, s'') \<and> valid s'' \<and> live k s'' \<and>
     stored s'' k n = Some r"
proof -
  obtain s' where s': "store k n r s = Inr s'" "valid s'" "live k s'" "stored s' k n = Some r"
    using store_law [OF assms] assms(2) by metis
  with fetch_hit [OF s'(2,4)] show ?thesis by metis
qed

lemma fetch_total: "valid s \<Longrightarrow> \<exists>b r s'. fetch k n d s = Inr (b, r, s') \<and> valid s'"
  using fetch_miss fetch_hit by (cases "stored s k n") blast+

end

definition cache_valid :: "SessionCache \<Rightarrow> bool" where
  "cache_valid c \<longleftrightarrow> (\<exists>xs. lru_rep c xs) \<and> 0 < m_capacity c"

definition cached :: "SessionCache \<Rightarrow> int \<Rightarrow> int \<Rightarrow> ClientRequest_Response option" where
  "cached c k n =
     (case map_of (m_cache c) k of
        None \<Rightarrow> None
      | Some r \<Rightarrow> map_of (node_val (node_at c r)) n)"

lemma cached_rep:
  assumes "lru_rep c xs"
  shows "cached c k n = (case map_of xs k of None \<Rightarrow> None | Some v \<Rightarrow> map_of v n)"
proof -
  obtain rs where "lru_index c rs" "xs = lru_abs c rs" by (rule lru_repE [OF assms])
  then show ?thesis by (simp add: cached_def lru_index_lookup split: option.splits)
qed

lemma lru_touch_lookup: "map_of (lru_touch k v xs) j = (if j = k then Some v else map_of xs j)"
  by (simp add: lru_touch_def delete_conv)

interpretation sc: session_store cache_valid SessionExists cached AddSession CacheResponse GetCachedResponse
proof (unfold_locales, goal_cases)
  case (1 s k)
  then obtain xs where xs: "lru_rep s xs" "0 < m_capacity s" by (auto simp: cache_valid_def)
  then have "map_of xs k = None" using 1(2) by (simp add: SessionExists_def NodeExists_rep)
  from CreateNode_rep [OF xs(1) this] obtain s' where s': "CreateNode k s = Inr s'"
    "m_capacity s' = m_capacity s" "lru_rep s' (lru_add (nat (m_capacity s)) k xs)" by blast
  have "map_of (lru_add (nat (m_capacity s)) k xs) k = Some []"
    using xs(2) by (cases "nat (m_capacity s)") (auto simp: lru_add_def)
  with s' xs(2) show ?case
    by (auto simp: cache_valid_def AddSession_def SessionExists_def NodeExists_rep [OF s'(3)] cached_rep [OF s'(3)])
next
  case (2 s k n r)
  then obtain xs where xs: "lru_rep s xs" "0 < m_capacity s" by (auto simp: cache_valid_def)
  then obtain v where v: "map_of xs k = Some v" using 2(2) by (auto simp: SessionExists_def NodeExists_rep)
  with UpdateNode_rep [OF xs(1), of k n r] obtain s' where s': "UpdateNode k n r s = Inr s'"
    "m_capacity s' = m_capacity s" "lru_rep s' (lru_touch k (AList.update n r v) xs)" by auto
  then show ?case
    using xs v by (auto simp: cache_valid_def CacheResponse_def SessionExists_def NodeExists_rep
        cached_rep lru_touch_lookup update_conv)
next
  case (3 s k n d)
  then obtain xs where xs: "lru_rep s xs" by (auto simp: cache_valid_def)
  with 3(2) NodeValue_rep [OF xs, of k n] show ?case
    by (auto simp: cached_rep GetCachedResponse_def split: option.splits)
next
  case (4 s k n r d)
  then obtain xs where xs: "lru_rep s xs" "0 < m_capacity s" by (auto simp: cache_valid_def)
  with 4(2) NodeValue_rep [OF xs(1), of k n] obtain v s' where v: "map_of xs k = Some v"
    and s': "NodeValue k n s = Inr (r, s')" "m_capacity s' = m_capacity s" "lru_rep s' (lru_touch k v xs)"
    by (auto simp: cached_rep split: option.splits)
  then show ?case
    using xs by (auto simp: cache_valid_def GetCachedResponse_def SessionExists_def NodeExists_rep
        lru_touch_lookup cached_rep fun_eq_iff)
qed

end
