(* ===== verification/State_Machine.thy ===== *)
theory State_Machine
  imports Session_Cache
begin

section \<open>The replicated state machine\<close>

text \<open>
  \<open>src/raft/state_machine.cpp\<close> and \<open>src/core/inmemory_store.cpp\<close>: committed log entries
  applied to the session cache and the key-value store. The two are shared by pointer between
  the state machine and the consensus module; the record of the state machine holds the one
  copy.
\<close>

subsection \<open>State and operations\<close>

type_synonym InmemoryStore = "(string \<times> string) list"

definition Store_Read :: "string \<Rightarrow> InmemoryStore \<Rightarrow> string result" where
  "Store_Read key st = (case map_of st key of None \<Rightarrow> Inl Out_of_range | Some v \<Rightarrow> Inr v)"

definition Store_Write :: "string \<Rightarrow> string \<Rightarrow> InmemoryStore \<Rightarrow> InmemoryStore" where
  "Store_Write key val st = AList.update key val st"

record StateMachine =
  sm_last_applied :: int
  sm_sessions :: SessionCache
  sm_store :: InmemoryStore

definition StateMachine_new :: "SessionCache \<Rightarrow> InmemoryStore \<Rightarrow> StateMachine" where
  "StateMachine_new sessions st = \<lparr>sm_last_applied = -1, sm_sessions = sessions, sm_store = st\<rparr>"

definition LastApplied :: "StateMachine \<Rightarrow> int" where
  "LastApplied sm = sm_last_applied sm"

definition IncrementLastApplied :: "StateMachine \<Rightarrow> StateMachine" where
  "IncrementLastApplied sm = sm\<lparr>sm_last_applied := to_int (sm_last_applied sm + 1)\<rparr>"

text \<open>\<open>substr(pos)\<close> for a position inside the string.\<close>

definition str_suffix :: "int \<Rightarrow> string \<Rightarrow> string" where
  "str_suffix n s = drop (nat n) s"

definition command_key :: "bytes \<Rightarrow> string" where
  "command_key command = str_prefix (str_find (CHR '':'') command) command"

definition command_val :: "bytes \<Rightarrow> string" where
  "command_val command = str_suffix (str_find (CHR '':'') command + 1) command"

definition ApplyCommand :: "int \<Rightarrow> LogEntry \<Rightarrow> StateMachine \<Rightarrow> (string \<times> StateMachine) result" where
  "ApplyCommand log_index log_entry sm =
     rbind
       (case entry_type log_entry of
          NO_OP \<Rightarrow> Inr sm
        | REGISTER_CLIENT \<Rightarrow>
            rbind (AddSession log_index (sm_sessions sm)) (\<lambda>c. Inr (sm\<lparr>sm_sessions := c\<rparr>))
        | DATA \<Rightarrow>
            (let command = entry_bytes log_entry in
             Inr (sm\<lparr>sm_store := Store_Write (command_key command) (command_val command) (sm_store sm)\<rparr>))
        | CONFIGURATION \<Rightarrow> Inr sm)
       (\<lambda>sm1. Inr (''SUCCESS'', IncrementLastApplied sm1))"

text \<open>The loop of the consensus module that applies a run of entries.\<close>

fun apply_loop :: "int \<Rightarrow> LogEntry list \<Rightarrow> StateMachine \<Rightarrow> StateMachine result" where
  "apply_loop i [] sm = Inr sm"
| "apply_loop i (e # es) sm = rbind (ApplyCommand i e sm) (\<lambda>(r, sm'). apply_loop (i + 1) es sm')"

subsection \<open>Commands\<close>

lemma command_roundtrip:
  assumes "CHR '':'' \<notin> set k"
  shows "command_key (k @ CHR '':'' # v) = k" and "command_val (k @ CHR '':'' # v) = v"
proof -
  have "takeWhile (\<lambda>x. x \<noteq> CHR '':'') (k @ CHR '':'' # v) = k"
    using assms by (subst takeWhile_append2) auto
  then have "str_find (CHR '':'') (k @ CHR '':'' # v) = int (length k)" by (simp add: str_find_def)
  then show "command_key (k @ CHR '':'' # v) = k" "command_val (k @ CHR '':'' # v) = v"
    by (simp_all add: command_key_def command_val_def str_prefix_def str_suffix_def nat_add_distrib)
qed

lemma command_without_colon:
  "CHR '':'' \<notin> set b \<Longrightarrow> command_key b = b \<and> command_val b = b"
  by (simp add: command_key_def command_val_def str_find_def str_prefix_def str_suffix_def)

text \<open>The value that a run of entries leaves under a key: the last write to it.\<close>

fun last_write :: "string \<Rightarrow> LogEntry list \<Rightarrow> string option" where
  "last_write k [] = None"
| "last_write k (e # es) =
     (case last_write k es of
        Some v \<Rightarrow> Some v
      | None \<Rightarrow>
          if entry_type e = DATA \<and> command_key (entry_bytes e) = k
          then Some (command_val (entry_bytes e)) else None)"

lemma ApplyCommand_effect:
  assumes "ApplyCommand i e sm = Inr (r, sm')"
  shows "r = ''SUCCESS''" and "sm_last_applied sm' = to_int (sm_last_applied sm + 1)"
    and "map_of (sm_store sm') k =
      (if entry_type e = DATA \<and> command_key (entry_bytes e) = k
       then Some (command_val (entry_bytes e)) else map_of (sm_store sm) k)"
  using assms
  by (auto simp: ApplyCommand_def IncrementLastApplied_def Store_Write_def update_conv Let_def
      split: LogOpCode.splits)

lemma apply_loop_store:
  "apply_loop i es sm = Inr sm' \<Longrightarrow>
     map_of (sm_store sm') k = (case last_write k es of None \<Rightarrow> map_of (sm_store sm) k | Some v \<Rightarrow> Some v)"
proof (induction i es sm rule: apply_loop.induct)
  case (2 i e es sm)
  then obtain r sm1 where "ApplyCommand i e sm = Inr (r, sm1)" "apply_loop (i + 1) es sm1 = Inr sm'" by auto
  with 2 ApplyCommand_effect(3) [of i e sm r sm1 k] show ?case by (auto split: option.splits)
qed simp

lemma apply_loop_last_applied:
  assumes "apply_loop i es sm = Inr sm'" and "-1 \<le> sm_last_applied sm"
    and "sm_last_applied sm + int (length es) < 2 ^ 31"
  shows "sm_last_applied sm' = sm_last_applied sm + int (length es)"
  using assms
proof (induction i es sm rule: apply_loop.induct)
  case (2 i e es sm)
  then obtain r sm1 where a: "ApplyCommand i e sm = Inr (r, sm1)" "apply_loop (i + 1) es sm1 = Inr sm'" by auto
  have "sm_last_applied sm1 = sm_last_applied sm + 1"
    using ApplyCommand_effect(2) [OF a(1)] 2(3,4) by (simp add: in_int_def)
  with 2(1) [OF a(1) refl] a(2) 2(3,4) show ?case by simp
qed simp

end
