(* ===== verification/Consensus_Module.thy ===== *)
theory Consensus_Module
  imports Raft_Log_Interface Persisted_Metadata Cluster_Configuration State_Machine
begin

section \<open>The consensus module\<close>

text \<open>
  \<open>src/raft/consensus_module.h\<close> and \<open>.cpp\<close>, with the connection table and the two sends of
  \<open>src/raft/raft_client.cpp\<close>. The record carries what the module reaches through
  \<open>m_ctx\<close>: its address, the log, the client's stubs and, as a history, the calls it
  started. Timers are their armed flag, delay and callback; when an armed timer fires is left
  open. A handler that reads the clock or draws an election timeout takes the values from an
  \<open>env\<close>, by the order of the readings. Handlers that wait on a condition variable are split
  at the wait: a \<open>_begin\<close> part, and a \<open>_resume\<close> part that runs once the wait's predicate
  holds. \<open>notify_one\<close> calls are recorded in \<open>m_notified\<close>.
\<close>

subsection \<open>State\<close>

abbreviation "ELECTION_TIMEOUT \<equiv> 1000 :: int"
abbreviation "HEARTBEAT_TIMEOUT \<equiv> 500 :: int"
abbreviation "LEADER_LEASE_TIMEOUT \<equiv> 900 :: int"

datatype RaftState = LEADER | CANDIDATE | FOLLOWER | DEAD

datatype Callback = ElectionCallback_at int | HeartbeatCallback_bound | ResetToFollower_at int

record DeadlineTimer =
  timer_armed :: bool
  timer_delay :: int
  timer_callback :: Callback

definition CreateTimer :: "int \<Rightarrow> Callback \<Rightarrow> DeadlineTimer" where
  "CreateTimer delay callback = \<lparr>timer_armed = False, timer_delay = delay, timer_callback = callback\<rparr>"

definition Timer_Cancel :: "DeadlineTimer \<Rightarrow> DeadlineTimer" where
  "Timer_Cancel t = t\<lparr>timer_armed := False\<rparr>"

definition Timer_Reset :: "DeadlineTimer \<Rightarrow> DeadlineTimer" where
  "Timer_Reset t = t\<lparr>timer_armed := True\<rparr>"

definition Timer_Reset_delay :: "int \<Rightarrow> DeadlineTimer \<Rightarrow> DeadlineTimer" where
  "Timer_Reset_delay delay t = Timer_Reset (t\<lparr>timer_delay := delay\<rparr>)"

definition Timer_Reset_callback :: "Callback \<Rightarrow> int \<Rightarrow> DeadlineTimer \<Rightarrow> DeadlineTimer" where
  "Timer_Reset_callback callback delay t = Timer_Reset_delay delay (t\<lparr>timer_callback := callback\<rparr>)"

datatype Rpc =
    Call_RequestVote string RequestVote_Request
  | Call_AppendEntries string AppendEntries_Request

datatype CondVar = Membership_sync | Session_sync | Write_command_sync

record ConsensusModule =
  ctx_address :: string
  m_log :: PersistedLog
  m_stubs :: "(string \<times> bool) list"
  m_sent :: "Rpc list"
  m_configuration :: ClusterConfiguration
  m_election_timer :: DeadlineTimer
  m_heartbeat_timer :: DeadlineTimer
  m_lease_timer :: DeadlineTimer
  m_vote :: string
  m_votes_received :: int
  m_term :: int
  m_state :: RaftState
  m_commit_index :: int
  m_next_index :: "(string \<times> int) list"
  m_match_index :: "(string \<times> int) list"
  m_leader_id :: string
  m_election_timeout :: int
  m_election_deadline :: int
  m_heartbeat_time :: int
  m_lease_holder :: bool
  m_renew_lease :: bool
  m_responding_peers :: "string uset"
  m_state_machine :: StateMachine
  m_notified :: "CondVar list"

text \<open>Readings of the steady clock, in milliseconds, and election timeouts drawn during a call.\<close>

record env =
  clock :: "nat \<Rightarrow> int"
  draw :: "nat \<Rightarrow> int"

definition ConsensusModule_new :: "string \<Rightarrow> PersistedLog \<Rightarrow> int \<Rightarrow> ConsensusModule" where
  "ConsensusModule_new addr l now =
     \<lparr>ctx_address = addr, m_log = l, m_stubs = [], m_sent = [],
      m_configuration = ClusterConfiguration_new,
      m_election_timer = CreateTimer ELECTION_TIMEOUT (ElectionCallback_at 0),
      m_heartbeat_timer = CreateTimer HEARTBEAT_TIMEOUT HeartbeatCallback_bound,
      m_lease_timer = CreateTimer LEADER_LEASE_TIMEOUT (ResetToFollower_at 0),
      m_vote = '''', m_votes_received = 0, m_term = 0, m_state = CANDIDATE, m_commit_index = -1,
      m_next_index = [], m_match_index = [], m_leader_id = '''',
      m_election_timeout = ELECTION_TIMEOUT, m_election_deadline = now, m_heartbeat_time = 0,
      m_lease_holder = False, m_renew_lease = False, m_responding_peers = [],
      m_state_machine = StateMachine_new (LRUCache_new 1000) [], m_notified = []\<rparr>"

text \<open>\<open>std::unordered_map::operator[]\<close>: a missing key is inserted with value zero.\<close>

definition map_get :: "string \<Rightarrow> (string \<times> int) list \<Rightarrow> int \<times> (string \<times> int) list" where
  "map_get k m = (case map_of m k of Some v \<Rightarrow> (v, m) | None \<Rightarrow> (0, AList.update k 0 m))"

subsection \<open>The client side of the connections\<close>

text \<open>A stub is present and connected (\<open>True\<close>) or present and null (\<open>False\<close>).\<close>

definition CreateConnections :: "string uset \<Rightarrow> ConsensusModule \<Rightarrow> ConsensusModule" where
  "CreateConnections peer_addresses n =
     (let new_addresses = filter (\<lambda>p. map_of (m_stubs n) p = None) peer_addresses;
          kept = filter (\<lambda>(p, _). p \<in> set peer_addresses) (m_stubs n)
      in n\<lparr>m_stubs := fold (\<lambda>p m. if p = ctx_address n then m else AList.update p True m)
                      new_addresses kept\<rparr>)"

text \<open>\<open>m_stubs[peer]\<close> in a send: a missing stub becomes a null one and nothing is sent.\<close>

definition start_call :: "string \<Rightarrow> Rpc \<Rightarrow> ConsensusModule \<Rightarrow> ConsensusModule" where
  "start_call peer_id call n =
     (case map_of (m_stubs n) peer_id of
        Some True \<Rightarrow> n\<lparr>m_sent := m_sent n @ [call]\<rparr>
      | Some False \<Rightarrow> n
      | None \<Rightarrow> n\<lparr>m_stubs := AList.update peer_id False (m_stubs n)\<rparr>)"

definition Client_RequestVote :: "string \<Rightarrow> int \<Rightarrow> int \<Rightarrow> int \<Rightarrow> ConsensusModule \<Rightarrow> ConsensusModule" where
  "Client_RequestVote peer_id trm last_log_index last_log_term n =
     start_call peer_id
       (Call_RequestVote peer_id
          \<lparr>rv_term = trm, rv_candidateId = ctx_address n, rv_lastLogIndex = last_log_index,
           rv_lastLogTerm = last_log_term\<rparr>) n"

definition Client_AppendEntries ::
  "string \<Rightarrow> int \<Rightarrow> int \<Rightarrow> int \<Rightarrow> LogEntry list \<Rightarrow> int \<Rightarrow> ConsensusModule \<Rightarrow> ConsensusModule" where
  "Client_AppendEntries peer_id trm prev_log_index prev_log_term entries leader_commit n =
     start_call peer_id
       (Call_AppendEntries peer_id
          \<lparr>ae_term = trm, ae_leaderId = ctx_address n, ae_prevLogIndex = prev_log_index,
           ae_prevLogTerm = prev_log_term, ae_entries = entries, ae_leaderCommit = leader_commit\<rparr>) n"

subsection \<open>Elections, terms and persistence\<close>

definition StoreState :: "protobuf \<Rightarrow> ConsensusModule \<Rightarrow> ConsensusModule result" where
  "StoreState pb n =
     rbind (SetMetadata pb \<lparr>md_version = 0, md_term = m_term n, md_vote = m_vote n\<rparr> (m_log n))
       (\<lambda>l. Inr (n\<lparr>m_log := l\<rparr>))"

definition ScheduleElection :: "int \<Rightarrow> int \<Rightarrow> ConsensusModule \<Rightarrow> ConsensusModule" where
  "ScheduleElection random_timeout trm n =
     n\<lparr>m_election_timer :=
         Timer_Reset_callback (ElectionCallback_at trm) random_timeout (m_election_timer n),
       m_election_timeout := random_timeout\<rparr>"

definition ScheduleHeartbeat :: "ConsensusModule \<Rightarrow> ConsensusModule" where
  "ScheduleHeartbeat n = n\<lparr>m_heartbeat_timer := Timer_Reset (m_heartbeat_timer n)\<rparr>"

definition Shutdown :: "ConsensusModule \<Rightarrow> ConsensusModule" where
  "Shutdown n =
     n\<lparr>m_election_timer := Timer_Cancel (m_election_timer n),
       m_heartbeat_timer := Timer_Cancel (m_heartbeat_timer n), m_state := DEAD\<rparr>"

definition ResetToFollower :: "protobuf \<Rightarrow> int \<Rightarrow> int \<Rightarrow> ConsensusModule \<Rightarrow> ConsensusModule result" where
  "ResetToFollower pb random_timeout trm n =
     (let n1 = n\<lparr>m_state := FOLLOWER, m_renew_lease := False, m_lease_holder := False,
                 m_term := trm, m_vote := '''', m_votes_received := 0,
                 m_heartbeat_timer := Timer_Cancel (m_heartbeat_timer n),
                 m_lease_timer := Timer_Cancel (m_lease_timer n)\<rparr>
      in rbind (StoreState pb n1) (\<lambda>n2. Inr (ScheduleElection random_timeout trm n2)))"

definition Module_Append_entry ::
  "protobuf \<Rightarrow> LogEntry \<Rightarrow> ConsensusModule \<Rightarrow> (int \<times> ConsensusModule) result" where
  "Module_Append_entry pb log_entry n =
     rbind (Append_entry pb log_entry (m_log n)) (\<lambda>(log_index, l).
       let n1 = n\<lparr>m_log := l\<rparr> in
       if has_configuration log_entry then
         let n2 = n1\<lparr>m_configuration :=
                       InsertNewConfiguration log_index (entry_configuration log_entry) (m_configuration n1)\<rparr>
         in Inr (log_index, CreateConnections (ServerAddresses (m_configuration n2)) n2)
       else Inr (log_index, n1))"

fun insert_configurations :: "int \<Rightarrow> LogEntry list \<Rightarrow> ConsensusModule \<Rightarrow> ConsensusModule" where
  "insert_configurations i [] n = n"
| "insert_configurations i (e # es) n =
     insert_configurations (i + 1) es
       (if has_configuration e then
          let n1 = n\<lparr>m_configuration :=
                       InsertNewConfiguration i (entry_configuration e) (m_configuration n)\<rparr>
          in CreateConnections (ServerAddresses (m_configuration n1)) n1
        else n)"

definition Module_Append ::
  "protobuf \<Rightarrow> LogEntry list \<Rightarrow> ConsensusModule \<Rightarrow> ((int \<times> int) \<times> ConsensusModule) result" where
  "Module_Append pb new_entries n =
     rbind (Append pb new_entries (m_log n)) (\<lambda>((log_start, log_end), l).
       Inr ((log_start, log_end), insert_configurations log_start new_entries (n\<lparr>m_log := l\<rparr>)))"

definition PromoteToLeader :: "protobuf \<Rightarrow> ConsensusModule \<Rightarrow> ConsensusModule result" where
  "PromoteToLeader pb n =
     (let n1 = n\<lparr>m_state := LEADER, m_votes_received := 0, m_leader_id := ctx_address n,
                 m_election_timer := Timer_Cancel (m_election_timer n)\<rparr>;
          noop_entry = default_entry\<lparr>entry_term := m_term n1, entry_type := NO_OP\<rparr>
      in rbind (Module_Append_entry pb noop_entry n1) (\<lambda>(i, n2). Inr (ScheduleHeartbeat n2)))"

definition StateMachineInit :: "ConsensusModule \<Rightarrow> ConsensusModule" where
  "StateMachineInit n =
     (let (metadata, ok) = Metadata (m_log n);
          n1 = (if ok then n\<lparr>m_term := to_int (md_term metadata), m_vote := md_vote metadata\<rparr> else n);
          n2 = n1\<lparr>m_state_machine :=
                 StateMachine_new (sm_sessions (m_state_machine n1)) (sm_store (m_state_machine n1))\<rparr>;
          n3 = (case LatestConfiguration (m_log n2) of
                  Some (log_index, configuration) \<Rightarrow>
                    n2\<lparr>m_configuration := SetConfiguration log_index configuration (m_configuration n2)\<rparr>
                | None \<Rightarrow> n2);
          n4 = CreateConnections (ServerAddresses (m_configuration n3)) n3;
          peers = filter (\<lambda>p. p \<noteq> ctx_address n4) (ServerAddresses (m_configuration n4))
      in n4\<lparr>m_next_index := fold (\<lambda>p m. AList.update p 0 m) peers (m_next_index n4),
            m_match_index := fold (\<lambda>p m. AList.update p (-1) m) peers (m_match_index n4),
            m_election_timer := CreateTimer ELECTION_TIMEOUT (ElectionCallback_at (m_term n4)),
            m_heartbeat_timer := CreateTimer HEARTBEAT_TIMEOUT HeartbeatCallback_bound,
            m_lease_timer := CreateTimer LEADER_LEASE_TIMEOUT (ResetToFollower_at (m_term n4))\<rparr>)"

definition InitializeConfiguration :: "protobuf \<Rightarrow> ConsensusModule \<Rightarrow> ConsensusModule result" where
  "InitializeConfiguration pb n =
     (if m_term n \<noteq> 0 \<or> LastLogIndex (m_log n) \<noteq> -1 \<or>
         length (ServerAddresses (m_configuration n)) > 0
      then PromoteToLeader pb n
      else
        rbind (PromoteToLeader pb n) (\<lambda>n1.
          let configuration = empty_configuration\<lparr>prev_configuration := [\<lparr>address = ctx_address n1\<rparr>]\<rparr>;
              log_entry = default_entry\<lparr>entry_term := 0, entry_type := CONFIGURATION,
                                        entry_data := ConfigurationData configuration\<rparr>
          in rbind (Module_Append_entry pb log_entry n1) (\<lambda>(i, n2). Inr n2)))"

subsection \<open>Committing\<close>

text \<open>Which waiting calls \<open>CommitEntries\<close> wakes.\<close>

fun commit_notification :: "LogOpCode \<Rightarrow> CondVar list" where
  "commit_notification DATA = [Write_command_sync]"
| "commit_notification REGISTER_CLIENT = [Session_sync]"
| "commit_notification _ = []"

definition CommitEntries :: "LogEntry list \<Rightarrow> ConsensusModule \<Rightarrow> ConsensusModule" where
  "CommitEntries es n =
     n\<lparr>m_notified := m_notified n @ concat (map (\<lambda>e. commit_notification (entry_type e)) es)\<rparr>"

text \<open>The peers whose match index has reached \<open>i\<close>, added to \<open>acc\<close>.\<close>

fun match_peers_loop ::
  "int \<Rightarrow> string list \<Rightarrow> string uset \<Rightarrow> (string \<times> int) list \<Rightarrow> string uset \<times> (string \<times> int) list" where
  "match_peers_loop i [] acc m = (acc, m)"
| "match_peers_loop i (p # ps) acc m =
     (let (v, m') = map_get p m in match_peers_loop i ps (if v \<ge> i then uset_insert p acc else acc) m')"

text \<open>
  The loop of \<open>UpdateCommitIndex\<close> over the entries from \<open>i\<close> on: the largest index of the
  current term that a quorum has stored.
\<close>

fun commit_scan ::
  "ClusterConfiguration \<Rightarrow> string \<Rightarrow> int \<Rightarrow> int \<Rightarrow> LogEntry list \<Rightarrow> int \<Rightarrow> (string \<times> int) list \<Rightarrow>
   int \<times> (string \<times> int) list" where
  "commit_scan conf self trm i [] new_commit m = (new_commit, m)"
| "commit_scan conf self trm i (e # es) new_commit m =
     (if entry_term e = trm then
        let (match_peers, m') = match_peers_loop i (ServerAddresses conf) [self] m
        in commit_scan conf self trm (i + 1) es (if CheckQuorum match_peers conf then i else new_commit) m'
      else commit_scan conf self trm (i + 1) es new_commit m)"

text \<open>\<open>while (next_log_index < new_commit_index)\<close>: the entries behind \<open>next_log_index\<close>.\<close>

function collect_entries :: "PersistedLog \<Rightarrow> int \<Rightarrow> int \<Rightarrow> LogEntry list result" where
  "collect_entries l next_log_index new_commit_index =
     (if next_log_index < new_commit_index then
        rbind (Entry l (next_log_index + 1)) (\<lambda>e.
        rbind (collect_entries l (next_log_index + 1) new_commit_index) (\<lambda>es. Inr (e # es)))
      else Inr [])"
  by pat_completeness auto
termination
  by (relation "measure (\<lambda>(l, i, j). nat (j - i))") auto

declare collect_entries.simps [simp del]

definition notify :: "CondVar \<Rightarrow> ConsensusModule \<Rightarrow> ConsensusModule" where
  "notify cv n = n\<lparr>m_notified := m_notified n @ [cv]\<rparr>"

text \<open>The part of \<open>UpdateCommitIndex\<close> up to and including \<open>CommitEntries\<close>.\<close>

definition advance_commit :: "ConsensusModule \<Rightarrow> ConsensusModule result" where
  "advance_commit n =
     (let saved_commit_index = m_commit_index n;
          log_size = LogSize (m_log n)
      in rbind (Entries (m_log n) (saved_commit_index + 1) log_size) (\<lambda>es.
           let (new_commit_index, m) =
                 commit_scan (m_configuration n) (ctx_address n) (m_term n) (saved_commit_index + 1) es
                   saved_commit_index (m_match_index n);
               n1 = n\<lparr>m_match_index := m\<rparr>
           in if new_commit_index \<noteq> saved_commit_index then
                let n2 = n1\<lparr>m_commit_index := new_commit_index\<rparr> in
                rbind (collect_entries (m_log n2) (LastApplied (m_state_machine n2)) new_commit_index)
                  (\<lambda>uncommited. Inr (CommitEntries uncommited n2))
              else Inr n1))"

definition UpdateCommitIndex :: "protobuf \<Rightarrow> int \<Rightarrow> ConsensusModule \<Rightarrow> ConsensusModule result" where
  "UpdateCommitIndex pb random_timeout n =
     rbind (advance_commit n) (\<lambda>n1.
       if m_commit_index n1 \<ge> m_id (m_configuration n1) then
         let n2 = notify Membership_sync n1 in
         if \<not> KnownServer (ctx_address n2) (m_configuration n2) then
           if m_term n2 + 1 < 2 ^ 31 then ResetToFollower pb random_timeout (m_term n2 + 1) n2
           else Inl Undefined_behaviour
         else if cc_state (m_configuration n2) = CONF_JOINT then
           let entry = default_entry\<lparr>entry_term := m_term n2, entry_type := CONFIGURATION,
                 entry_data := ConfigurationData (empty_configuration\<lparr>prev_configuration :=
                   next_configuration (m_current_configuration (m_configuration n2))\<rparr>)\<rparr>
           in rbind (Module_Append_entry pb entry n2) (\<lambda>(i, n3). Inr n3)
         else Inr n2
       else Inr n1)"

subsection \<open>Timer callbacks\<close>

definition request_votes :: "int \<Rightarrow> int \<Rightarrow> int \<Rightarrow> ConsensusModule \<Rightarrow> ConsensusModule" where
  "request_votes saved_term last_log_index last_log_term n =
     fold (\<lambda>peer_id n'. if peer_id = ctx_address n' then n'
                        else Client_RequestVote peer_id saved_term last_log_index last_log_term n')
       (ServerAddresses (m_configuration n)) n"

definition ElectionCallback :: "protobuf \<Rightarrow> env \<Rightarrow> int \<Rightarrow> ConsensusModule \<Rightarrow> ConsensusModule result" where
  "ElectionCallback pb e trm n =
     (if m_state n \<noteq> CANDIDATE \<and> m_state n \<noteq> FOLLOWER then Inr n
      else if m_term n \<noteq> trm then Inr n
      else if m_commit_index n \<ge> m_id (m_configuration n) \<and>
              \<not> KnownServer (ctx_address n) (m_configuration n)
      then Inr (ScheduleElection (draw e 0) trm n)
      else
        let n1 = n\<lparr>m_state := CANDIDATE, m_term := to_int (m_term n + 1), m_vote := ctx_address n,
                   m_votes_received := 1\<rparr>;
            saved_term = m_term n1
        in rbind (StoreState pb n1) (\<lambda>n2.
          if length (ServerAddresses (m_configuration n2)) = 1 \<and>
             KnownServer (ctx_address n2) (m_configuration n2)
          then PromoteToLeader pb n2
          else
            let last_log_index = LastLogIndex (m_log n2) in
            rbind (LastLogTerm (m_log n2)) (\<lambda>last_log_term.
              Inr (ScheduleElection (draw e 0) saved_term
                     (request_votes saved_term last_log_index last_log_term n2)))))"

fun heartbeat_loop :: "int \<Rightarrow> string list \<Rightarrow> ConsensusModule \<Rightarrow> ConsensusModule result" where
  "heartbeat_loop saved_term [] n = Inr n"
| "heartbeat_loop saved_term (peer_id # ps) n =
     (if peer_id = ctx_address n then heartbeat_loop saved_term ps n
      else
        let (nxt, m) = map_get peer_id (m_next_index n);
            n1 = n\<lparr>m_next_index := m\<rparr>;
            prev_log_index = nxt - 1
        in rbind (if prev_log_index \<ge> 0
                  then rbind (Entry (m_log n1) prev_log_index) (\<lambda>e. Inr (to_int (entry_term e)))
                  else Inr (-1)) (\<lambda>prev_log_term.
           rbind (Entries (m_log n1) nxt (LogSize (m_log n1))) (\<lambda>entries.
             heartbeat_loop saved_term ps
               (Client_AppendEntries peer_id saved_term prev_log_index prev_log_term entries
                  (m_commit_index n1) n1))))"

definition HeartbeatCallback :: "protobuf \<Rightarrow> env \<Rightarrow> ConsensusModule \<Rightarrow> ConsensusModule result" where
  "HeartbeatCallback pb e n =
     (if m_state n \<noteq> LEADER then Inr n
      else
        let n1 = n\<lparr>m_heartbeat_time := clock e 0, m_renew_lease := True,
                   m_responding_peers := [ctx_address n]\<rparr>
        in rbind (heartbeat_loop (m_term n1) (ServerAddresses (m_configuration n1)) n1) (\<lambda>n2.
           rbind (if length (ServerAddresses (m_configuration n2)) = 1 \<and>
                     KnownServer (ctx_address n2) (m_configuration n2)
                  then UpdateCommitIndex pb (draw e 0) n2 else Inr n2) (\<lambda>n3.
             Inr (ScheduleHeartbeat n3))))"

text \<open>What a timer runs when it fires.\<close>

definition run_callback :: "protobuf \<Rightarrow> env \<Rightarrow> Callback \<Rightarrow> ConsensusModule \<Rightarrow> ConsensusModule result" where
  "run_callback pb e cb n =
     (case cb of
        ElectionCallback_at trm \<Rightarrow> ElectionCallback pb e trm n
      | HeartbeatCallback_bound \<Rightarrow> HeartbeatCallback pb e n
      | ResetToFollower_at trm \<Rightarrow> ResetToFollower pb (draw e 0) trm n)"

subsection \<open>RequestVote\<close>

definition ProcessRequestVoteClientRequest ::
  "protobuf \<Rightarrow> env \<Rightarrow> RequestVote_Request \<Rightarrow> ConsensusModule \<Rightarrow>
   ((RequestVote_Response \<times> Status) \<times> ConsensusModule) result" where
  "ProcessRequestVoteClientRequest pb e request n =
     (if m_state n = DEAD
      then Inr ((\<lparr>rvr_term = 0, rvr_voteGranted = False\<rparr>, Status_CANCELLED), n)
      else if clock e 0 \<le> m_election_deadline n \<or> m_state n = LEADER
      then Inr ((\<lparr>rvr_term = m_term n, rvr_voteGranted = False\<rparr>, Status_OK), n)
      else
        rbind (if rv_term request > m_term n
               then ResetToFollower pb (draw e 0) (to_int (rv_term request)) n else Inr n) (\<lambda>n1.
        let last_log_index = LastLogIndex (m_log n1) in
        rbind (LastLogTerm (m_log n1)) (\<lambda>last_log_term.
          if rv_term request = m_term n1 \<and>
             (m_vote n1 = '''' \<or> m_vote n1 = rv_candidateId request) \<and>
             (rv_lastLogTerm request > last_log_term \<or>
              (rv_lastLogTerm request = last_log_term \<and> rv_lastLogIndex request \<ge> last_log_index))
          then
            rbind (StoreState pb (n1\<lparr>m_vote := rv_candidateId request\<rparr>)) (\<lambda>n2.
              let n3 = ScheduleElection (draw e 1) (to_int (rv_term request)) n2
              in Inr ((\<lparr>rvr_term = m_term n3, rvr_voteGranted = True\<rparr>, Status_OK), n3))
          else Inr ((\<lparr>rvr_term = m_term n1, rvr_voteGranted = False\<rparr>, Status_OK), n1))))"

definition ProcessRequestVoteServerResponse ::
  "protobuf \<Rightarrow> env \<Rightarrow> RequestVote_Request \<Rightarrow> RequestVote_Response \<Rightarrow> string \<Rightarrow> ConsensusModule \<Rightarrow>
   ConsensusModule result" where
  "ProcessRequestVoteServerResponse pb e request reply addr n =
     (if m_state n \<noteq> CANDIDATE then Inr n
      else if rvr_term reply > rv_term request
      then ResetToFollower pb (draw e 0) (to_int (rvr_term reply)) n
      else if rvr_term reply = rv_term request \<and> rvr_voteGranted reply then
        let n1 = n\<lparr>m_votes_received := m_votes_received n + 1\<rparr> in
        if size_t_of_int (m_votes_received n1 * 2) > int (length (ServerAddresses (m_configuration n1)))
        then PromoteToLeader pb n1 else Inr n1
      else Inr n)"

subsection \<open>AppendEntries\<close>

text \<open>
  The consistency check at \<open>prevLogIndex\<close>. \<open>Entry\<close> takes an \<open>int\<close>; a negative index
  other than -1 reaches it and throws.
\<close>

definition prev_entry_matches :: "AppendEntries_Request \<Rightarrow> PersistedLog \<Rightarrow> bool result" where
  "prev_entry_matches request l =
     (if ae_prevLogIndex request = -1 then Inr True
      else if ae_prevLogIndex request < LogSize l
      then rbind (Entry l (to_int (ae_prevLogIndex request))) (\<lambda>e. Inr (ae_prevLogTerm request = entry_term e))
      else Inr False)"

text \<open>Comparing, truncating at a conflict and appending what is missing.\<close>

definition replicate_entries ::
  "protobuf \<Rightarrow> AppendEntries_Request \<Rightarrow> ConsensusModule \<Rightarrow> ConsensusModule result" where
  "replicate_entries pb request n =
     rbind (ae_scan (LogSize (m_log n)) (Entry (m_log n)) (to_int (ae_prevLogIndex request + 1))
              (ae_entries request)) (\<lambda>(log_insert_index, new_entries, conflict).
     rbind (if conflict then
              rbind (TruncateSuffix log_insert_index (m_log n)) (\<lambda>l.
              rbind (Config_TruncateSuffix log_insert_index (m_configuration n)) (\<lambda>conf.
                Inr (n\<lparr>m_log := l, m_configuration := conf\<rparr>)))
            else Inr n) (\<lambda>n1.
       if new_entries \<noteq> [] then rbind (Module_Append pb new_entries n1) (\<lambda>(ix, n2). Inr n2)
       else Inr n1))"

definition follower_commit :: "AppendEntries_Request \<Rightarrow> ConsensusModule \<Rightarrow> ConsensusModule result" where
  "follower_commit request n =
     (if ae_leaderCommit request > m_commit_index n then
        let saved_commit_index = m_commit_index n;
            new_commit_index = min (to_int (ae_leaderCommit request)) (LogSize (m_log n));
            n1 = n\<lparr>m_commit_index := new_commit_index\<rparr>
        in rbind (collect_entries (m_log n1) (LastApplied (m_state_machine n1)) new_commit_index) (\<lambda>uncommited.
             let n2 = CommitEntries uncommited n1 in
             rbind (apply_loop saved_commit_index uncommited (m_state_machine n2)) (\<lambda>sm.
               Inr (n2\<lparr>m_state_machine := sm\<rparr>)))
      else Inr n)"

definition ProcessAppendEntriesClientRequest ::
  "protobuf \<Rightarrow> env \<Rightarrow> AppendEntries_Request \<Rightarrow> ConsensusModule \<Rightarrow>
   ((AppendEntries_Response \<times> Status) \<times> ConsensusModule) result" where
  "ProcessAppendEntriesClientRequest pb e request n =
     (if m_state n = DEAD
      then Inr ((\<lparr>aer_term = 0, aer_success = False\<rparr>, Status_CANCELLED), n)
      else
        rbind (if ae_term request > m_term n
               then ResetToFollower pb (draw e 0) (to_int (ae_term request)) n else Inr n) (\<lambda>n1.
        rbind (if ae_term request = m_term n1 then
                 rbind (if m_state n1 \<noteq> FOLLOWER
                        then ResetToFollower pb (draw e 1) (to_int (ae_term request)) n1
                        else let n2 = ScheduleElection (draw e 1) (to_int (ae_term request)) n1
                             in Inr (n2\<lparr>m_election_deadline := clock e 0 + m_election_timeout n2\<rparr>)) (\<lambda>n2.
                 rbind (prev_entry_matches request (m_log n2)) (\<lambda>matches.
                   if matches then
                     rbind (replicate_entries pb request (n2\<lparr>m_leader_id := ae_leaderId request\<rparr>)) (\<lambda>n3.
                     rbind (follower_commit request n3) (\<lambda>n4. Inr (True, n4)))
                   else Inr (False, n2)))
               else Inr (False, n1)) (\<lambda>(success, n5).
          let n6 = ScheduleElection (draw e 2) (to_int (ae_term request)) n5;
              n7 = n6\<lparr>m_election_deadline := clock e 1 + m_election_timeout n6\<rparr>
          in Inr ((\<lparr>aer_term = m_term n7, aer_success = success\<rparr>, Status_OK), n7))))"

text \<open>Acquiring the leader lease.\<close>

definition renew_lease :: "env \<Rightarrow> string \<Rightarrow> ConsensusModule \<Rightarrow> ConsensusModule" where
  "renew_lease e addr n =
     (let n1 = n\<lparr>m_responding_peers := uset_insert addr (m_responding_peers n)\<rparr> in
      if m_renew_lease n1 \<and> CheckQuorum (m_responding_peers n1) (m_configuration n1) then
        let commit_delay = to_int (clock e 0 - m_heartbeat_time n1);
            lease_expiry = LEADER_LEASE_TIMEOUT - commit_delay
        in n1\<lparr>m_lease_timer := Timer_Reset_delay lease_expiry (m_lease_timer n1),
              m_lease_holder := True, m_renew_lease := False\<rparr>
      else n1)"

definition ProcessAppendEntriesServerResponse ::
  "protobuf \<Rightarrow> env \<Rightarrow> AppendEntries_Request \<Rightarrow> AppendEntries_Response \<Rightarrow> string \<Rightarrow> ConsensusModule \<Rightarrow>
   ConsensusModule result" where
  "ProcessAppendEntriesServerResponse pb e request reply addr n =
     rbind (if aer_term reply > ae_term request
            then ResetToFollower pb (draw e 0) (to_int (aer_term reply)) (n\<lparr>m_leader_id := ''''\<rparr>)
            else Inr n) (\<lambda>n1.
       if m_state n1 = LEADER \<and> aer_term reply = m_term n1 then
         let (nxt, m) = map_get addr (m_next_index n1);
             n2 = n1\<lparr>m_next_index := m\<rparr>
         in if aer_success reply then
              let n3 = renew_lease e addr n2;
                  size = int (length (ae_entries request));
                  n4 = n3\<lparr>m_next_index := AList.update addr (nxt + size) (m_next_index n3),
                          m_match_index := AList.update addr (nxt + size - 1) (m_match_index n3)\<rparr>
              in rbind (UpdateSyncProgress addr (nxt + size - 1) (m_configuration n4)) (\<lambda>(progress, conf).
                   let n5 = n4\<lparr>m_configuration := conf\<rparr> in
                   UpdateCommitIndex pb (draw e 1) (if progress then notify Membership_sync n5 else n5))
            else Inr (n2\<lparr>m_next_index := AList.update addr (nxt - 1) (m_next_index n2)\<rparr>)
       else Inr n1)"

subsection \<open>Cluster membership calls\<close>

definition ConstructError :: "string \<Rightarrow> ErrorCode \<Rightarrow> ConsensusModule \<Rightarrow> Status" where
  "ConstructError err_msg code n =
     Status_UNKNOWN err_msg code (if code = NOT_LEADER then m_leader_id n else '''')"

text \<open>
  The two error tuples of \<open>ProcessGetConfigurationClientRequest\<close> are built and dropped, since
  the statements lack a \<open>return\<close>: they have no effect on what the call does.
\<close>

definition ProcessGetConfigurationClientRequest ::
  "ConsensusModule \<Rightarrow> GetConfiguration_Response \<times> Status" where
  "ProcessGetConfigurationClientRequest n =
     (\<lparr>gcr_id = m_id (m_configuration n),
       gcr_servers = prev_configuration (m_current_configuration (m_configuration n))\<rparr>, Status_OK)"

text \<open>
  \<open>ProcessSetConfigurationClientRequest\<close>: where a call stands. The check for a stable
  configuration has no effect either, for the same reason.
\<close>

datatype SetConfiguration_pc =
    SC_syncing int Configuration
  | SC_waiting int Configuration
  | SC_committing int int
  | SC_done SetConfiguration_Response Status

definition SetConfiguration_begin ::
  "SetConfiguration_Request \<Rightarrow> ConsensusModule \<Rightarrow> SetConfiguration_pc \<times> ConsensusModule" where
  "SetConfiguration_begin request n =
     (if m_state n \<noteq> LEADER
      then (SC_done \<lparr>scr_ok = False\<rparr> (ConstructError ''Peer is not a leader'' NOT_LEADER n), n)
      else if m_id (m_configuration n) \<noteq> sc_oldId request
      then (SC_done \<lparr>scr_ok = False\<rparr>
              (ConstructError ''Cluster configuration out of date'' OUT_OF_DATE n), n)
      else
        let new_configuration =
              \<lparr>prev_configuration = prev_configuration (m_current_configuration (m_configuration n)),
               next_configuration = sc_new_servers request\<rparr>;
            n1 = n\<lparr>m_configuration :=
                   StartLogSync (m_commit_index n) (map address (sc_new_servers request)) (m_configuration n)\<rparr>;
            n2 = CreateConnections (ServerAddresses (m_configuration n1)) n1
        in (SC_syncing (m_term n) new_configuration, n2))"

text \<open>
  The synchronisation loop. At \<open>SC_syncing\<close> the call is at the head of the loop, with the loop
  test and the term check before it; at \<open>SC_waiting\<close> it is in the wait, which ends when its
  predicate \<open>SyncProgress\<close> holds or, as \<open>timed_out\<close> tells, by its timeout.
\<close>

definition SetConfiguration_sync ::
  "protobuf \<Rightarrow> int \<Rightarrow> Configuration \<Rightarrow> ConsensusModule \<Rightarrow> (SetConfiguration_pc \<times> ConsensusModule) result" where
  "SetConfiguration_sync pb saved_term new_configuration n =
     rbind (SyncComplete (m_configuration n)) (\<lambda>complete.
       if complete then
         let configuration_entry = default_entry\<lparr>entry_term := m_term n, entry_type := CONFIGURATION,
               entry_data := ConfigurationData new_configuration\<rparr>
         in rbind (Module_Append_entry pb configuration_entry n) (\<lambda>(joint_id, n1).
              Inr (SC_committing saved_term joint_id, n1))
       else if m_term n \<noteq> saved_term then
         let n1 = n\<lparr>m_configuration := CancelLogSync (m_configuration n)\<rparr>
         in Inr (SC_done \<lparr>scr_ok = False\<rparr> (ConstructError ''Peer is not a leader'' NOT_LEADER n1), n1)
       else Inr (SC_waiting saved_term new_configuration, n))"

definition SetConfiguration_wait ::
  "bool \<Rightarrow> int \<Rightarrow> Configuration \<Rightarrow> ConsensusModule \<Rightarrow> (SetConfiguration_pc \<times> ConsensusModule) result" where
  "SetConfiguration_wait timed_out saved_term new_configuration n =
     rbind (SyncProgress (m_configuration n)) (\<lambda>progress.
       if progress then Inr (SC_syncing saved_term new_configuration, n)
       else if timed_out then
         let n1 = n\<lparr>m_configuration := CancelLogSync (m_configuration n)\<rparr>
         in Inr (SC_done \<lparr>scr_ok = False\<rparr> (ConstructError ''Peer log sync timed out'' TIMEOUT n1), n1)
       else Inr (SC_waiting saved_term new_configuration, n))"

text \<open>The last wait: the call stays where it is until the predicate holds.\<close>

definition SetConfiguration_commit ::
  "int \<Rightarrow> int \<Rightarrow> ConsensusModule \<Rightarrow> SetConfiguration_pc" where
  "SetConfiguration_commit saved_term joint_id n =
     (if m_id (m_configuration n) > joint_id \<and> m_commit_index n \<ge> m_id (m_configuration n)
      then SC_done \<lparr>scr_ok = True\<rparr> Status_OK
      else if m_term n \<noteq> saved_term
      then SC_done \<lparr>scr_ok = False\<rparr> (ConstructError ''Peer is not a leader'' NOT_LEADER n)
      else SC_committing saved_term joint_id)"

subsection \<open>Client calls\<close>

text \<open>
  A call that waits for its entry: the index and term the predicate of the wait reads, and the
  entry itself.
\<close>

record waiting_call =
  wait_index :: int
  wait_term :: int
  wait_entry :: LogEntry

definition wait_over :: "waiting_call \<Rightarrow> ConsensusModule \<Rightarrow> bool" where
  "wait_over w n \<longleftrightarrow> m_commit_index n \<ge> wait_index w \<or> m_term n \<noteq> wait_term w"

definition increment_applied :: "ConsensusModule \<Rightarrow> ConsensusModule" where
  "increment_applied n = n\<lparr>m_state_machine := IncrementLastApplied (m_state_machine n)\<rparr>"

definition RegisterClient_begin ::
  "protobuf \<Rightarrow> ConsensusModule \<Rightarrow>
   (((RegisterClient_Response \<times> Status) + waiting_call) \<times> ConsensusModule) result" where
  "RegisterClient_begin pb n =
     (if m_state n \<noteq> LEADER
      then Inr (Inl (\<lparr>rcr_status = False, rcr_clientId = 0, rcr_leaderHint = ''''\<rparr>,
                     ConstructError ''Peer is not a leader'' NOT_LEADER n), n)
      else
        let session_entry = default_entry\<lparr>entry_term := m_term n, entry_type := REGISTER_CLIENT\<rparr> in
        rbind (Module_Append_entry pb session_entry n) (\<lambda>(session_id, n1).
          Inr (Inr \<lparr>wait_index = session_id, wait_term = m_term n, wait_entry = session_entry\<rparr>, n1)))"

definition RegisterClient_resume ::
  "waiting_call \<Rightarrow> ConsensusModule \<Rightarrow> ((RegisterClient_Response \<times> Status) \<times> ConsensusModule) result" where
  "RegisterClient_resume w n =
     (if m_term n \<noteq> wait_term w
      then Inr ((\<lparr>rcr_status = False, rcr_clientId = 0, rcr_leaderHint = ''''\<rparr>,
                 ConstructError ''Peer is not a leader'' NOT_LEADER n), increment_applied n)
      else
        rbind (ApplyCommand (wait_index w) (wait_entry w) (m_state_machine n)) (\<lambda>(r, sm).
          Inr ((\<lparr>rcr_status = True, rcr_clientId = wait_index w, rcr_leaderHint = ''''\<rparr>, Status_OK),
               n\<lparr>m_state_machine := sm\<rparr>)))"

definition empty_reply :: ClientRequest_Response where
  "empty_reply = \<lparr>crr_status = False, crr_response = '''', crr_leaderHint = ''''\<rparr>"

definition ClientRequest_begin ::
  "protobuf \<Rightarrow> ClientRequest_Request \<Rightarrow> ConsensusModule \<Rightarrow>
   (((ClientRequest_Response \<times> Status) + waiting_call) \<times> ConsensusModule) result" where
  "ClientRequest_begin pb request n =
     (if m_state n \<noteq> LEADER
      then Inr (Inl (empty_reply, ConstructError ''Peer is not a leader'' NOT_LEADER n), n)
      else
        let write_entry = default_entry\<lparr>entry_term := m_term n, entry_type := DATA,
                                        entry_data := BytesData (cr_command request)\<rparr> in
        rbind (Module_Append_entry pb write_entry n) (\<lambda>(write_id, n1).
          Inr (Inr \<lparr>wait_index = write_id, wait_term = m_term n, wait_entry = write_entry\<rparr>, n1)))"

definition set_sessions :: "SessionCache \<Rightarrow> ConsensusModule \<Rightarrow> ConsensusModule" where
  "set_sessions c n = n\<lparr>m_state_machine := (m_state_machine n)\<lparr>sm_sessions := c\<rparr>\<rparr>"

text \<open>The client identifier and sequence number are narrowed to the \<open>int\<close> of the cache.\<close>

definition ClientRequest_resume ::
  "ClientRequest_Request \<Rightarrow> waiting_call \<Rightarrow> ConsensusModule \<Rightarrow>
   ((ClientRequest_Response \<times> Status) \<times> ConsensusModule) result" where
  "ClientRequest_resume request w n =
     (if m_term n \<noteq> wait_term w
      then Inr ((empty_reply, ConstructError ''Peer is not a leader'' NOT_LEADER n), increment_applied n)
      else
        let client = to_int (cr_clientId request);
            seq = to_int (cr_sequenceNum request);
            sessions = sm_sessions (m_state_machine n)
        in if \<not> SessionExists client sessions
           then Inr ((empty_reply, ConstructError ''Client session has expired'' SESSION_EXPIRED n),
                     increment_applied n)
           else
             rbind (GetCachedResponse client seq empty_reply sessions) (\<lambda>(hit, cached_reply, c).
               let n1 = set_sessions c n in
               if hit then Inr ((cached_reply, Status_OK), increment_applied n1)
               else
                 rbind (ApplyCommand (wait_index w) (wait_entry w) (m_state_machine n1)) (\<lambda>(response, sm).
                   let reply = empty_reply\<lparr>crr_response := response, crr_status := True\<rparr>;
                       n2 = n1\<lparr>m_state_machine := sm\<rparr>
                   in rbind (CacheResponse client seq reply (sm_sessions (m_state_machine n2))) (\<lambda>c2.
                        Inr ((reply, Status_OK), set_sessions c2 n2)))))"

definition ProcessClientQueryClientRequest ::
  "ClientQuery_Request \<Rightarrow> ConsensusModule \<Rightarrow> ClientQuery_Response \<times> Status" where
  "ProcessClientQueryClientRequest request n =
     (let reply = \<lparr>cqr_status = False, cqr_response = '''', cqr_leaderHint = ''''\<rparr> in
      if m_state n \<noteq> LEADER
      then (reply, ConstructError ''Peer is not a leader'' NOT_LEADER n)
      else if \<not> m_lease_holder n
      then (reply, ConstructError ''Leader does not own lease to serve reads'' LEASE_EXPIRED n)
      else case Store_Read (cq_query request) (sm_store (m_state_machine n)) of
        Inl e \<Rightarrow> (reply, ConstructError ''Key does not exist'' UNEXPECTED_ERROR n)
      | Inr response \<Rightarrow> (reply\<lparr>cqr_response := response, cqr_status := True\<rparr>, Status_OK))"

end
