(* ===== verification/Storage_Properties.thy ===== *)
theory Storage_Properties
  imports Raft_Log_Interface Persisted_Log_Truncate Persisted_Metadata
begin

section \<open>Properties of the storage component\<close>

text \<open>
  The properties of \<open>PersistedLog\<close> that its clients depend on: the log reads and writes like a
  list, a restart recovers the metadata written last, file names lead back to their page; and
  two exact descriptions of when the log stops behaving like a list.
\<close>

subsection \<open>A codec and sample logs\<close>

text \<open>
  The serialisation laws have a model: the messages of a table, each written as its position in
  unary behind which a terminator stands.
\<close>

fun table_index :: "'m \<Rightarrow> 'm list \<Rightarrow> nat option" where
  "table_index m [] = None"
| "table_index m (x # xs) = (if x = m then Some 0 else map_option Suc (table_index m xs))"

definition table_codec :: "'m list \<Rightarrow> 'm codec" where
  "table_codec ms =
     \<lparr>ByteSizeLong = (\<lambda>m. case table_index m ms of None \<Rightarrow> 0 | Some i \<Rightarrow> i),
      SerializeDelimited =
        (\<lambda>m. map_option (\<lambda>i. replicate i (CHR ''x'') @ ''.'') (table_index m ms)),
      ParseDelimited =
        (\<lambda>t bs. let i = length (takeWhile (\<lambda>c. c = CHR ''x'') bs)
                in if i < length bs \<and> bs ! i = CHR ''.'' \<and> i < length ms
                   then Some (ms ! i, Suc i) else None)\<rparr>"

lemma table_index_Some: "table_index m ms = Some i \<Longrightarrow> i < length ms \<and> ms ! i = m"
  by (induction ms arbitrary: i) (auto split: if_splits)

lemma codec_ok_table: "codec_ok d (table_codec ms)"
proof -
  have "takeWhile (\<lambda>c. c = CHR ''x'') (replicate i (CHR ''x'') @ CHR ''.'' # rest) =
    replicate i (CHR ''x'')" for i rest
    by (subst takeWhile_append2) auto
  then show ?thesis
    by (auto simp: codec_ok_def table_codec_def Let_def nth_append dest: table_index_Some)
qed

definition sample_entry :: "int \<Rightarrow> bytes \<Rightarrow> LogEntry" where
  "sample_entry t b = \<lparr>entry_term = t, entry_type = DATA, entry_data = BytesData b\<rparr>"

definition sample_metadata :: LogMetadata where
  "sample_metadata = \<lparr>md_version = 1, md_term = 4, md_vote = ''n2''\<rparr>"

definition sample_pb :: protobuf where
  "sample_pb =
     \<lparr>entry_codec = table_codec [sample_entry 1 ''a:1'', sample_entry 1 ''b:2'', sample_entry 2 ''c:3''],
      metadata_codec = table_codec [sample_metadata]\<rparr>"

text \<open>The log that the constructor makes when nothing is restored.\<close>

definition fresh_log :: "string \<Rightarrow> int \<Rightarrow> file_system \<Rightarrow> PersistedLog" where
  "fresh_log d n fs =
     \<lparr>m_log_size = 0, m_metadata = default_metadata, m_open_page = Some 0, m_dir = d,
      m_log_indices = [(0, 0)], m_max_file_size = n,
      page_heap = [\<lparr>is_open = True, byte_offset = 0, start_index = 0, end_index = 0, page_dir = d,
                    filename = open_name 0, log_entries = [], max_file_size = n\<rparr>],
      disk = fs_touch (d @ open_name 0) fs\<rparr>"

lemma PersistedLog_new_fresh: "PersistedLog_new pb d False n fs = Inr (fresh_log d n fs)"
  by (simp add: PersistedLog_new_def make_page_def Page_new_def fresh_log_def Let_def)

lemma fresh_log_inv: "0 \<le> n \<Longrightarrow> n < 2 ^ 31 \<Longrightarrow> log_inv (fresh_log d n fs)"
  by (rule log_invI [where r = 0 and m = "[]"]) (auto simp: fresh_log_def page_ok_def)

lemma fresh_log_list [simp]: "log_list (fresh_log d n fs) = []"
  by (simp add: fresh_log_def log_list_def log_records_def)

lemma fresh_open_start [simp]: "open_start (fresh_log d n fs) = 0"
  by (simp add: fresh_log_def open_start_def)

text \<open>A log of three entries on two pages: the third entry does not fit on the first page.\<close>

definition sample_log :: PersistedLog where
  "sample_log =
     snd (projr (Append sample_pb
       [sample_entry 1 ''b:2'', sample_entry 1 ''a:1'', sample_entry 2 ''c:3''] (fresh_log ''/d/'' 2 [])))"

text \<open>The value of the sample, kept so that later evaluations start from it.\<close>

lemma sample_log_value [code]:
  "sample_log =
     \<lparr>m_log_size = 3, m_metadata = \<lparr>md_version = 0, md_term = 0, md_vote = []\<rparr>,
      m_open_page = Some 1, m_dir = ''/d/'', m_log_indices = [(0, 0), (2, 1)], m_max_file_size = 2,
      page_heap =
        [\<lparr>is_open = False, byte_offset = 1, start_index = 0, end_index = 2, page_dir = ''/d/'',
          filename = ''00000000000000000000-00000000000000000002'',
          log_entries = [\<lparr>rec_entry = sample_entry 1 ''b:2'', rec_offset = 0\<rparr>,
                         \<lparr>rec_entry = sample_entry 1 ''a:1'', rec_offset = 1\<rparr>], max_file_size = 2\<rparr>,
         \<lparr>is_open = True, byte_offset = 2, start_index = 2, end_index = 3, page_dir = ''/d/'',
          filename = ''open-2'',
          log_entries = [\<lparr>rec_entry = sample_entry 2 ''c:3'', rec_offset = 0\<rparr>], max_file_size = 2\<rparr>],
      disk = [(''/d/00000000000000000000-00000000000000000002'', ''x..''), (''/d/open-2'', ''xx.'')]\<rparr>"
  by code_simp

lemma sample_entries_fit [simp]:
  "m_max_file_size l = 2 \<Longrightarrow> entry_fits sample_pb l (sample_entry 1 ''a:1'')"
  "m_max_file_size l = 2 \<Longrightarrow> entry_fits sample_pb l (sample_entry 1 ''b:2'')"
  "m_max_file_size l = 2 \<Longrightarrow> entry_fits sample_pb l (sample_entry 2 ''c:3'')"
  by (simp_all add: entry_fits_def sample_pb_def table_codec_def sample_entry_def)

lemma fresh_log_max [simp]: "m_max_file_size (fresh_log d n fs) = n"
  by (simp add: fresh_log_def)

lemma sample_log_inv:
  "log_inv sample_log" "m_max_file_size sample_log = 2"
  "log_list sample_log = [sample_entry 1 ''b:2'', sample_entry 1 ''a:1'', sample_entry 2 ''c:3'']"
  using Append_inv [OF fresh_log_inv [of 2 "''/d/''" "[]"],
      of "[sample_entry 1 ''b:2'', sample_entry 1 ''a:1'', sample_entry 2 ''c:3'']" sample_pb]
  by (auto simp: sample_log_def)

lemma sample_log_open_start: "open_start sample_log = 2"
  by code_simp

subsection \<open>The log reads like a list\<close>

text \<open>
  C3. Readers. In a log whose pages tile its indices, \<open>Entry\<close> is list access, \<open>Entries\<close>
  terminates with exactly the requested slice, across any number of pages, both throw
  \<open>out_of_range\<close> precisely outside the log, and \<open>LastLogTerm\<close> is the term of the last
  entry or -1.
\<close>

theorem readers_refine_list:
  assumes "log_readable l"
  shows "LogSize l = int (length (log_list l)) \<and>
     Entry l i = (if 0 \<le> i \<and> i < LogSize l then Inr (log_list l ! nat i) else Inl Out_of_range) \<and>
     Entries l a b = (if 0 \<le> a \<and> a \<le> b \<and> b \<le> LogSize l
        then Inr (take (nat (b - a)) (drop (nat a) (log_list l))) else Inl Out_of_range) \<and>
     LastLogTerm l = Inr (if log_list l = [] then -1 else to_int (entry_term (last (log_list l))))"
  using assms by (simp add: LogSize_log_list Entry_log_list Entries_log_list LastLogTerm_log_list)

theorem readers_refine_list_witness:
  "Entries sample_log 1 3 = Inr [sample_entry 1 ''a:1'', sample_entry 2 ''c:3''] \<and>
   Entry sample_log 3 = Inl Out_of_range \<and> LastLogTerm sample_log = Inr 2"
  using readers_refine_list [OF log_inv_readable [OF sample_log_inv(1)], of 3 1 3]
  by (simp add: sample_log_inv sample_entry_def to_int_def)

text \<open>
  C4. \<open>Append\<close> on a well-formed log whose entries each fit into a page: it returns the first
  index and the new size, the invariant holds again, the entries read back are the appended
  ones and no earlier entry changed, whatever page rotations happened on the way.
\<close>

theorem Append_refines_list:
  assumes "log_inv l" and "\<forall>e \<in> set es. entry_fits pb l e"
  shows "\<exists>l'. Append pb es l = Inr ((LogSize l, LogSize l'), l') \<and> log_inv l' \<and>
     Entries l' (LogSize l) (LogSize l') = Inr es \<and>
     (\<forall>i. 0 \<le> i \<longrightarrow> i < LogSize l \<longrightarrow> Entry l' i = Entry l i)"
  by (rule plog.append_then_slice [OF assms])

theorem Append_refines_list_witness:
  "\<exists>l'. Append sample_pb [sample_entry 1 ''b:2'', sample_entry 2 ''c:3''] sample_log = Inr ((3, 5), l') \<and>
     log_inv l' \<and> Entries l' 3 5 = Inr [sample_entry 1 ''b:2'', sample_entry 2 ''c:3''] \<and>
     Entry l' 1 = Inr (sample_entry 1 ''a:1'')"
proof -
  have "LogSize sample_log = 3" by (simp add: LogSize_log_list sample_log_inv)
  moreover have "Entry sample_log 1 = Inr (sample_entry 1 ''a:1'')"
    by (simp add: Entry_log_list sample_log_inv)
  moreover have "\<exists>l'. Append sample_pb [sample_entry 1 ''b:2'', sample_entry 2 ''c:3''] sample_log =
      Inr ((LogSize sample_log, LogSize l'), l') \<and> log_inv l' \<and>
      Entries l' (LogSize sample_log) (LogSize l') = Inr [sample_entry 1 ''b:2'', sample_entry 2 ''c:3''] \<and>
      (\<forall>i. 0 \<le> i \<longrightarrow> i < LogSize sample_log \<longrightarrow> Entry l' i = Entry sample_log i)"
    by (rule Append_refines_list) (simp_all add: sample_log_inv)
  moreover have "LogSize (snd (projr (Append sample_pb [sample_entry 1 ''b:2'', sample_entry 2 ''c:3''] sample_log))) = 5"
    by code_simp
  ultimately show ?thesis by auto
qed

text \<open>
  C5. \<open>TruncateSuffix\<close> at any index of a well-formed log, in the open page or across closed
  pages: it returns, and what can be read afterwards is exactly the entries below the index. If
  the index lies behind the first entry of the open page the full invariant holds again.
\<close>

theorem TruncateSuffix_refines_take:
  assumes "log_inv l" and "0 \<le> i"
  shows "\<exists>l'. TruncateSuffix i l = Inr l' \<and> log_readable l' \<and> log_list l' = take (nat i) (log_list l) \<and>
     (open_start l < i \<longrightarrow> log_inv l')"
proof (cases "open_start l < i")
  case True
  then show ?thesis
    using TruncateSuffix_open_inv [OF assms(1), of i] by (auto simp: open_start_def)
next
  case False
  show ?thesis
  proof (cases "i < m_log_size l")
    case True
    then show ?thesis
      using TruncateSuffix_closed [OF assms] False by (auto simp: open_start_def)
  next
    case False
    then show ?thesis
      using assms log_size_records [of l]
      by (auto simp: TruncateSuffix_def LastLogIndex_def LogSize_def log_list_def)
  qed
qed

theorem TruncateSuffix_refines_take_witness:
  "\<exists>l'. TruncateSuffix 1 sample_log = Inr l' \<and> log_readable l' \<and>
     log_list l' = [sample_entry 1 ''b:2'']"
  using TruncateSuffix_refines_take [OF sample_log_inv(1), of 1] by (auto simp: sample_log_inv)

subsection \<open>Where the log stops behaving like a list\<close>

text \<open>
  C12. Truncating at or below the first index of the open page leaves the fresh open page out of
  \<open>m_log_indices\<close>: the next append succeeds and is counted, but reading the entry it stored
  indexes a vector past its end.
\<close>

theorem truncate_then_append_unreadable:
  assumes "log_inv l" and "0 \<le> i" and "i \<le> open_start l" and "i < LogSize l" and "entry_fits pb l e"
  shows "\<exists>l1 l2. TruncateSuffix i l = Inr l1 \<and> Append_entry pb e l1 = Inr (i, l2) \<and>
     LogSize l2 = i + 1 \<and> Entry l2 i = Inl Undefined_behaviour"
proof -
  obtain l1 where l1: "TruncateSuffix i l = Inr l1" "log_readable l1" "m_log_size l1 = i" "log_detached l1"
    "m_max_file_size l1 = m_max_file_size l"
    using TruncateSuffix_closed [OF assms(1,2)] assms(3,4) by (auto simp: open_start_def LogSize_def)
  then have "entry_fits pb l1 e" "m_max_file_size l1 < 2 ^ 31"
    using assms(5) log_inv_sizes [OF assms(1)] by (auto simp: entry_fits_def)
  from detached_append_unreadable [OF l1(2,4) this] l1 show ?thesis by (auto simp: LogSize_def)
qed

theorem truncate_then_append_unreadable_witness:
  "\<exists>l1 l2. TruncateSuffix 1 sample_log = Inr l1 \<and>
     Append_entry sample_pb (sample_entry 2 ''c:3'') l1 = Inr (1, l2) \<and>
     LogSize l2 = 2 \<and> Entry l2 1 = Inl Undefined_behaviour"
  using truncate_then_append_unreadable [OF sample_log_inv(1), of 1 sample_pb "sample_entry 2 ''c:3''"]
  by (simp add: sample_log_open_start LogSize_log_list sample_log_inv)

lemma rotate_empty_page:
  assumes inv: "log_inv l" and op: "m_open_page l = Some r" and empty: "log_entries (page_heap l ! r) = []"
  obtains l' where "CreateOpenFile l = Inr l'" and "m_open_page l' = Some (length (page_heap l))"
    and "m_log_indices l' = m_log_indices l" and "m_log_size l' = m_log_size l"
    and "page_heap l' = (page_heap l)[r := (page_heap l ! r)\<lparr>is_open := False\<rparr>] @
      [fst (Page_new (m_log_size l) (m_dir l) True (m_max_file_size l) (disk l))]"
proof -
  from inv obtain m r' where o: "m_open_page l = Some r'" "is_open (page_heap l ! r')"
    "m_log_indices l = m @ [(start_index (page_heap l ! r'), r')]" "r' < length (page_heap l)"
    "end_index (page_heap l ! r') = m_log_size l"
    "m_log_size l = start_index (page_heap l ! r') + int (length (log_entries (page_heap l ! r')))"
    by (rule log_invE)
  have "omap_sorted (m_log_indices l)" using inv by (simp add: log_inv_def log_readable_def)
  then have "omap_insert (m_log_size l) q (m_log_indices l) = m_log_indices l" for q
    using o op empty by (intro omap_insert_present) auto
  with o op empty that show ?thesis
    by (auto simp: CreateOpenFile_def Page_Close_def make_page_def Page_new_def LogSize_def Let_def)
qed

text \<open>
  An entry that is larger than a whole page, appended while the open page is empty, is
  accepted and counted but cannot be read: the page that receives it is never registered,
  because the emptied page keeps its key in \<open>m_log_indices\<close>.
\<close>

lemma oversized_entry_unreadable:
  assumes inv: "log_inv l" and empty: "log_entries (page_heap l ! the (m_open_page l)) = []"
    and size: "int (ByteSizeLong (entry_codec pb) e) > m_max_file_size l"
    and ser: "SerializeDelimited (entry_codec pb) e \<noteq> None"
  shows "\<exists>l'. Append_entry pb e l = Inr (LogSize l, l') \<and> LogSize l' = LogSize l + 1 \<and>
     Entry l' (LogSize l) = Inl Undefined_behaviour"
proof -
  from inv obtain l0 where l0: "open_log_stream l = Inr l0" "log_inv l0" "log_list l0 = log_list l"
    "m_max_file_size l0 = m_max_file_size l" "m_open_page l0 = m_open_page l" "page_heap l0 = page_heap l"
    by (rule open_log_stream_inv)
  from l0(2) obtain m r where o: "m_open_page l0 = Some r"
    "m_log_indices l0 = m @ [(start_index (page_heap l0 ! r), r)]" "r < length (page_heap l0)"
    "\<forall>p \<in> set m. fst p < start_index (page_heap l0 ! r)"
    "m_log_size l0 = start_index (page_heap l0 ! r) + int (length (log_entries (page_heap l0 ! r)))"
    "page_ok (m_dir l0) (m_max_file_size l0) (disk l0) (page_heap l0 ! r)"
    by (rule log_invE)
  have e0: "log_entries (page_heap l0 ! r) = []" using empty l0(5,6) o(1) by (metis option.sel)
  obtain l1 where l1: "CreateOpenFile l0 = Inr l1" "m_open_page l1 = Some (length (page_heap l0))"
    "m_log_indices l1 = m_log_indices l0" "m_log_size l1 = m_log_size l0"
    "page_heap l1 = (page_heap l0)[r := (page_heap l0 ! r)\<lparr>is_open := False\<rparr>] @
      [fst (Page_new (m_log_size l0) (m_dir l0) True (m_max_file_size l0) (disk l0))]"
    by (rule rotate_empty_page [OF l0(2) o(1) e0])
  define l2 where "l2 = l1\<lparr>disk := fs_touch (m_dir l1 @ filename (page_heap l1 ! length (page_heap l0))) (disk l1)\<rparr>"
  obtain p fs' where w: "WriteLogEntry pb e (page_heap l2 ! length (page_heap l0)) (disk l2) = Some (p, fs')"
    using WriteLogEntry_Some [OF ser] by blast
  define l' where "l' = l2\<lparr>page_heap := (page_heap l2)[length (page_heap l0) := p], disk := fs',
    m_log_size := m_log_size l2 + 1\<rparr>"
  have rem: "size_t_of_int (RemainingSpace (page_heap l0 ! r)) = m_max_file_size l"
    using o(6) e0 l0(4) log_inv_sizes [OF inv] by (auto simp: RemainingSpace_def page_ok_def)
  have "open_log_stream l1 = Inr l2" using l1(2) by (simp add: open_log_stream_def l2_def)
  then have "persist_entry pb e l0 = Inr l'"
    using size o(1) l1(1,2) w rem by (simp add: persist_entry_def l'_def) (simp add: l2_def)
  moreover have s: "LogSize l = m_log_size l0"
    using LogSize_log_list [OF log_inv_readable [OF inv]] LogSize_log_list [OF log_inv_readable [OF l0(2)]] l0(3)
    by (simp add: LogSize_def)
  ultimately have app: "Append_entry pb e l = Inr (LogSize l, l')"
    using l0(1) by (simp add: Append_entry_def PersistLogEntries_def)
  have "omap_upper_prev (m_log_size l0) (m_log_indices l0) = Some (start_index (page_heap l0 ! r), r)"
    using omap_upper_prev_split [of m "m_log_size l0" "start_index (page_heap l0 ! r)" "[]" r] o e0 by fastforce
  moreover have "page_heap l' ! r = (page_heap l0 ! r)\<lparr>is_open := False\<rparr>"
    using o(3) l1(5) by (simp add: l'_def l2_def nth_append)
  moreover have "0 \<le> m_log_size l0" using log_size_records [of l0] l0(2) by simp
  ultimately have "Entry l' (LogSize l) = Inl Undefined_behaviour"
    using s l1 e0 o(5) by (simp add: Entry_def LastLogIndex_def LogSize_def page_containing_def)
      (simp add: l'_def l2_def)
  with app s show ?thesis using l1(4) by (auto simp: LogSize_def l'_def l2_def)
qed

subsection \<open>Restart\<close>

text \<open>The calls that change a log, in the order in which a node makes them.\<close>

datatype log_op =
    Op_Append "LogEntry list"
  | Op_Append_entry LogEntry
  | Op_TruncateSuffix int
  | Op_SetMetadata LogMetadata

fun run_op :: "protobuf \<Rightarrow> log_op \<Rightarrow> PersistedLog \<Rightarrow> PersistedLog result" where
  "run_op pb (Op_Append es) l = rbind (Append pb es l) (\<lambda>(ix, l'). Inr l')"
| "run_op pb (Op_Append_entry e) l = rbind (Append_entry pb e l) (\<lambda>(ix, l'). Inr l')"
| "run_op pb (Op_TruncateSuffix i) l = TruncateSuffix i l"
| "run_op pb (Op_SetMetadata md) l = SetMetadata pb md l"

fun run_ops :: "protobuf \<Rightarrow> log_op list \<Rightarrow> PersistedLog \<Rightarrow> PersistedLog result" where
  "run_ops pb [] l = Inr l"
| "run_ops pb (x # xs) l = rbind (run_op pb x l) (run_ops pb xs)"

text \<open>What the metadata should be: the last one set, numbered by how many were set.\<close>

fun metadata_after :: "log_op list \<Rightarrow> LogMetadata \<Rightarrow> LogMetadata" where
  "metadata_after [] md = md"
| "metadata_after (Op_SetMetadata new # xs) md =
     metadata_after xs (new\<lparr>md_version := md_version md + 1\<rparr>)"
| "metadata_after (_ # xs) md = metadata_after xs md"

lemma run_op_frame:
  "names_ok l \<Longrightarrow> run_op pb x l = Inr l' \<Longrightarrow> (\<forall>md. x \<noteq> Op_SetMetadata md) \<Longrightarrow> log_frame l l'"
  by (cases x) (auto intro: Append_frame Append_entry_frame TruncateSuffix_frame)

lemma run_ops_metadata:
  assumes "codec_ok default_metadata (metadata_codec pb)"
  shows "\<lbrakk> names_ok l; metadata_synced pb l; run_ops pb xs l = Inr l' \<rbrakk> \<Longrightarrow>
     names_ok l' \<and> metadata_synced pb l' \<and> m_dir l' = m_dir l \<and>
     m_metadata l' = metadata_after xs (m_metadata l)"
proof (induction xs arbitrary: l)
  case (Cons x xs)
  from Cons.prems obtain l1 where l1: "run_op pb x l = Inr l1" "run_ops pb xs l1 = Inr l'" by auto
  show ?case
  proof (cases "\<exists>md. x = Op_SetMetadata md")
    case True
    then obtain md where x: "x = Op_SetMetadata md" ..
    with l1(1) have s: "SetMetadata pb md l = Inr l1" by simp
    note m = SetMetadata_Inr [OF s]
    from m(2) have "m_dir l1 = m_dir l" by (metis PersistedLog.surjective PersistedLog.update_convs(2,8) PersistedLog.select_convs(4))
    with Cons.IH [OF SetMetadata_names [OF Cons.prems(1) s] SetMetadata_synced [OF assms Cons.prems(2) s] l1(2)]
      x m(1) show ?thesis by simp
  next
    case False
    then have f: "log_frame l l1" using run_op_frame [OF Cons.prems(1) l1(1)] by blast
    have "metadata_after (x # xs) md = metadata_after xs md" for md using False by (cases x) auto
    with Cons.IH [OF log_frame_names [OF f] log_frame_synced [OF f Cons.prems(2)] l1(2)] f
    show ?thesis by (simp add: log_frame_def)
  qed
qed simp

lemma fresh_log_synced:
  assumes "\<forall>f \<in> metadata_names. fs_read fs (d @ f) = None"
  shows "names_ok (fresh_log d n fs)" and "metadata_synced pb (fresh_log d n fs)"
  using assms
  by (auto simp: names_ok_def metadata_synced_def fresh_log_def default_metadata_def Let_def)
    (simp_all add: open_name_def)

text \<open>
  C6. Durability of term and vote. A node starts on a directory without metadata, makes any
  sequence of successful calls to the log (appends, truncations anywhere, metadata updates) and
  stops between two calls, with only files named like those of the log (metadata, open and
  closed pages) in its directory. A new \<open>PersistedLog\<close> with \<open>restore\<close> on what is then on disk is
  constructed without an exception and reports the metadata of the last \<open>SetMetadata\<close>, or
  none if there was none.
\<close>

theorem restart_recovers_metadata:
  assumes "codec_ok default_entry (entry_codec pb)" and "codec_ok default_metadata (metadata_codec pb)"
    and "\<forall>f \<in> metadata_names. fs_read fs (d @ f) = None"
    and "run_ops pb xs (fresh_log d n fs) = Inr l" and "dir_ok d (disk l)"
  shows "\<exists>l'. PersistedLog_new pb d True n (disk l) = Inr l' \<and>
     Metadata l' = (let md = metadata_after xs default_metadata in (md, md_version md \<noteq> 0))"
proof -
  note f = fresh_log_synced [OF assms(3)]
  from run_ops_metadata [OF assms(2) f assms(4)] have "metadata_synced pb l" "m_dir l = d"
    "m_metadata l = metadata_after xs default_metadata"
    by (auto simp: fresh_log_def)
  moreover from this restart_returns [OF assms(1), of l n] assms(5)
  obtain l' where "PersistedLog_new pb d True n (disk l) = Inr l'" by auto
  ultimately show ?thesis
    using restart_metadata_Inr [of pb l n l'] by (auto simp: Metadata_def Let_def)
qed

definition sample_run :: PersistedLog where
  "sample_run = projr (run_ops sample_pb
     [Op_Append_entry (sample_entry 1 ''b:2''), Op_SetMetadata (sample_metadata\<lparr>md_version := 0\<rparr>),
      Op_Append_entry (sample_entry 1 ''a:1'')] (fresh_log ''/d/'' 2 []))"

theorem restart_recovers_metadata_witness:
  "\<exists>l'. PersistedLog_new sample_pb ''/d/'' True 2 (disk sample_run) = Inr l' \<and>
     Metadata l' = (sample_metadata, True)"
proof -
  have files: "ListDirectoryContents ''/d/'' (disk sample_run) = [''open-0'', ''metadata2'']" by code_simp
  have "\<exists>l'. PersistedLog_new sample_pb ''/d/'' True 2 (disk sample_run) = Inr l' \<and>
     Metadata l' = (let md = metadata_after [Op_Append_entry (sample_entry 1 ''b:2''),
       Op_SetMetadata (sample_metadata\<lparr>md_version := 0\<rparr>), Op_Append_entry (sample_entry 1 ''a:1'')]
       default_metadata in (md, md_version md \<noteq> 0))"
  proof (rule restart_recovers_metadata [where fs = "[]"])
    show "run_ops sample_pb [Op_Append_entry (sample_entry 1 ''b:2''),
       Op_SetMetadata (sample_metadata\<lparr>md_version := 0\<rparr>), Op_Append_entry (sample_entry 1 ''a:1'')]
       (fresh_log ''/d/'' 2 []) = Inr sample_run"
      unfolding sample_run_def by code_simp
    show "dir_ok ''/d/'' (disk sample_run)" unfolding dir_ok_def files by (simp add: IsFileOpen_def)
  qed (simp_all add: sample_pb_def codec_ok_table)
  then show ?thesis by (simp add: sample_metadata_def default_metadata_def)
qed

text \<open>
  The name of a closed file leads back to its page: the part before the dash, read with
  \<open>stoi\<close>, is the page's first index, so the numbering of a restored page does not depend on
  the order of the files.
\<close>

lemma closed_name_roundtrip:
  assumes "0 \<le> start_index p" and "start_index p < 2 ^ 31"
  shows "stoi (str_prefix (str_find (CHR ''-'') (ClosedFilename p)) (ClosedFilename p)) =
     Inr (start_index p)"
  unfolding ClosedFilename_prefix using assms
  by (subst stoi_digits) (auto simp: pad20_digits pad20_value in_int_def)

end
