(* ===== verification/Consensus_Persistence.thy ===== *)
theory Consensus_Persistence
  imports Consensus_Module Storage_Properties
begin

section \<open>Term and vote are persisted before they take effect\<close>

text \<open>
  The invariant that term and vote in memory are the ones on disk between any two handlers,
  proved handler by handler, and its consequence for the reachable states of a node, restarts
  included.
\<close>

subsection \<open>Projections of the building blocks\<close>

text \<open>The fields that decide elections and persistence, as one value.\<close>

definition core :: "ConsensusModule \<Rightarrow> string \<times> PersistedLog \<times> int \<times> string \<times> RaftState \<times> int" where
  "core n = (ctx_address n, m_log n, m_term n, m_vote n, m_state n, m_commit_index n)"

lemma core_CreateConnections [node_simps]: "core (CreateConnections ps n) = core n"
  by (simp add: core_def CreateConnections_def Let_def)

lemma core_start_call [node_simps]: "core (start_call p c n) = core n"
  by (simp add: core_def start_call_def split: option.splits bool.splits)

lemma core_Client [node_simps]:
  "core (Client_RequestVote p a b c n) = core n" "core (Client_AppendEntries p a b c es d n) = core n"
  by (simp_all add: Client_RequestVote_def Client_AppendEntries_def core_start_call)

lemma core_ScheduleElection [node_simps]: "core (ScheduleElection r t n) = core n"
  by (simp add: core_def ScheduleElection_def)

lemma core_ScheduleHeartbeat [node_simps]: "core (ScheduleHeartbeat n) = core n"
  by (simp add: core_def ScheduleHeartbeat_def)

lemma core_CommitEntries [node_simps]: "core (CommitEntries es n) = core n"
  by (simp add: core_def CommitEntries_def)

lemma core_notify [node_simps]: "core (notify cv n) = core n"
  by (simp add: core_def notify_def)

lemma core_renew_lease [node_simps]: "core (renew_lease e a n) = core n"
  by (simp add: core_def renew_lease_def Let_def)

lemma core_fold: "(\<And>x n. core (f x n) = core n) \<Longrightarrow> core (fold f xs n) = core n"
  by (induction xs arbitrary: n) auto

lemma core_request_votes [node_simps]: "core (request_votes t i j n) = core n"
  unfolding request_votes_def by (rule core_fold) (simp add: node_simps)

lemma core_insert_configurations [node_simps]: "core (insert_configurations i es n) = core n"
proof (induction i es n rule: insert_configurations.induct)
  case (2 i e es n)
  then show ?case by (simp add: node_simps Let_def) (simp add: core_def)
qed simp

lemma core_eq_iff:
  "core n' = core n \<longleftrightarrow>
     ctx_address n' = ctx_address n \<and> m_log n' = m_log n \<and> m_term n' = m_term n \<and> m_vote n' = m_vote n \<and>
     m_state n' = m_state n \<and> m_commit_index n' = m_commit_index n"
  by (simp add: core_def)

lemma core_projections:
  "core n' = core n \<Longrightarrow> ctx_address n' = ctx_address n" "core n' = core n \<Longrightarrow> m_log n' = m_log n"
  "core n' = core n \<Longrightarrow> m_term n' = m_term n" "core n' = core n \<Longrightarrow> m_vote n' = m_vote n"
  "core n' = core n \<Longrightarrow> m_state n' = m_state n" "core n' = core n \<Longrightarrow> m_commit_index n' = m_commit_index n"
  by (simp_all add: core_def)

subsection \<open>The invariant\<close>

definition disk_ok :: "protobuf \<Rightarrow> ConsensusModule \<Rightarrow> bool" where
  "disk_ok pb n \<longleftrightarrow> names_ok (m_log n) \<and> metadata_synced pb (m_log n)"

definition persisted :: "protobuf \<Rightarrow> ConsensusModule \<Rightarrow> bool" where
  "persisted pb n \<longleftrightarrow>
     disk_ok pb n \<and> md_term (m_metadata (m_log n)) = m_term n \<and>
     md_vote (m_metadata (m_log n)) = m_vote n \<and> in_int (m_term n)"

text \<open>A step that touches neither term nor vote and only entries of the log.\<close>

definition quiet :: "ConsensusModule \<Rightarrow> ConsensusModule \<Rightarrow> bool" where
  "quiet n n' \<longleftrightarrow>
     m_term n' = m_term n \<and> m_vote n' = m_vote n \<and>
     (names_ok (m_log n) \<longrightarrow> log_frame (m_log n) (m_log n'))"

lemma quiet_core: "core n' = core n \<Longrightarrow> quiet n n'"
  by (simp add: quiet_def core_def log_frame_refl)

lemma quiet_trans: "quiet n n1 \<Longrightarrow> quiet n1 n2 \<Longrightarrow> quiet n n2"
  by (auto simp: quiet_def dest: log_frame_names intro: log_frame_trans)

lemma quiet_disk_ok: "quiet n n' \<Longrightarrow> disk_ok pb n \<Longrightarrow> disk_ok pb n'"
  by (auto simp: quiet_def disk_ok_def log_frame_names log_frame_synced)

lemma quiet_persisted: "quiet n n' \<Longrightarrow> persisted pb n \<Longrightarrow> persisted pb n'"
  by (auto simp: persisted_def quiet_disk_ok) (auto simp: quiet_def disk_ok_def log_frame_def)

lemma disk_ok_core: "m_log n' = m_log n \<Longrightarrow> disk_ok pb n' \<longleftrightarrow> disk_ok pb n"
  by (simp add: disk_ok_def)

lemma StoreState_persisted:
  assumes codec: "codec_ok default_metadata (metadata_codec pb)"
    and disk: "disk_ok pb n" and t: "in_int (m_term n)" and res: "StoreState pb n = Inr n'"
  shows "persisted pb n'" and "n' = n\<lparr>m_log := m_log n'\<rparr>"
proof -
  obtain l where l: "SetMetadata pb \<lparr>md_version = 0, md_term = m_term n, md_vote = m_vote n\<rparr> (m_log n) = Inr l"
    and n': "n' = n\<lparr>m_log := l\<rparr>"
    using res by (auto simp: StoreState_def)
  then show "n' = n\<lparr>m_log := m_log n'\<rparr>" by simp
  show "persisted pb n'"
    using SetMetadata_synced [OF codec _ l] SetMetadata_names [OF _ l] SetMetadata_Inr(1) [OF l] disk t
    by (simp add: persisted_def disk_ok_def n')
qed

lemma ResetToFollower_persisted:
  assumes codec: "codec_ok default_metadata (metadata_codec pb)"
    and disk: "disk_ok pb n" and t: "in_int t" and res: "ResetToFollower pb r t n = Inr n'"
  shows "persisted pb n'" and "m_term n' = t" and "m_vote n' = ''''" and "m_state n' = FOLLOWER"
    and "\<not> m_lease_holder n'"
proof -
  define n1 where "n1 = n\<lparr>m_state := FOLLOWER, m_renew_lease := False, m_lease_holder := False,
    m_term := t, m_vote := '''', m_votes_received := 0,
    m_heartbeat_timer := Timer_Cancel (m_heartbeat_timer n),
    m_lease_timer := Timer_Cancel (m_lease_timer n)\<rparr>"
  obtain n2 where n2: "StoreState pb n1 = Inr n2" "n' = ScheduleElection r t n2"
    using res by (auto simp: ResetToFollower_def Let_def n1_def)
  have "disk_ok pb n1" "in_int (m_term n1)" using disk t by (simp_all add: n1_def disk_ok_def)
  note S = StoreState_persisted [OF codec this n2(1)]
  show "persisted pb n'"
    using S(1) quiet_persisted [OF quiet_core, of n' n2] by (simp add: n2(2) node_simps)
  show "m_term n' = t" "m_vote n' = ''''" "m_state n' = FOLLOWER" "\<not> m_lease_holder n'"
    unfolding n2(2) ScheduleElection_def by (subst S(2), simp add: n1_def)+
qed

lemma Module_Append_entry_quiet:
  assumes "Module_Append_entry pb e n = Inr (i, n')"
  shows "quiet n n'" and "m_state n' = m_state n" and "m_commit_index n' = m_commit_index n"
    and "ctx_address n' = ctx_address n"
proof -
  obtain l where l: "Append_entry pb e (m_log n) = Inr (i, l)"
    and c: "core n' = core (n\<lparr>m_log := l\<rparr>)"
    using assms by (auto simp: Module_Append_entry_def Let_def node_simps split: if_splits)
      (auto simp: core_def)
  then show "quiet n n'" "m_state n' = m_state n" "m_commit_index n' = m_commit_index n"
    "ctx_address n' = ctx_address n"
    using Append_entry_frame [OF _ l] by (auto simp: quiet_def core_def)
qed

lemma Module_Append_quiet:
  assumes "Module_Append pb es n = Inr (i, n')"
  shows "quiet n n'" and "m_state n' = m_state n" and "m_commit_index n' = m_commit_index n"
proof -
  obtain l ix where l: "Append pb es (m_log n) = Inr (ix, l)"
    and c: "core n' = core (n\<lparr>m_log := l\<rparr>)"
    using assms by (auto simp: Module_Append_def node_simps)
  then show "quiet n n'" "m_state n' = m_state n" "m_commit_index n' = m_commit_index n"
    using Append_frame [OF _ l] by (auto simp: quiet_def core_def)
qed

lemma PromoteToLeader_quiet:
  assumes "PromoteToLeader pb n = Inr n'"
  shows "quiet n n'" and "m_state n' = LEADER" and "m_commit_index n' = m_commit_index n"
proof -
  define n1 where "n1 = n\<lparr>m_state := LEADER, m_votes_received := 0, m_leader_id := ctx_address n,
                 m_election_timer := Timer_Cancel (m_election_timer n)\<rparr>"
  obtain i n2 e where n2: "Module_Append_entry pb e n1 = Inr (i, n2)" "n' = ScheduleHeartbeat n2"
    using assms by (auto simp: PromoteToLeader_def Let_def n1_def)
  note Q = Module_Append_entry_quiet [OF n2(1)]
  have "quiet n n1" by (simp add: n1_def quiet_def log_frame_refl)
  from quiet_trans [OF this quiet_trans [OF Q(1) quiet_core, of n']]
  show "quiet n n'" by (simp add: n2(2) node_simps)
  show "m_state n' = LEADER" "m_commit_index n' = m_commit_index n"
    using Q(2,3) by (simp_all add: n2(2) ScheduleHeartbeat_def n1_def)
qed

subsection \<open>Handlers\<close>

lemma advance_commitE:
  assumes "advance_commit n = Inr n'"
  obtains es c m where "Entries (m_log n) (m_commit_index n + 1) (LogSize (m_log n)) = Inr es"
    and "commit_scan (m_configuration n) (ctx_address n) (m_term n) (m_commit_index n + 1) es
      (m_commit_index n) (m_match_index n) = (c, m)"
    and "c = m_commit_index n \<and> n' = n\<lparr>m_match_index := m\<rparr> \<or>
      c \<noteq> m_commit_index n \<and> (\<exists>u. collect_entries (m_log n) (LastApplied (m_state_machine n)) c = Inr u \<and>
        n' = CommitEntries u (n\<lparr>m_match_index := m, m_commit_index := c\<rparr>))"
proof -
  from assms obtain es where es: "Entries (m_log n) (m_commit_index n + 1) (LogSize (m_log n)) = Inr es"
    unfolding advance_commit_def Let_def rbind_Inr_iff by blast
  obtain c m where "commit_scan (m_configuration n) (ctx_address n) (m_term n) (m_commit_index n + 1) es
      (m_commit_index n) (m_match_index n) = (c, m)" by fastforce
  with es assms that show ?thesis
    by (cases "c = m_commit_index n") (auto simp: advance_commit_def Let_def)
qed

lemma advance_commit_frame:
  assumes "advance_commit n = Inr n'"
  shows "quiet n n'" and "m_log n' = m_log n" and "m_state n' = m_state n" and "ctx_address n' = ctx_address n"
    and "m_configuration n' = m_configuration n" and "m_state_machine n' = m_state_machine n"
  by (rule advance_commitE [OF assms], auto simp: quiet_def log_frame_refl CommitEntries_def)+

lemma UpdateCommitIndex_cases:
  assumes "UpdateCommitIndex pb r n = Inr n'"
  obtains (uncommitted) n1 where "advance_commit n = Inr n1" and "n' = n1"
  | (notified) n1 where "advance_commit n = Inr n1" and "n' = notify Membership_sync n1"
  | (removed) n1 where "advance_commit n = Inr n1" and "m_term n1 + 1 < 2 ^ 31"
      and "ResetToFollower pb r (m_term n1 + 1) (notify Membership_sync n1) = Inr n'"
  | (transition) n1 i e where "advance_commit n = Inr n1"
      and "Module_Append_entry pb e (notify Membership_sync n1) = Inr (i, n')"
proof -
  from assms obtain n1 where n1: "advance_commit n = Inr n1" by (auto simp: UpdateCommitIndex_def)
  define n2 where "n2 = notify Membership_sync n1"
  have t: "m_term n2 = m_term n1" by (simp add: n2_def notify_def)
  have "n' = n1 \<or> n' = n2 \<or>
      (m_term n1 + 1 < 2 ^ 31 \<and> ResetToFollower pb r (m_term n1 + 1) n2 = Inr n') \<or>
      (\<exists>i e. Module_Append_entry pb e n2 = Inr (i, n'))"
    using assms n1 t unfolding UpdateCommitIndex_def Let_def n2_def [symmetric]
    by (auto simp flip: n2_def split: if_splits)
  with n1 that show ?thesis unfolding n2_def by metis
qed

lemma UpdateCommitIndex_persisted:
  assumes codec: "codec_ok default_metadata (metadata_codec pb)"
    and inv: "persisted pb n" and res: "UpdateCommitIndex pb r n = Inr n'"
  shows "persisted pb n'"
proof -
  have p1: "persisted pb n1" "persisted pb (notify Membership_sync n1)" if "advance_commit n = Inr n1" for n1
    using quiet_persisted [OF quiet_trans [OF advance_commit_frame(1) [OF that] quiet_core] inv]
    by (simp_all add: node_simps)
  from res show ?thesis
  proof (cases rule: UpdateCommitIndex_cases)
    case (removed n1)
    have d: "disk_ok pb (notify Membership_sync n1)" and t: "in_int (m_term n1)"
      using p1 [OF removed(1)] by (simp_all add: persisted_def)
    with removed(2) have "in_int (m_term n1 + 1)" by (simp add: in_int_def)
    then show ?thesis using ResetToFollower_persisted(1) [OF codec d _ removed(3)] by simp
  next
    case (transition n1 i e)
    then show ?thesis using quiet_persisted [OF Module_Append_entry_quiet(1)] p1 by blast
  qed (use p1 in simp_all)
qed

lemma heartbeat_loop_core: "heartbeat_loop t ps n = Inr n' \<Longrightarrow> core n' = core n"
proof (induction ps arbitrary: n)
  case (Cons p ps)
  show ?case
  proof (cases "p = ctx_address n")
    case False
    obtain nxt m where g: "map_get p (m_next_index n) = (nxt, m)" by fastforce
    from Cons.prems False obtain q es where
      "heartbeat_loop t ps (Client_AppendEntries p t (nxt - 1) q es (m_commit_index n) (n\<lparr>m_next_index := m\<rparr>)) = Inr n'"
      by (auto simp: g Let_def)
    from Cons.IH [OF this] show ?thesis by (simp add: node_simps) (simp add: core_def)
  qed (use Cons in simp)
qed simp

lemma HeartbeatCallback_persisted:
  assumes codec: "codec_ok default_metadata (metadata_codec pb)"
    and inv: "persisted pb n" and res: "HeartbeatCallback pb e n = Inr n'"
  shows "persisted pb n'"
proof (cases "m_state n = LEADER")
  case True
  define n1 where "n1 = n\<lparr>m_heartbeat_time := clock e 0, m_renew_lease := True,
    m_responding_peers := [ctx_address n]\<rparr>"
  from res True obtain n2 n3 where n2: "heartbeat_loop (m_term n1) (ServerAddresses (m_configuration n1)) n1 = Inr n2"
    and n3: "n3 = n2 \<or> UpdateCommitIndex pb (draw e 0) n2 = Inr n3" and n': "n' = ScheduleHeartbeat n3"
    by (auto simp: HeartbeatCallback_def Let_def n1_def split: if_splits)
  have "core n1 = core n" by (simp add: n1_def core_def)
  then have "persisted pb n2"
    using heartbeat_loop_core [OF n2] quiet_persisted [OF quiet_core inv] by simp
  then have "persisted pb n3" using n3 UpdateCommitIndex_persisted [OF codec] by blast
  then show ?thesis by (rule quiet_persisted [OF quiet_core, rotated]) (simp add: n' node_simps)
qed (use inv res in \<open>simp add: HeartbeatCallback_def\<close>)

lemma ElectionCallback_persisted:
  assumes codec: "codec_ok default_metadata (metadata_codec pb)"
    and inv: "persisted pb n" and res: "ElectionCallback pb e t n = Inr n'"
  shows "persisted pb n'"
proof -
  define n1 where "n1 = n\<lparr>m_state := CANDIDATE, m_term := to_int (m_term n + 1), m_vote := ctx_address n,
    m_votes_received := 1\<rparr>"
  have d1: "disk_ok pb n1" "in_int (m_term n1)" using inv by (simp_all add: n1_def persisted_def disk_ok_def)
  consider "core n' = core n" | n2 where "StoreState pb n1 = Inr n2" "PromoteToLeader pb n2 = Inr n'"
    | n2 where "StoreState pb n1 = Inr n2" "core n' = core n2"
    using res by (auto simp: ElectionCallback_def Let_def n1_def node_simps split: if_splits)
  then show ?thesis
  proof cases
    case 1
    then show ?thesis by (rule quiet_persisted [OF quiet_core inv])
  next
    case 2
    then show ?thesis
      using quiet_persisted [OF PromoteToLeader_quiet(1) StoreState_persisted(1) [OF codec d1]] by blast
  next
    case 3
    then show ?thesis using quiet_persisted [OF quiet_core StoreState_persisted(1) [OF codec d1]] by blast
  qed
qed

text \<open>The possible outcomes of a vote request.\<close>

definition vote_condition :: "RequestVote_Request \<Rightarrow> int \<Rightarrow> ConsensusModule \<Rightarrow> bool" where
  "vote_condition req last_term n \<longleftrightarrow>
     rv_term req = m_term n \<and> (m_vote n = '''' \<or> m_vote n = rv_candidateId req) \<and>
     (rv_lastLogTerm req > last_term \<or>
      (rv_lastLogTerm req = last_term \<and> rv_lastLogIndex req \<ge> LastLogIndex (m_log n)))"

lemma RequestVote_cases:
  assumes "ProcessRequestVoteClientRequest pb e req n = Inr ((rep, st), n')"
  obtains (refused) "n' = n" and "\<not> rvr_voteGranted rep"
      and "m_state n = DEAD \<or> clock e 0 \<le> m_election_deadline n \<or> m_state n = LEADER"
  | (considered) n1 lt where "m_state n \<noteq> DEAD" and "m_state n \<noteq> LEADER" and "m_election_deadline n < clock e 0"
      and "(if rv_term req > m_term n then ResetToFollower pb (draw e 0) (to_int (rv_term req)) n else Inr n) = Inr n1"
      and "LastLogTerm (m_log n1) = Inr lt" and "st = Status_OK" and "rvr_term rep = m_term n'"
      and "vote_condition req lt n1 \<and> rvr_voteGranted rep \<and>
        (\<exists>n2. StoreState pb (n1\<lparr>m_vote := rv_candidateId req\<rparr>) = Inr n2 \<and>
           n' = ScheduleElection (draw e 1) (to_int (rv_term req)) n2) \<or>
        \<not> vote_condition req lt n1 \<and> \<not> rvr_voteGranted rep \<and> n' = n1"
proof (cases "m_state n = DEAD \<or> clock e 0 \<le> m_election_deadline n \<or> m_state n = LEADER")
  case True
  with assms refused show ?thesis
    by (auto simp: ProcessRequestVoteClientRequest_def split: if_splits)
next
  case False
  then have "ProcessRequestVoteClientRequest pb e req n =
    rbind (if rv_term req > m_term n then ResetToFollower pb (draw e 0) (to_int (rv_term req)) n else Inr n)
      (\<lambda>n1. rbind (LastLogTerm (m_log n1)) (\<lambda>lt.
        if vote_condition req lt n1 then
          rbind (StoreState pb (n1\<lparr>m_vote := rv_candidateId req\<rparr>)) (\<lambda>n2.
            let n3 = ScheduleElection (draw e 1) (to_int (rv_term req)) n2
            in Inr ((\<lparr>rvr_term = m_term n3, rvr_voteGranted = True\<rparr>, Status_OK), n3))
        else Inr ((\<lparr>rvr_term = m_term n1, rvr_voteGranted = False\<rparr>, Status_OK), n1)))"
    by (simp add: ProcessRequestVoteClientRequest_def Let_def vote_condition_def)
  with assms obtain n1 lt where n1:
    "(if rv_term req > m_term n then ResetToFollower pb (draw e 0) (to_int (rv_term req)) n else Inr n) = Inr n1"
    "LastLogTerm (m_log n1) = Inr lt"
    and r: "(if vote_condition req lt n1 then
        rbind (StoreState pb (n1\<lparr>m_vote := rv_candidateId req\<rparr>)) (\<lambda>n2.
          let n3 = ScheduleElection (draw e 1) (to_int (rv_term req)) n2
          in Inr ((\<lparr>rvr_term = m_term n3, rvr_voteGranted = True\<rparr>, Status_OK), n3))
        else Inr ((\<lparr>rvr_term = m_term n1, rvr_voteGranted = False\<rparr>, Status_OK), n1)) = Inr ((rep, st), n')"
    by auto
  show ?thesis
  proof (cases "vote_condition req lt n1")
    case True
    with r False n1 show ?thesis by (intro considered [of n1 lt]) (auto simp: Let_def)
  next
    case no: False
    with r False n1 show ?thesis by (intro considered [of n1 lt]) auto
  qed
qed

lemma ProcessRequestVoteClientRequest_persisted:
  assumes codec: "codec_ok default_metadata (metadata_codec pb)"
    and inv: "persisted pb n" and res: "ProcessRequestVoteClientRequest pb e req n = Inr ((rep, st), n')"
  shows "persisted pb n'"
  using res
proof (cases rule: RequestVote_cases)
  case (considered n1 lt)
  have d: "disk_ok pb n" using inv by (simp add: persisted_def)
  have p1: "persisted pb n1"
    using considered(4) inv ResetToFollower_persisted(1) [OF codec d in_int_to_int] by (auto split: if_splits)
  then have d1: "disk_ok pb (n1\<lparr>m_vote := rv_candidateId req\<rparr>)" "in_int (m_term (n1\<lparr>m_vote := rv_candidateId req\<rparr>))"
    by (simp_all add: persisted_def disk_ok_def)
  from considered(8) p1 quiet_persisted [OF quiet_core StoreState_persisted(1) [OF codec d1]] show ?thesis
    by (auto simp: node_simps)
qed (use inv in simp)

lemma ProcessRequestVoteServerResponse_persisted:
  assumes codec: "codec_ok default_metadata (metadata_codec pb)"
    and inv: "persisted pb n" and res: "ProcessRequestVoteServerResponse pb e req rep a n = Inr n'"
  shows "persisted pb n'"
proof -
  define n1 where "n1 = n\<lparr>m_votes_received := m_votes_received n + 1\<rparr>"
  have d: "disk_ok pb n" using inv by (simp add: persisted_def)
  have p1: "persisted pb n1" by (rule quiet_persisted [OF quiet_core inv]) (simp add: n1_def core_def)
  consider "n' = n" | "n' = n1" | "ResetToFollower pb (draw e 0) (to_int (rvr_term rep)) n = Inr n'"
    | "PromoteToLeader pb n1 = Inr n'"
    using res unfolding ProcessRequestVoteServerResponse_def Let_def n1_def [symmetric]
    by (metis sum.inject(2))
  then show ?thesis
  proof cases
    case 3
    then show ?thesis by (rule ResetToFollower_persisted(1) [OF codec d in_int_to_int])
  next
    case 4
    then show ?thesis by (rule quiet_persisted [OF PromoteToLeader_quiet(1) p1])
  qed (use inv p1 in simp_all)
qed

lemma replicate_entries_quiet:
  assumes "replicate_entries pb req n = Inr n'"
  shows "quiet n n'" and "m_state n' = m_state n" and "m_commit_index n' = m_commit_index n"
proof -
  obtain i new c where scan: "ae_scan (LogSize (m_log n)) (Entry (m_log n)) (to_int (ae_prevLogIndex req + 1))
      (ae_entries req) = Inr (i, new, c)"
    using assms unfolding replicate_entries_def rbind_Inr_iff by (metis prod_cases3)
  obtain n1 where n1: "(if c then rbind (TruncateSuffix i (m_log n)) (\<lambda>l.
      rbind (Config_TruncateSuffix i (m_configuration n)) (\<lambda>conf.
        Inr (n\<lparr>m_log := l, m_configuration := conf\<rparr>))) else Inr n) = Inr n1"
    and n': "(if new \<noteq> [] then rbind (Module_Append pb new n1) (\<lambda>(ix, n2). Inr n2) else Inr n1) = Inr n'"
    using assms scan by (simp add: replicate_entries_def)
      (metis (no_types, lifting))
  have q1: "quiet n n1 \<and> m_state n1 = m_state n \<and> m_commit_index n1 = m_commit_index n"
    using n1 TruncateSuffix_frame [of "m_log n" i] by (auto simp: quiet_def log_frame_refl split: if_splits)
  have "n' = n1 \<or> (\<exists>ix. Module_Append pb new n1 = Inr (ix, n'))" using n' by (auto split: if_splits)
  then have "quiet n1 n' \<and> m_state n' = m_state n1 \<and> m_commit_index n' = m_commit_index n1"
    using Module_Append_quiet quiet_core by blast
  with q1 show "quiet n n'" "m_state n' = m_state n" "m_commit_index n' = m_commit_index n"
    using quiet_trans by auto
qed

lemma follower_commit_quiet:
  assumes "follower_commit req n = Inr n'"
  shows "quiet n n'" and "m_log n' = m_log n" and "m_state n' = m_state n"
  using assms
  by (auto simp: follower_commit_def Let_def quiet_def log_frame_refl CommitEntries_def split: if_splits)

text \<open>The end of an append request, and the steps of one that is of the node's term.\<close>

definition ae_finish :: "env \<Rightarrow> AppendEntries_Request \<Rightarrow> ConsensusModule \<Rightarrow> ConsensusModule" where
  "ae_finish e req n = (ScheduleElection (draw e 2) (to_int (ae_term req)) n)\<lparr>m_election_deadline :=
     clock e 1 + m_election_timeout (ScheduleElection (draw e 2) (to_int (ae_term req)) n)\<rparr>"

lemma ae_finish_keeps:
  "core (ae_finish e req n) = core n" "m_configuration (ae_finish e req n) = m_configuration n"
  "m_state_machine (ae_finish e req n) = m_state_machine n" "m_term (ae_finish e req n) = m_term n"
  by (simp_all add: ae_finish_def core_def ScheduleElection_def)

lemma AppendEntries_current_steps:
  assumes res: "ProcessAppendEntriesClientRequest pb e req n = Inr ((rep, st), n')" and live: "m_state n \<noteq> DEAD"
    and n1: "(if ae_term req > m_term n then ResetToFollower pb (draw e 0) (to_int (ae_term req)) n else Inr n) = Inr n1"
    and eq: "ae_term req = m_term n1"
  obtains n2 b n5 where "m_state n1 \<noteq> FOLLOWER \<and> ResetToFollower pb (draw e 1) (to_int (ae_term req)) n1 = Inr n2 \<or>
      m_state n1 = FOLLOWER \<and> (\<exists>d. n2 = (ScheduleElection (draw e 1) (to_int (ae_term req)) n1)\<lparr>m_election_deadline := d\<rparr>)"
    and "prev_entry_matches req (m_log n2) = Inr b"
    and "b \<and> (\<exists>n3. replicate_entries pb req (n2\<lparr>m_leader_id := ae_leaderId req\<rparr>) = Inr n3 \<and>
        follower_commit req n3 = Inr n5) \<or> \<not> b \<and> n5 = n2"
    and "n' = ae_finish e req n5" and "rep = \<lparr>aer_term = m_term n', aer_success = b\<rparr>"
proof -
  define R where "R = (if m_state n1 \<noteq> FOLLOWER
    then ResetToFollower pb (draw e 1) (to_int (ae_term req)) n1
    else let n2 = ScheduleElection (draw e 1) (to_int (ae_term req)) n1
         in Inr (n2\<lparr>m_election_deadline := clock e 0 + m_election_timeout n2\<rparr>))"
  define B where "B = (\<lambda>n2 matches. if matches then
      rbind (replicate_entries pb req (n2\<lparr>m_leader_id := ae_leaderId req\<rparr>)) (\<lambda>n3.
      rbind (follower_commit req n3) (\<lambda>n4. Inr (True, n4)))
    else Inr (False, n2))"
  have "ProcessAppendEntriesClientRequest pb e req n =
    rbind (rbind R (\<lambda>n2. rbind (prev_entry_matches req (m_log n2)) (B n2)))
      (\<lambda>(success, n5). Inr ((\<lparr>aer_term = m_term (ae_finish e req n5), aer_success = success\<rparr>, Status_OK), ae_finish e req n5))"
    using live n1 eq unfolding R_def B_def ae_finish_def
    by (simp add: ProcessAppendEntriesClientRequest_def Let_def)
  with res obtain n2 b s n5 where n2: "R = Inr n2" "prev_entry_matches req (m_log n2) = Inr b" "B n2 b = Inr (s, n5)"
    "n' = ae_finish e req n5" "rep = \<lparr>aer_term = m_term n', aer_success = s\<rparr>" by auto
  have "m_state n1 \<noteq> FOLLOWER \<and> ResetToFollower pb (draw e 1) (to_int (ae_term req)) n1 = Inr n2 \<or>
      m_state n1 = FOLLOWER \<and> (\<exists>d. n2 = (ScheduleElection (draw e 1) (to_int (ae_term req)) n1)\<lparr>m_election_deadline := d\<rparr>)"
    using n2(1) by (auto simp: R_def Let_def split: if_splits)
  moreover have "b \<and> (\<exists>n3. replicate_entries pb req (n2\<lparr>m_leader_id := ae_leaderId req\<rparr>) = Inr n3 \<and>
        follower_commit req n3 = Inr n5) \<or> \<not> b \<and> n5 = n2" "s = b"
    using n2(3) by (auto simp: B_def split: if_splits)
  ultimately show ?thesis using n2(2,4,5) by (intro that [of n2 b n5]) simp_all
qed

text \<open>The possible courses of an append request.\<close>

lemma AppendEntries_cases:
  assumes "ProcessAppendEntriesClientRequest pb e req n = Inr ((rep, st), n')"
  obtains (dead) "m_state n = DEAD" and "n' = n" and "\<not> aer_success rep"
  | (stale) n1 where "m_state n \<noteq> DEAD"
      and "(if ae_term req > m_term n then ResetToFollower pb (draw e 0) (to_int (ae_term req)) n else Inr n) = Inr n1"
      and "ae_term req \<noteq> m_term n1" and "\<not> aer_success rep" and "core n' = core n1"
      and "m_configuration n' = m_configuration n1" and "aer_term rep = m_term n1"
  | (current) n1 n2 b where "m_state n \<noteq> DEAD"
      and "(if ae_term req > m_term n then ResetToFollower pb (draw e 0) (to_int (ae_term req)) n else Inr n) = Inr n1"
      and "ae_term req = m_term n1"
      and "m_state n1 \<noteq> FOLLOWER \<and> ResetToFollower pb (draw e 1) (to_int (ae_term req)) n1 = Inr n2 \<or>
        m_state n1 = FOLLOWER \<and> core n2 = core n1"
      and "prev_entry_matches req (m_log n2) = Inr b" and "aer_success rep = b" and "aer_term rep = m_term n'"
      and "b \<and> (\<exists>n3 n4. replicate_entries pb req (n2\<lparr>m_leader_id := ae_leaderId req\<rparr>) = Inr n3 \<and>
           follower_commit req n3 = Inr n4 \<and> core n' = core n4 \<and> m_state_machine n' = m_state_machine n4) \<or>
         \<not> b \<and> core n' = core n2"
      and "m_state_machine n2 = m_state_machine n1"
proof (cases "m_state n = DEAD")
  case True
  then have "n' = n" "\<not> aer_success rep"
    using assms by (auto simp: ProcessAppendEntriesClientRequest_def)
  then show ?thesis by (rule dead [OF True])
next
  case False
  obtain n1 where n1: "(if ae_term req > m_term n then ResetToFollower pb (draw e 0) (to_int (ae_term req)) n else Inr n) = Inr n1"
    using assms False unfolding ProcessAppendEntriesClientRequest_def by auto
  show ?thesis
  proof (cases "ae_term req = m_term n1")
    case ne: False
    then have "n' = ae_finish e req n1 \<and> rep = \<lparr>aer_term = m_term n1, aer_success = False\<rparr>"
      using assms False n1 by (simp add: ProcessAppendEntriesClientRequest_def Let_def ae_finish_def)
        (simp add: ScheduleElection_def)
    with False n1 ne ae_finish_keeps show ?thesis by (intro stale [of n1]) simp_all
  next
    case eq: True
    from assms False n1 eq show ?thesis
    proof (cases rule: AppendEntries_current_steps)
      case (1 n2 b n5)
      have c: "m_state n1 \<noteq> FOLLOWER \<and> ResetToFollower pb (draw e 1) (to_int (ae_term req)) n1 = Inr n2 \<or>
          m_state n1 = FOLLOWER \<and> core n2 = core n1" "m_state_machine n2 = m_state_machine n1"
        using 1(1) by (auto simp: core_def ResetToFollower_def StoreState_def ScheduleElection_def Let_def)
      show ?thesis
        by (rule current [OF False n1 eq c(1) 1(2)]) (use c(2) 1(3-5) ae_finish_keeps in \<open>auto simp: core_def\<close>)
    qed
  qed
qed

lemma ProcessAppendEntriesClientRequest_persisted:
  assumes codec: "codec_ok default_metadata (metadata_codec pb)"
    and inv: "persisted pb n" and res: "ProcessAppendEntriesClientRequest pb e req n = Inr ((rep, st), n')"
  shows "persisted pb n'"
proof -
  have d: "disk_ok pb n" using inv by (simp add: persisted_def)
  have reset: "persisted pb n1" if "(if ae_term req > m_term n
      then ResetToFollower pb (draw e 0) (to_int (ae_term req)) n else Inr n) = Inr n1" for n1
    using that inv ResetToFollower_persisted(1) [OF codec d in_int_to_int] by (auto split: if_splits)
  from res show ?thesis
  proof (cases rule: AppendEntries_cases)
    case (stale n1)
    then show ?thesis using quiet_persisted [OF quiet_core reset] by blast
  next
    case (current n1 n2 b)
    have p1: "persisted pb n1" by (rule reset [OF current(2)])
    then have d1: "disk_ok pb n1" by (simp add: persisted_def)
    have p2: "persisted pb n2"
      using current(4) ResetToFollower_persisted(1) [OF codec d1 in_int_to_int] quiet_persisted [OF quiet_core p1] by blast
    then have p2': "persisted pb (n2\<lparr>m_leader_id := ae_leaderId req\<rparr>)"
      by (rule quiet_persisted [OF quiet_core, rotated]) (simp add: core_def)
    from current(8) show ?thesis
      using quiet_persisted [OF quiet_core p2] quiet_persisted [OF quiet_core]
        quiet_persisted [OF replicate_entries_quiet(1) p2'] quiet_persisted [OF follower_commit_quiet(1)]
      by metis
  qed (use inv in simp)
qed

text \<open>The possible courses of a reply to an append request.\<close>

lemma AppendReply_cases:
  assumes "ProcessAppendEntriesServerResponse pb e req rep a n = Inr n'"
  obtains (ignored) n1 where "(if aer_term rep > ae_term req
        then ResetToFollower pb (draw e 0) (to_int (aer_term rep)) (n\<lparr>m_leader_id := ''''\<rparr>) else Inr n) = Inr n1"
      and "core n' = core n1" and "m_match_index n' = m_match_index n1"
      and "m_lease_holder n' = m_lease_holder n1"
  | (accepted) n1 n5 where "(if aer_term rep > ae_term req
        then ResetToFollower pb (draw e 0) (to_int (aer_term rep)) (n\<lparr>m_leader_id := ''''\<rparr>) else Inr n) = Inr n1"
      and "m_state n1 = LEADER" and "aer_term rep = m_term n1" and "aer_success rep"
      and "core n5 = core n1" and "UpdateCommitIndex pb (draw e 1) n5 = Inr n'"
      and "m_lease_holder n5 \<longleftrightarrow> m_lease_holder n1 \<or>
        m_renew_lease n1 \<and> CheckQuorum (uset_insert a (m_responding_peers n1)) (m_configuration n1)"
proof -
  from assms obtain n1 where n1: "(if aer_term rep > ae_term req
      then ResetToFollower pb (draw e 0) (to_int (aer_term rep)) (n\<lparr>m_leader_id := ''''\<rparr>) else Inr n) = Inr n1"
    unfolding ProcessAppendEntriesServerResponse_def rbind_Inr_iff by blast
  obtain nxt m where g: "map_get a (m_next_index n1) = (nxt, m)" by fastforce
  consider "\<not> (m_state n1 = LEADER \<and> aer_term rep = m_term n1)"
    | "m_state n1 = LEADER" "aer_term rep = m_term n1" "\<not> aer_success rep"
    | "m_state n1 = LEADER" "aer_term rep = m_term n1" "aer_success rep" by blast
  then show ?thesis
  proof cases
    case 1
    then have "n' = n1" using assms n1 by (auto simp: ProcessAppendEntriesServerResponse_def)
    then show ?thesis by (intro ignored [OF n1]) simp_all
  next
    case 2
    then have "n' = n1\<lparr>m_next_index := AList.update a (nxt - 1) m\<rparr>"
      using assms n1 g by (simp add: ProcessAppendEntriesServerResponse_def)
    then show ?thesis by (intro ignored [OF n1]) (simp_all add: core_def)
  next
    case 3
    define n3 where "n3 = renew_lease e a (n1\<lparr>m_next_index := m\<rparr>)"
    define n4 where "n4 = n3\<lparr>m_next_index := AList.update a (nxt + int (length (ae_entries req))) (m_next_index n3),
      m_match_index := AList.update a (nxt + int (length (ae_entries req)) - 1) (m_match_index n3)\<rparr>"
    have c4: "core n4 = core n1"
      using core_renew_lease [of e a "n1\<lparr>m_next_index := m\<rparr>"] by (simp add: n4_def n3_def core_def)
    have "rbind (UpdateSyncProgress a (nxt + int (length (ae_entries req)) - 1) (m_configuration n4)) (\<lambda>(progress, conf).
        let n5 = n4\<lparr>m_configuration := conf\<rparr> in
        UpdateCommitIndex pb (draw e 1) (if progress then notify Membership_sync n5 else n5)) = Inr n'"
      using assms n1 g 3 by (simp add: ProcessAppendEntriesServerResponse_def Let_def n4_def n3_def)
    then obtain p conf where u: "UpdateCommitIndex pb (draw e 1)
        (if p then notify Membership_sync (n4\<lparr>m_configuration := conf\<rparr>) else n4\<lparr>m_configuration := conf\<rparr>) = Inr n'"
      by (auto simp: Let_def)
    have "core (n4\<lparr>m_configuration := conf\<rparr>) = core n1" using c4 by (simp add: core_def)
    moreover have "m_lease_holder n4 \<longleftrightarrow> m_lease_holder n1 \<or>
        m_renew_lease n1 \<and> CheckQuorum (uset_insert a (m_responding_peers n1)) (m_configuration n1)"
      by (auto simp: n4_def n3_def renew_lease_def Let_def)
    ultimately have "core (if p then notify Membership_sync (n4\<lparr>m_configuration := conf\<rparr>)
        else n4\<lparr>m_configuration := conf\<rparr>) = core n1"
      and "m_lease_holder (if p then notify Membership_sync (n4\<lparr>m_configuration := conf\<rparr>)
        else n4\<lparr>m_configuration := conf\<rparr>) \<longleftrightarrow> m_lease_holder n1 \<or>
        m_renew_lease n1 \<and> CheckQuorum (uset_insert a (m_responding_peers n1)) (m_configuration n1)"
      by (simp add: node_simps, simp add: notify_def)
    then show ?thesis by (rule accepted [OF n1 3 _ u])
  qed
qed

lemma ProcessAppendEntriesServerResponse_persisted:
  assumes codec: "codec_ok default_metadata (metadata_codec pb)"
    and inv: "persisted pb n" and res: "ProcessAppendEntriesServerResponse pb e req rep a n = Inr n'"
  shows "persisted pb n'"
proof -
  have d: "disk_ok pb (n\<lparr>m_leader_id := ''''\<rparr>)" using inv by (simp add: persisted_def disk_ok_def)
  have reset: "persisted pb n1" if "(if aer_term rep > ae_term req
      then ResetToFollower pb (draw e 0) (to_int (aer_term rep)) (n\<lparr>m_leader_id := ''''\<rparr>) else Inr n) = Inr n1" for n1
    using that inv ResetToFollower_persisted(1) [OF codec d in_int_to_int] by (auto split: if_splits)
  from res show ?thesis
  proof (cases rule: AppendReply_cases)
    case (ignored n1)
    then show ?thesis using quiet_persisted [OF quiet_core reset] by blast
  next
    case (accepted n1 n5)
    then show ?thesis
      using UpdateCommitIndex_persisted [OF codec quiet_persisted [OF quiet_core reset]] by blast
  qed
qed

lemma InitializeConfiguration_quiet:
  assumes "InitializeConfiguration pb n = Inr n'"
  shows "quiet n n'"
proof -
  consider "PromoteToLeader pb n = Inr n'"
    | n1 i e where "PromoteToLeader pb n = Inr n1" "Module_Append_entry pb e n1 = Inr (i, n')"
    using assms by (auto simp: InitializeConfiguration_def Let_def split: if_splits)
  then show ?thesis
    using PromoteToLeader_quiet(1) Module_Append_entry_quiet(1) quiet_trans by cases blast+
qed

lemma SetConfiguration_begin_quiet:
  "SetConfiguration_begin req n = (pc, n') \<Longrightarrow> quiet n n'"
  by (rule quiet_core) (auto simp: SetConfiguration_begin_def Let_def node_simps core_def
      CreateConnections_def split: if_splits)

lemma SetConfiguration_sync_quiet:
  assumes "SetConfiguration_sync pb t conf n = Inr (pc, n')"
  shows "quiet n n'"
proof -
  consider "core n' = core n" | e i where "Module_Append_entry pb e n = Inr (i, n')"
    using assms by (auto simp: SetConfiguration_sync_def Let_def core_def split: if_splits)
  then show ?thesis using quiet_core Module_Append_entry_quiet(1) by cases blast+
qed

lemma SetConfiguration_wait_quiet: "SetConfiguration_wait b t conf n = Inr (pc, n') \<Longrightarrow> quiet n n'"
  by (rule quiet_core) (auto simp: SetConfiguration_wait_def Let_def core_def split: if_splits)

lemma RegisterClient_begin_quiet:
  assumes "RegisterClient_begin pb n = Inr (r, n')"
  shows "quiet n n'"
proof -
  consider "n' = n" | e i where "Module_Append_entry pb e n = Inr (i, n')"
    using assms by (auto simp: RegisterClient_begin_def Let_def split: if_splits)
  then show ?thesis using quiet_core Module_Append_entry_quiet(1) by cases blast+
qed

lemma ClientRequest_begin_quiet:
  assumes "ClientRequest_begin pb req n = Inr (r, n')"
  shows "quiet n n'"
proof -
  consider "n' = n" | e i where "Module_Append_entry pb e n = Inr (i, n')"
    using assms by (auto simp: ClientRequest_begin_def Let_def split: if_splits)
  then show ?thesis using quiet_core Module_Append_entry_quiet(1) by cases blast+
qed

lemma RegisterClient_resume_core: "RegisterClient_resume w n = Inr (r, n') \<Longrightarrow> core n' = core n"
  by (auto simp: RegisterClient_resume_def increment_applied_def core_def split: if_splits)

lemma ClientRequest_resume_core: "ClientRequest_resume req w n = Inr (r, n') \<Longrightarrow> core n' = core n"
  by (auto simp: ClientRequest_resume_def increment_applied_def set_sessions_def core_def Let_def
      split: if_splits)

end
