(* ===== verification/Node_Runs.thy ===== *)
theory Node_Runs
  imports Consensus_Persistence
begin

section \<open>Runs of a node\<close>

text \<open>
  A node as a state machine: one event per handler of the consensus module, runs as sequences
  of events with crashes and restarts in between, the reachable states, and the invariants that
  hold along them. A callback that a timer has already handed to its executor may run after the
  timer was changed, so an event may fire any callback. A crash happens between two handlers.
\<close>

subsection \<open>Events\<close>

datatype Event =
    Timer_fires env Callback
  | Vote_request env RequestVote_Request
  | Vote_reply env RequestVote_Request RequestVote_Response string
  | Append_request env AppendEntries_Request
  | Append_reply env AppendEntries_Request AppendEntries_Response string
  | Set_configuration SetConfiguration_Request
  | Sync_round int Configuration
  | Sync_wait bool int Configuration
  | Register_client
  | Register_resumes waiting_call
  | Client_write ClientRequest_Request
  | Write_resumes ClientRequest_Request waiting_call
  | Initialize_configuration
  | Stop
  | Crash_restart int int

definition restart_node :: "protobuf \<Rightarrow> int \<Rightarrow> int \<Rightarrow> ConsensusModule \<Rightarrow> ConsensusModule result" where
  "restart_node pb max_size now n =
     rbind (PersistedLog_new pb (m_dir (m_log n)) True max_size (disk (m_log n))) (\<lambda>l.
       Inr (StateMachineInit (ConsensusModule_new (ctx_address n) l now)))"

fun handle :: "protobuf \<Rightarrow> Event \<Rightarrow> ConsensusModule \<Rightarrow> ConsensusModule result" where
  "handle pb (Timer_fires e cb) n = run_callback pb e cb n"
| "handle pb (Vote_request e req) n = rbind (ProcessRequestVoteClientRequest pb e req n) (\<lambda>(r, n'). Inr n')"
| "handle pb (Vote_reply e req rep a) n = ProcessRequestVoteServerResponse pb e req rep a n"
| "handle pb (Append_request e req) n = rbind (ProcessAppendEntriesClientRequest pb e req n) (\<lambda>(r, n'). Inr n')"
| "handle pb (Append_reply e req rep a) n = ProcessAppendEntriesServerResponse pb e req rep a n"
| "handle pb (Set_configuration req) n = Inr (snd (SetConfiguration_begin req n))"
| "handle pb (Sync_round t conf) n = rbind (SetConfiguration_sync pb t conf n) (\<lambda>(pc, n'). Inr n')"
| "handle pb (Sync_wait b t conf) n = rbind (SetConfiguration_wait b t conf n) (\<lambda>(pc, n'). Inr n')"
| "handle pb Register_client n = rbind (RegisterClient_begin pb n) (\<lambda>(r, n'). Inr n')"
| "handle pb (Register_resumes w) n = rbind (RegisterClient_resume w n) (\<lambda>(r, n'). Inr n')"
| "handle pb (Client_write req) n = rbind (ClientRequest_begin pb req n) (\<lambda>(r, n'). Inr n')"
| "handle pb (Write_resumes req w) n = rbind (ClientRequest_resume req w n) (\<lambda>(r, n'). Inr n')"
| "handle pb Initialize_configuration n = InitializeConfiguration pb n"
| "handle pb Stop n = Inr (Shutdown n)"
| "handle pb (Crash_restart max_size now) n = restart_node pb max_size now n"

text \<open>Callbacks carry terms of the module, which are \<open>int\<close> values.\<close>

fun event_in_int :: "Event \<Rightarrow> bool" where
  "event_in_int (Timer_fires e (ResetToFollower_at t)) = in_int t"
| "event_in_int _ = True"

subsection \<open>The persistence invariant along runs\<close>

lemma StateMachineInit_fields:
  "m_log (StateMachineInit n) = m_log n" "ctx_address (StateMachineInit n) = ctx_address n"
  "m_term (StateMachineInit n) =
     (if snd (Metadata (m_log n)) then to_int (md_term (m_metadata (m_log n))) else m_term n)"
  "m_vote (StateMachineInit n) = (if snd (Metadata (m_log n)) then md_vote (m_metadata (m_log n)) else m_vote n)"
  by (auto simp: StateMachineInit_def Let_def Metadata_def CreateConnections_def split: option.splits)

lemma StateMachineInit_persisted:
  fixes l :: PersistedLog and a :: string and now :: int
  assumes "names_ok l" and "metadata_synced pb l" and "in_int (md_term (m_metadata l))"
  defines "n \<equiv> StateMachineInit (ConsensusModule_new a l now)"
  shows "persisted pb n" and "m_term n = md_term (m_metadata l)" and "m_vote n = md_vote (m_metadata l)"
proof -
  have new: "m_log (ConsensusModule_new a l now) = l" "m_term (ConsensusModule_new a l now) = 0"
    "m_vote (ConsensusModule_new a l now) = ''''"
    by (simp_all add: ConsensusModule_new_def)
  have "md_version (m_metadata l) = 0 \<Longrightarrow> m_metadata l = default_metadata"
    using assms(2) by (simp add: metadata_synced_def)
  then show "m_term n = md_term (m_metadata l)" "m_vote n = md_vote (m_metadata l)"
    using assms(3) by (auto simp: n_def StateMachineInit_fields new Metadata_def default_metadata_def)
  then show "persisted pb n"
    using assms(1-3) by (simp add: persisted_def disk_ok_def n_def StateMachineInit_fields new)
qed

lemma restart_node_persisted:
  assumes "persisted pb n" and "restart_node pb max_size now n = Inr n'"
  shows "persisted pb n'" and "m_term n' = m_term n" and "m_vote n' = m_vote n"
proof -
  obtain l where l: "PersistedLog_new pb (m_dir (m_log n)) True max_size (disk (m_log n)) = Inr l"
    "n' = StateMachineInit (ConsensusModule_new (ctx_address n) l now)"
    using assms(2) by (auto simp: restart_node_def)
  have p: "metadata_synced pb (m_log n)" "in_int (m_term n)" "md_term (m_metadata (m_log n)) = m_term n"
    "md_vote (m_metadata (m_log n)) = m_vote n"
    using assms(1) by (simp_all add: persisted_def disk_ok_def)
  from restart_metadata_Inr [OF p(1) l(1)] have r: "m_metadata l = m_metadata (m_log n)" "metadata_synced pb l"
    "names_ok l" by auto
  with p have "in_int (md_term (m_metadata l))" by simp
  from StateMachineInit_persisted [OF r(3,2) this] r(1) p l(2)
  show "persisted pb n'" "m_term n' = m_term n" "m_vote n' = m_vote n" by simp_all
qed

lemma restart_state:
  assumes "restart_node pb max_size now n = Inr n'"
  shows "m_state n' = CANDIDATE"
proof -
  have "m_state (StateMachineInit k) = m_state k" for k
    by (auto simp: StateMachineInit_def Let_def Metadata_def CreateConnections_def split: option.splits)
  with assms show ?thesis by (auto simp: restart_node_def) (simp add: ConsensusModule_new_def)
qed

lemma run_callback_persisted:
  assumes codec: "codec_ok default_metadata (metadata_codec pb)" and inv: "persisted pb n"
    and "event_in_int (Timer_fires e cb)" and "run_callback pb e cb n = Inr n'"
  shows "persisted pb n'"
proof (cases cb)
  case (ElectionCallback_at t)
  then show ?thesis using ElectionCallback_persisted [OF codec inv, of e t n'] assms(4) by (simp add: run_callback_def)
next
  case HeartbeatCallback_bound
  then show ?thesis using HeartbeatCallback_persisted [OF codec inv, of e n'] assms(4) by (simp add: run_callback_def)
next
  case (ResetToFollower_at t)
  have d: "disk_ok pb n" using inv by (simp add: persisted_def)
  from ResetToFollower_at show ?thesis
    using ResetToFollower_persisted(1) [OF codec d, of t "draw e 0" n'] assms(3,4) by (simp add: run_callback_def)
qed

text \<open>The events that touch neither term nor vote.\<close>

fun quiet_event :: "Event \<Rightarrow> bool" where
  "quiet_event (Set_configuration _) = True"
| "quiet_event (Sync_round _ _) = True"
| "quiet_event (Sync_wait _ _ _) = True"
| "quiet_event Register_client = True"
| "quiet_event (Register_resumes _) = True"
| "quiet_event (Client_write _) = True"
| "quiet_event (Write_resumes _ _) = True"
| "quiet_event Initialize_configuration = True"
| "quiet_event Stop = True"
| "quiet_event _ = False"

lemma handle_quiet:
  assumes "quiet_event ev" and res: "handle pb ev n = Inr n'"
  shows "quiet n n'"
  using assms(1)
proof (cases ev rule: quiet_event.cases)
  case (1 req)
  then show ?thesis
    using SetConfiguration_begin_quiet [of req n "fst (SetConfiguration_begin req n)" n'] res by auto
next
  case (2 t conf)
  then obtain pc where "SetConfiguration_sync pb t conf n = Inr (pc, n')" using res by auto
  then show ?thesis by (rule SetConfiguration_sync_quiet)
next
  case (3 b t conf)
  then obtain pc where "SetConfiguration_wait b t conf n = Inr (pc, n')" using res by auto
  then show ?thesis by (rule SetConfiguration_wait_quiet)
next
  case 4
  then obtain r where "RegisterClient_begin pb n = Inr (r, n')" using res by auto
  then show ?thesis by (rule RegisterClient_begin_quiet)
next
  case (5 w)
  then obtain r where "RegisterClient_resume w n = Inr (r, n')" using res by auto
  then show ?thesis by (rule quiet_core [OF RegisterClient_resume_core])
next
  case (6 req)
  then obtain r where "ClientRequest_begin pb req n = Inr (r, n')" using res by auto
  then show ?thesis by (rule ClientRequest_begin_quiet)
next
  case (7 req w)
  then obtain r where "ClientRequest_resume req w n = Inr (r, n')" using res by auto
  then show ?thesis by (rule quiet_core [OF ClientRequest_resume_core])
next
  case 8
  then show ?thesis using InitializeConfiguration_quiet res by simp
next
  case 9
  then show ?thesis using res by (auto simp: Shutdown_def quiet_def log_frame_refl)
qed simp_all

lemma handle_persisted:
  assumes codec: "codec_ok default_metadata (metadata_codec pb)" and inv: "persisted pb n"
    and ev: "event_in_int ev" and res: "handle pb ev n = Inr n'"
  shows "persisted pb n'"
proof (cases "quiet_event ev")
  case True
  from handle_quiet [OF this res] show ?thesis by (rule quiet_persisted [OF _ inv])
next
  case False
  then show ?thesis
  proof (cases ev)
    case (Timer_fires e cb)
    then show ?thesis using run_callback_persisted [OF codec inv] ev res by simp
  next
    case (Vote_request e req)
    then show ?thesis using ProcessRequestVoteClientRequest_persisted [OF codec inv] res by auto
  next
    case (Vote_reply e req rep a)
    then show ?thesis using ProcessRequestVoteServerResponse_persisted [OF codec inv] res by simp
  next
    case (Append_request e req)
    then show ?thesis using ProcessAppendEntriesClientRequest_persisted [OF codec inv] res by auto
  next
    case (Append_reply e req rep a)
    then show ?thesis using ProcessAppendEntriesServerResponse_persisted [OF codec inv] res by simp
  next
    case (Crash_restart s t)
    then show ?thesis using restart_node_persisted(1) [OF inv] res by simp
  qed (use False in simp_all)
qed

subsection \<open>Reachable states\<close>

inductive node_reachable :: "protobuf \<Rightarrow> ConsensusModule \<Rightarrow> bool" for pb where
  boot: "\<forall>f \<in> metadata_names. fs_read fs (d @ f) = None \<Longrightarrow>
    node_reachable pb (StateMachineInit (ConsensusModule_new a (fresh_log d max_size fs) now))"
| event: "node_reachable pb n \<Longrightarrow> event_in_int ev \<Longrightarrow> handle pb ev n = Inr n' \<Longrightarrow> node_reachable pb n'"

lemma reachable_persisted:
  assumes "codec_ok default_metadata (metadata_codec pb)" and "node_reachable pb n"
  shows "persisted pb n"
  using assms(2)
proof (induction rule: node_reachable.induct)
  case (boot fs d a max_size now)
  note F = fresh_log_synced [OF boot]
  show ?case
    by (rule StateMachineInit_persisted(1) [OF F])
      (simp add: fresh_log_def default_metadata_def in_int_def)
next
  case (event n ev n')
  then show ?case using handle_persisted [OF assms(1)] by blast
qed

subsection \<open>One vote per term\<close>

text \<open>Term and vote only move forward: a vote, once cast, stands until the term grows.\<close>

definition vote_stable :: "ConsensusModule \<Rightarrow> ConsensusModule \<Rightarrow> bool" where
  "vote_stable n n' \<longleftrightarrow>
     m_term n < m_term n' \<or> (m_term n' = m_term n \<and> (m_vote n \<noteq> '''' \<longrightarrow> m_vote n' = m_vote n))"

lemma quiet_stable: "quiet n n' \<Longrightarrow> vote_stable n n'"
  by (simp add: quiet_def vote_stable_def)

lemma vote_stable_trans: "vote_stable n n1 \<Longrightarrow> vote_stable n1 n2 \<Longrightarrow> vote_stable n n2"
  by (auto simp: vote_stable_def)

lemma StoreState_fields: "StoreState pb n = Inr n' \<Longrightarrow> n' = n\<lparr>m_log := m_log n'\<rparr>"
  by (auto simp: StoreState_def)

lemma StoreState_keeps:
  assumes "StoreState pb n = Inr n'"
  shows "m_term n' = m_term n" and "m_vote n' = m_vote n" and "m_state n' = m_state n"
  using assms by (auto simp: StoreState_def)

lemma ResetToFollower_fields:
  assumes "ResetToFollower pb r t n = Inr n'"
  shows "m_term n' = t" and "m_vote n' = ''''" and "m_state n' = FOLLOWER"
    and "m_election_deadline n' = m_election_deadline n"
proof -
  obtain n2 where n2: "n' = ScheduleElection r t n2" "StoreState pb (n\<lparr>m_state := FOLLOWER, m_renew_lease := False,
     m_lease_holder := False, m_term := t, m_vote := '''', m_votes_received := 0,
     m_heartbeat_timer := Timer_Cancel (m_heartbeat_timer n),
     m_lease_timer := Timer_Cancel (m_lease_timer n)\<rparr>) = Inr n2"
    using assms by (auto simp: ResetToFollower_def Let_def)
  show "m_term n' = t" "m_vote n' = ''''" "m_state n' = FOLLOWER" "m_election_deadline n' = m_election_deadline n"
    unfolding n2(1) ScheduleElection_def by (subst StoreState_fields [OF n2(2)], simp)+
qed

lemma ResetToFollower_stable:
  "ResetToFollower pb r t n = Inr n' \<Longrightarrow> m_term n < t \<Longrightarrow> vote_stable n n'"
  by (simp add: vote_stable_def ResetToFollower_fields)

lemma UpdateCommitIndex_stable:
  assumes "UpdateCommitIndex pb r n = Inr n'"
  shows "vote_stable n n'"
proof -
  have q1: "vote_stable n n1" "vote_stable n (notify Membership_sync n1)" if "advance_commit n = Inr n1" for n1
    using quiet_stable [OF quiet_trans [OF advance_commit_frame(1) [OF that] quiet_core]]
    by (simp_all add: node_simps)
  from assms show ?thesis
  proof (cases rule: UpdateCommitIndex_cases)
    case (removed n1)
    have "vote_stable (notify Membership_sync n1) n'"
      by (rule ResetToFollower_stable [OF removed(3)]) (simp add: notify_def)
    with q1(2) [OF removed(1)] show ?thesis by (rule vote_stable_trans)
  next
    case (transition n1 i e)
    from quiet_stable [OF Module_Append_entry_quiet(1) [OF transition(2)]] q1(2) [OF transition(1)]
    show ?thesis by (blast intro: vote_stable_trans)
  qed (use q1 in simp_all)
qed

lemma ElectionCallback_stable:
  assumes res: "ElectionCallback pb e t n = Inr n'" and lim: "m_term n < 2 ^ 31 - 1" "in_int (m_term n)"
  shows "vote_stable n n'" and "m_term n' \<noteq> m_term n \<Longrightarrow> m_term n < m_term n' \<and> m_vote n' = ctx_address n"
proof -
  define n1 where "n1 = n\<lparr>m_state := CANDIDATE, m_term := to_int (m_term n + 1), m_vote := ctx_address n,
    m_votes_received := 1\<rparr>"
  have up: "m_term n1 = m_term n + 1" using lim by (simp add: n1_def in_int_def)
  consider "core n' = core n" | n2 where "StoreState pb n1 = Inr n2" "PromoteToLeader pb n2 = Inr n'"
    | n2 where "StoreState pb n1 = Inr n2" "core n' = core n2"
    using res by (auto simp: ElectionCallback_def Let_def n1_def node_simps split: if_splits)
  then have "core n' = core n \<or> (m_term n' = m_term n1 \<and> m_vote n' = m_vote n1)"
  proof cases
    case (2 n2)
    with PromoteToLeader_quiet(1) [OF 2(2)] show ?thesis by (simp add: quiet_def StoreState_keeps)
  next
    case (3 n2)
    then show ?thesis by (simp add: core_def StoreState_keeps)
  qed simp
  then show "vote_stable n n'" "m_term n' \<noteq> m_term n \<Longrightarrow> m_term n < m_term n' \<and> m_vote n' = ctx_address n"
    using up by (auto simp: vote_stable_def core_def n1_def)
qed

lemma HeartbeatCallback_stable:
  assumes "HeartbeatCallback pb e n = Inr n'"
  shows "vote_stable n n'"
proof (cases "m_state n = LEADER")
  case True
  define n1 where "n1 = n\<lparr>m_heartbeat_time := clock e 0, m_renew_lease := True,
    m_responding_peers := [ctx_address n]\<rparr>"
  from assms True obtain n2 n3 where n2: "heartbeat_loop (m_term n1) (ServerAddresses (m_configuration n1)) n1 = Inr n2"
    and n3: "n3 = n2 \<or> UpdateCommitIndex pb (draw e 0) n2 = Inr n3" and n': "n' = ScheduleHeartbeat n3"
    by (auto simp: HeartbeatCallback_def Let_def n1_def split: if_splits)
  have "vote_stable n n2" using heartbeat_loop_core [OF n2] by (simp add: vote_stable_def core_def n1_def)
  moreover have "vote_stable n2 n3" using n3 UpdateCommitIndex_stable by (auto simp: vote_stable_def)
  ultimately show ?thesis
    using vote_stable_trans by (fastforce simp: n' ScheduleHeartbeat_def vote_stable_def)
qed (use assms in \<open>simp add: HeartbeatCallback_def vote_stable_def\<close>)

lemma RequestVote_stable:
  assumes res: "ProcessRequestVoteClientRequest pb e req n = Inr ((rep, st), n')"
    and req: "in_int (rv_term req)"
  shows "vote_stable n n'"
    and "rvr_voteGranted rep \<Longrightarrow> rvr_term rep = m_term n' \<and> rv_term req = m_term n' \<and> m_vote n' = rv_candidateId req \<and>
      st = Status_OK"
proof -
  have "vote_stable n n' \<and> (rvr_voteGranted rep \<longrightarrow> rvr_term rep = m_term n' \<and> rv_term req = m_term n' \<and>
      m_vote n' = rv_candidateId req \<and> st = Status_OK)"
    using res
  proof (cases rule: RequestVote_cases)
    case (considered n1 lt)
    have s1: "vote_stable n n1"
      using considered(4) ResetToFollower_stable [of pb "draw e 0" "rv_term req" n n1] req
      by (auto simp: vote_stable_def split: if_splits)
    from considered(8) show ?thesis
    proof
      assume "\<not> vote_condition req lt n1 \<and> \<not> rvr_voteGranted rep \<and> n' = n1"
      with s1 show ?thesis by simp
    next
      assume g: "vote_condition req lt n1 \<and> rvr_voteGranted rep \<and>
        (\<exists>n2. StoreState pb (n1\<lparr>m_vote := rv_candidateId req\<rparr>) = Inr n2 \<and>
           n' = ScheduleElection (draw e 1) (to_int (rv_term req)) n2)"
      then have n': "m_term n' = m_term n1" "m_vote n' = rv_candidateId req"
        by (auto simp: ScheduleElection_def StoreState_keeps)
      have "vote_stable n1 n'" using g n' by (auto simp: vote_stable_def vote_condition_def)
      with s1 have "vote_stable n n'" by (rule vote_stable_trans)
      with g n' considered(6,7) show ?thesis by (simp add: vote_condition_def)
    qed
  qed (simp add: vote_stable_def)
  then show "vote_stable n n'" "rvr_voteGranted rep \<Longrightarrow> rvr_term rep = m_term n' \<and> rv_term req = m_term n' \<and>
      m_vote n' = rv_candidateId req \<and> st = Status_OK" by blast+
qed

lemma RequestVoteReply_stable:
  assumes "ProcessRequestVoteServerResponse pb e req rep a n = Inr n'"
    and "rvr_term rep > rv_term req \<longrightarrow> m_term n < to_int (rvr_term rep)"
  shows "vote_stable n n'"
proof -
  define n1 where "n1 = n\<lparr>m_votes_received := m_votes_received n + 1\<rparr>"
  have s1: "vote_stable n n1" by (simp add: n1_def vote_stable_def)
  consider "n' = n" | "n' = n1"
    | "rvr_term rep > rv_term req" "ResetToFollower pb (draw e 0) (to_int (rvr_term rep)) n = Inr n'"
    | "PromoteToLeader pb n1 = Inr n'"
    using assms(1) unfolding ProcessRequestVoteServerResponse_def Let_def n1_def [symmetric]
    by (metis sum.inject(2))
  then show ?thesis
  proof cases
    case 3
    then show ?thesis using ResetToFollower_stable assms(2) by blast
  next
    case 4
    from quiet_stable [OF PromoteToLeader_quiet(1) [OF 4]] show ?thesis by (rule vote_stable_trans [OF s1])
  qed (use s1 in \<open>simp_all add: vote_stable_def\<close>)
qed

lemma AppendEntries_tail:
  assumes "b \<and> (\<exists>n3 n4. replicate_entries pb req (n2\<lparr>m_leader_id := ae_leaderId req\<rparr>) = Inr n3 \<and>
      follower_commit req n3 = Inr n4 \<and> core n' = core n4 \<and> m_state_machine n' = m_state_machine n4) \<or>
    \<not> b \<and> core n' = core n2"
  shows "quiet n2 n'" and "m_state n' = m_state n2"
proof -
  have "quiet n2 n' \<and> m_state n' = m_state n2"
    using assms
  proof
    assume "b \<and> (\<exists>n3 n4. replicate_entries pb req (n2\<lparr>m_leader_id := ae_leaderId req\<rparr>) = Inr n3 \<and>
         follower_commit req n3 = Inr n4 \<and> core n' = core n4 \<and> m_state_machine n' = m_state_machine n4)"
    then obtain n3 n4 where n3: "replicate_entries pb req (n2\<lparr>m_leader_id := ae_leaderId req\<rparr>) = Inr n3"
      and n4: "follower_commit req n3 = Inr n4" "core n' = core n4" by blast
    note q = replicate_entries_quiet(1) [OF n3] follower_commit_quiet(1) [OF n4(1)] quiet_core [OF n4(2)]
    have "quiet n2 (n2\<lparr>m_leader_id := ae_leaderId req\<rparr>)" by (rule quiet_core) (simp add: core_def)
    with q have "quiet n2 n'" by (blast intro: quiet_trans)
    then show ?thesis
      using replicate_entries_quiet(2) [OF n3] follower_commit_quiet(3) [OF n4(1)] n4(2) by (simp add: core_def)
  next
    assume "\<not> b \<and> core n' = core n2"
    then show ?thesis by (simp add: quiet_core core_def)
  qed
  then show "quiet n2 n'" "m_state n' = m_state n2" by blast+
qed

lemma AppendEntries_stable:
  assumes res: "ProcessAppendEntriesClientRequest pb e req n = Inr ((rep, st), n')"
    and req: "in_int (ae_term req)" "ae_term req = m_term n \<longrightarrow> m_state n = FOLLOWER \<or> m_state n = DEAD \<or> m_vote n = ''''"
  shows "vote_stable n n'"
proof -
  have reset: "vote_stable n n1 \<and> (ae_term req = m_term n1 \<longrightarrow> m_state n1 = FOLLOWER \<or> m_state n1 = DEAD \<or> m_vote n1 = '''')"
    if "(if ae_term req > m_term n then ResetToFollower pb (draw e 0) (to_int (ae_term req)) n else Inr n) = Inr n1" for n1
    using that req ResetToFollower_stable [of pb "draw e 0" "ae_term req" n n1] ResetToFollower_fields(3)
    by (auto simp: vote_stable_def split: if_splits)
  from res show ?thesis
  proof (cases rule: AppendEntries_cases)
    case (stale n1)
    then show ?thesis
      using reset [OF stale(2)] vote_stable_trans quiet_stable [OF quiet_core [OF stale(5)]] by blast
  next
    case (current n1 n2 b)
    have s: "vote_stable n n1" "m_state n1 = FOLLOWER \<or> m_state n1 = DEAD \<or> m_vote n1 = ''''"
      using reset [OF current(2)] current(3) by auto
    have "vote_stable n1 n2"
    proof (cases "m_state n1 = FOLLOWER")
      case True
      with current(4) have "core n2 = core n1" by simp
      then show ?thesis by (simp add: quiet_stable quiet_core)
    next
      case False
      then have "m_term n2 = to_int (ae_term req)" "m_vote n2 = ''''"
        using current(4) ResetToFollower_fields(1,2) by auto
      moreover have "m_state n1 \<noteq> DEAD" using current(1,2) ResetToFollower_fields(3) by (auto split: if_splits)
      ultimately show ?thesis using s(2) False current(3) req(1) by (auto simp: vote_stable_def)
    qed
    with s(1) have "vote_stable n n2" by (rule vote_stable_trans)
    then show ?thesis by (rule vote_stable_trans [OF _ quiet_stable [OF AppendEntries_tail(1) [OF current(8)]]])
  qed (simp add: vote_stable_def)
qed

text \<open>
  The exception: a node that is no follower and gets an append request of its own term resets
  itself to this term, and its vote of the term is gone.
\<close>

lemma AppendEntries_forgets:
  assumes res: "ProcessAppendEntriesClientRequest pb e req n = Inr ((rep, st), n')"
    and n: "ae_term req = m_term n" "m_state n \<noteq> FOLLOWER" "m_state n \<noteq> DEAD" "in_int (m_term n)"
  shows "m_term n' = m_term n" and "m_vote n' = ''''" and "m_state n' = FOLLOWER"
proof -
  have "m_term n' = m_term n \<and> m_vote n' = '''' \<and> m_state n' = FOLLOWER"
    using res
  proof (cases rule: AppendEntries_cases)
    case (stale n1)
    then show ?thesis using n by simp
  next
    case (current n1 n2 b)
    have "n1 = n" using current(2) n(1) by simp
    then have "m_term n2 = m_term n" "m_vote n2 = ''''" "m_state n2 = FOLLOWER"
      using current(4) n ResetToFollower_fields(1-3) by auto
    with AppendEntries_tail [OF current(8)] show ?thesis by (simp add: quiet_def)
  qed (use n in simp)
  then show "m_term n' = m_term n" "m_vote n' = ''''" "m_state n' = FOLLOWER" by blast+
qed

lemma AppendReply_stable:
  assumes res: "ProcessAppendEntriesServerResponse pb e req rep a n = Inr n'"
    and rep: "aer_term rep > ae_term req \<longrightarrow> m_term n < to_int (aer_term rep)"
  shows "vote_stable n n'"
proof -
  have reset: "vote_stable n n1" if "(if aer_term rep > ae_term req
      then ResetToFollower pb (draw e 0) (to_int (aer_term rep)) (n\<lparr>m_leader_id := ''''\<rparr>) else Inr n) = Inr n1" for n1
    using that rep ResetToFollower_fields(1) [of pb "draw e 0" "to_int (aer_term rep)" "n\<lparr>m_leader_id := ''''\<rparr>" n1]
    by (auto simp: vote_stable_def split: if_splits)
  from res show ?thesis
  proof (cases rule: AppendReply_cases)
    case (ignored n1)
    with reset [OF ignored(1)] quiet_stable [OF quiet_core] show ?thesis by (blast intro: vote_stable_trans)
  next
    case (accepted n1 n5)
    from vote_stable_trans [OF quiet_stable [OF quiet_core [OF accepted(5)]] UpdateCommitIndex_stable [OF accepted(6)]]
    show ?thesis by (rule vote_stable_trans [OF reset [OF accepted(1)]])
  qed
qed

text \<open>
  The votes that an event casts, by a granted request or by the node's own candidacy; the events
  that cannot move the term back: no lease expiry and no reply that resets to a term that is not
  greater than the present one, terms that fit the code's \<open>int\<close>, and named candidates; and the
  events that make a node forget the vote of its present term: an append request of this term
  that finds it, with a vote cast, as a candidate or leader. A node that has voted for another
  is a follower, unless it has restarted since: the constructor makes it a candidate again.
\<close>

fun votes_of :: "protobuf \<Rightarrow> Event \<Rightarrow> ConsensusModule \<Rightarrow> (int \<times> string) list" where
  "votes_of pb (Vote_request e req) n =
     (case ProcessRequestVoteClientRequest pb e req n of
        Inr ((rep, st), n') \<Rightarrow> if rvr_voteGranted rep then [(rvr_term rep, rv_candidateId req)] else []
      | Inl x \<Rightarrow> [])"
| "votes_of pb (Timer_fires e (ElectionCallback_at t)) n =
     (case ElectionCallback pb e t n of
        Inr n' \<Rightarrow> if m_term n' \<noteq> m_term n then [(m_term n', ctx_address n)] else []
      | Inl x \<Rightarrow> [])"
| "votes_of pb ev n = []"

fun no_regress :: "Event \<Rightarrow> ConsensusModule \<Rightarrow> bool" where
  "no_regress (Timer_fires e (ResetToFollower_at t)) n \<longleftrightarrow> m_term n < t"
| "no_regress (Timer_fires e (ElectionCallback_at t)) n \<longleftrightarrow> m_term n < 2 ^ 31 - 1 \<and> ctx_address n \<noteq> ''''"
| "no_regress (Vote_request e req) n \<longleftrightarrow> in_int (rv_term req) \<and> rv_candidateId req \<noteq> ''''"
| "no_regress (Vote_reply e req rep a) n \<longleftrightarrow>
     (rvr_term rep > rv_term req \<longrightarrow> m_term n < to_int (rvr_term rep))"
| "no_regress (Append_request e req) n \<longleftrightarrow>
     in_int (ae_term req)"
| "no_regress (Append_reply e req rep a) n \<longleftrightarrow>
     (aer_term rep > ae_term req \<longrightarrow> m_term n < to_int (aer_term rep))"
| "no_regress ev n \<longleftrightarrow> True"

fun forgets_vote :: "Event \<Rightarrow> ConsensusModule \<Rightarrow> bool" where
  "forgets_vote (Append_request e req) n \<longleftrightarrow>
     ae_term req = m_term n \<and> (m_state n = CANDIDATE \<or> m_state n = LEADER) \<and> m_vote n \<noteq> ''''"
| "forgets_vote ev n \<longleftrightarrow> False"

fun node_run :: "protobuf \<Rightarrow> Event list \<Rightarrow> ConsensusModule \<Rightarrow> ((int \<times> string) list \<times> ConsensusModule) result" where
  "node_run pb [] n = Inr ([], n)"
| "node_run pb (ev # evs) n =
     rbind (handle pb ev n) (\<lambda>n1.
     rbind (node_run pb evs n1) (\<lambda>(vs, n2). Inr (votes_of pb ev n @ vs, n2)))"

fun guarded :: "protobuf \<Rightarrow> Event list \<Rightarrow> ConsensusModule \<Rightarrow> bool" where
  "guarded pb [] n \<longleftrightarrow> True"
| "guarded pb (ev # evs) n \<longleftrightarrow>
     event_in_int ev \<and> no_regress ev n \<and> \<not> forgets_vote ev n \<and>
     (case handle pb ev n of Inr n1 \<Rightarrow> guarded pb evs n1 | Inl x \<Rightarrow> True)"

lemma handle_forgets:
  assumes "persisted pb n" and "forgets_vote ev n" and "handle pb ev n = Inr n'"
  shows "m_term n' = m_term n" and "votes_of pb ev n = []" and "m_vote n' = ''''"
proof -
  obtain e req where ev: "ev = Append_request e req" using assms(2) by (cases "(ev, n)" rule: forgets_vote.cases) auto
  then obtain r st where res: "ProcessAppendEntriesClientRequest pb e req n = Inr ((r, st), n')" using assms(3) by auto
  have "in_int (m_term n)" using assms(1) by (simp add: persisted_def)
  with AppendEntries_forgets [OF res] assms(2) ev show "m_term n' = m_term n" "m_vote n' = ''''" by auto
  show "votes_of pb ev n = []" by (simp add: ev)
qed

lemma handle_stable:
  assumes inv: "persisted pb n" and ok: "no_regress ev n" "\<not> forgets_vote ev n" and res: "handle pb ev n = Inr n'"
  shows "vote_stable n n'"
proof (cases "quiet_event ev")
  case True
  from handle_quiet [OF this res] show ?thesis by (rule quiet_stable)
next
  case False
  have int: "in_int (m_term n)" using inv by (simp add: persisted_def)
  from False show ?thesis
  proof (cases ev)
    case (Timer_fires e cb)
    with ok res int show ?thesis
      by (cases cb) (auto simp: run_callback_def ElectionCallback_stable HeartbeatCallback_stable ResetToFollower_stable)
  next
    case (Vote_request e req)
    then show ?thesis using RequestVote_stable(1) ok res by auto
  next
    case (Vote_reply e req rep a)
    then show ?thesis using RequestVoteReply_stable ok res by simp
  next
    case (Append_request e req)
    then obtain r st where "ProcessAppendEntriesClientRequest pb e req n = Inr ((r, st), n')" using res by auto
    from AppendEntries_stable [OF this] Append_request ok show ?thesis by (cases "m_state n") auto
  next
    case (Append_reply e req rep a)
    then show ?thesis using AppendReply_stable ok res by simp
  next
    case (Crash_restart s t)
    then show ?thesis using restart_node_persisted(2,3) [OF inv] res by (simp add: vote_stable_def)
  qed (use False in simp_all)
qed

lemma votes_of_cast:
  assumes inv: "persisted pb n" and ok: "no_regress ev n" and res: "handle pb ev n = Inr n'"
    and v: "(t, c) \<in> set (votes_of pb ev n)"
  shows "t = m_term n' \<and> m_vote n' = c \<and> c \<noteq> ''''"
proof -
  have int: "in_int (m_term n)" using inv by (simp add: persisted_def)
  show ?thesis
  proof (cases ev)
    case (Timer_fires e cb)
    then obtain t' where cb: "cb = ElectionCallback_at t'" using v by (cases cb) auto
    then have "ElectionCallback pb e t' n = Inr n'" using res Timer_fires by (simp add: run_callback_def)
    with ElectionCallback_stable(2) [OF this _ int] Timer_fires cb v ok show ?thesis
      by (auto split: if_splits)
  next
    case (Vote_request e req)
    then obtain rep st where r: "ProcessRequestVoteClientRequest pb e req n = Inr ((rep, st), n')"
      using res by auto
    with RequestVote_stable(2) [OF r] Vote_request v ok show ?thesis by (auto split: if_splits)
  qed (use v in simp_all)
qed

lemma node_run_votes:
  assumes codec: "codec_ok default_metadata (metadata_codec pb)"
  shows "\<lbrakk> persisted pb n; guarded pb evs n; node_run pb evs n = Inr (vs, n') \<rbrakk> \<Longrightarrow>
     (\<forall>(t, c) \<in> set vs. m_term n \<le> t \<and> (t = m_term n \<and> m_vote n \<noteq> '''' \<longrightarrow> c = m_vote n)) \<and>
     (\<forall>(t, c) \<in> set vs. \<forall>(t', c') \<in> set vs. t = t' \<longrightarrow> c = c')"
proof (induction evs arbitrary: n vs)
  case (Cons ev evs)
  from Cons.prems(3) obtain n1 vs1 where h: "handle pb ev n = Inr n1"
    and r: "node_run pb evs n1 = Inr (vs1, n')" and vs: "vs = votes_of pb ev n @ vs1" by auto
  have ok: "event_in_int ev" "no_regress ev n" "guarded pb evs n1" "\<not> forgets_vote ev n" using Cons.prems(2) h by auto
  have p1: "persisted pb n1" by (rule handle_persisted [OF codec Cons.prems(1) ok(1) h])
  note IH = Cons.IH [OF p1 ok(3) r]
  have st: "vote_stable n n1" by (rule handle_stable [OF Cons.prems(1) ok(2,4) h])
  have cast: "t = m_term n1 \<and> m_vote n1 = c \<and> c \<noteq> ''''" if "(t, c) \<in> set (votes_of pb ev n)" for t c
    by (rule votes_of_cast [OF Cons.prems(1) ok(2) h that])
  have later: "m_term n1 \<le> t \<and> (t = m_term n1 \<and> m_vote n1 \<noteq> '''' \<longrightarrow> c = m_vote n1)" if "(t, c) \<in> set vs1" for t c
    using IH that by blast
  have both: "m_term n1 \<le> t \<and> (t = m_term n1 \<and> m_vote n1 \<noteq> '''' \<longrightarrow> c = m_vote n1)" if "(t, c) \<in> set vs" for t c
    using that vs cast later by (metis Un_iff order_refl set_append)
  have "m_term n \<le> t \<and> (t = m_term n \<and> m_vote n \<noteq> '''' \<longrightarrow> c = m_vote n)" if "(t, c) \<in> set vs" for t c
    using both [OF that] st by (auto simp: vote_stable_def)
  moreover have "c = c'" if "(t, c) \<in> set vs" "(t, c') \<in> set vs" for t c c'
  proof (cases "(t, c) \<in> set vs1 \<and> (t, c') \<in> set vs1")
    case True
    then show ?thesis using IH by blast
  next
    case False
    then have "t = m_term n1 \<and> m_vote n1 \<noteq> ''''" using that vs cast by (metis Un_iff set_append)
    then show ?thesis using both that by metis
  qed
  ultimately show ?case by blast
qed simp

end
