(* ===== verification/Consensus_Replication.thy ===== *)
theory Consensus_Replication
  imports Node_Runs
begin

section \<open>Replication and commitment\<close>

text \<open>
  What the handlers do to the log, the commit index and the applied state: the AppendEntries
  handler reconciles the log with the request, the commit rule of the leader, the commit rule of
  the follower.
\<close>

subsection \<open>The log under term changes\<close>

text \<open>Same entries, same pages: what changes of the metadata keep of the log.\<close>

definition log_same :: "PersistedLog \<Rightarrow> PersistedLog \<Rightarrow> bool" where
  "log_same l l' \<longleftrightarrow>
     (log_inv l \<longrightarrow> log_inv l') \<and> log_list l' = log_list l \<and> open_start l' = open_start l \<and>
     m_max_file_size l' = m_max_file_size l \<and> m_log_size l' = m_log_size l"

lemma log_same_refl [simp]: "log_same l l"
  by (simp add: log_same_def)

lemma log_same_trans: "log_same l l1 \<Longrightarrow> log_same l1 l2 \<Longrightarrow> log_same l l2"
  by (simp add: log_same_def)

lemma log_inv_more_files:
  assumes "log_inv l" and "\<And>q. fs_read (disk l) q \<noteq> None \<Longrightarrow> fs_read fs' q \<noteq> None"
  shows "log_inv (l\<lparr>m_metadata := md, disk := fs'\<rparr>)"
proof -
  have "page_ok d s fs' p" if "page_ok d s (disk l) p" for d s p
    by (rule page_ok_more_files [OF that assms(2)])
  with assms(1) show ?thesis
    by (auto simp: log_inv_def log_readable_def pages_ok_def log_attached_def)
qed

lemma SetMetadata_log_same:
  assumes "SetMetadata pb md l = Inr l'"
  shows "log_same l l'"
proof -
  from SetMetadata_Inr(2) [OF assms] obtain bs where
    l': "l' = l\<lparr>m_metadata := m_metadata l',
      disk := fs_write (metadata_path l (md_version (m_metadata l) + 1)) bs (disk l)\<rparr>" by blast
  have "log_inv l \<longrightarrow> log_inv l'" by (subst l') (auto intro: log_inv_more_files)
  moreover have "log_list l' = log_list l" "open_start l' = open_start l"
    "m_max_file_size l' = m_max_file_size l" "m_log_size l' = m_log_size l"
    by (subst l', simp add: log_list_def log_records_def open_start_def)+
  ultimately show ?thesis by (simp add: log_same_def)
qed

lemma StoreState_log_same: "StoreState pb n = Inr n' \<Longrightarrow> log_same (m_log n) (m_log n')"
  by (auto simp: StoreState_def SetMetadata_log_same)

lemma ResetToFollower_log_same:
  assumes "ResetToFollower pb r t n = Inr n'"
  shows "log_same (m_log n) (m_log n')" and "m_commit_index n' = m_commit_index n"
    and "m_state_machine n' = m_state_machine n" and "m_configuration n' = m_configuration n"
  using assms
  by (auto simp: ResetToFollower_def Let_def ScheduleElection_def StoreState_def dest: SetMetadata_log_same)

subsection \<open>Reconciling the follower's log\<close>

lemma Module_Append_log:
  "Module_Append pb es n = Inr (ix, n') \<Longrightarrow> Append pb es (m_log n) = Inr (ix, m_log n')"
  using core_projections(2) [OF core_insert_configurations]
  by (auto simp: Module_Append_def)

lemma replicate_entries_reconcile:
  assumes inv: "log_inv (m_log n)" and s: "ae_prevLogIndex req + 1 = int s" "s \<le> length (log_list (m_log n))"
      "int s < 2 ^ 31"
    and fit: "\<forall>e \<in> set (ae_entries req). entry_fits pb (m_log n) e" 
    and op: "\<And>i. first_conflict (log_list (m_log n)) s (ae_entries req) = Some i \<Longrightarrow> open_start (m_log n) < int i"
    and res: "replicate_entries pb req n = Inr n'"
  shows "log_inv (m_log n')" and "log_list (m_log n') = reconcile (log_list (m_log n)) s (ae_entries req)"
proof -
  obtain i new c where scan: "ae_scan (LogSize (m_log n)) (Entry (m_log n)) (int s) (ae_entries req) = Inr (i, new, c)"
    using plog.scan_spec [OF inv s(2), of "ae_entries req"] by (auto simp: Let_def)
  have idx: "to_int (ae_prevLogIndex req + 1) = int s" using s by (simp add: in_int_def)
  obtain n1 where n1: "(if c then rbind (TruncateSuffix i (m_log n)) (\<lambda>l.
      rbind (Config_TruncateSuffix i (m_configuration n)) (\<lambda>conf.
        Inr (n\<lparr>m_log := l, m_configuration := conf\<rparr>))) else Inr n) = Inr n1"
    and n': "(if new \<noteq> [] then rbind (Module_Append pb new n1) (\<lambda>(ix, n2). Inr n2) else Inr n1) = Inr n'"
    using res scan by (simp add: replicate_entries_def idx) (metis (no_types, lifting))
  have l1: "(if c then TruncateSuffix i (m_log n) else Inr (m_log n)) = Inr (m_log n1)"
    using n1 by (auto split: if_splits)
  have "\<exists>l1. (if c then TruncateSuffix i (m_log n) else Inr (m_log n)) = Inr l1 \<and> log_inv l1 \<and>
     (if new = [] then log_list l1 = reconcile (log_list (m_log n)) s (ae_entries req)
      else \<exists>ix l2. Append pb new l1 = Inr (ix, l2) \<and> log_inv l2 \<and>
             log_list l2 = reconcile (log_list (m_log n)) s (ae_entries req))"
    using plog.follower_update [OF inv s(2) fit _ scan] op by simp
  with l1 have R: "log_inv (m_log n1)" "if new = [] then log_list (m_log n1) = reconcile (log_list (m_log n)) s (ae_entries req)
      else \<exists>ix l2. Append pb new (m_log n1) = Inr (ix, l2) \<and> log_inv l2 \<and>
             log_list l2 = reconcile (log_list (m_log n)) s (ae_entries req)"
    by auto
  show "log_inv (m_log n')" "log_list (m_log n') = reconcile (log_list (m_log n)) s (ae_entries req)"
    using R n' Module_Append_log [of pb new n1] by (auto split: if_splits)
qed

text \<open>The consistency check, on the list.\<close>

lemma prev_entry_matches_list:
  assumes "log_readable l" and "-1 \<le> ae_prevLogIndex req" and "ae_prevLogIndex req < 2 ^ 31"
  shows "prev_entry_matches req l = Inr (ae_prevLogIndex req = -1 \<or>
     (ae_prevLogIndex req < int (length (log_list l)) \<and>
      entry_term (log_list l ! nat (ae_prevLogIndex req)) = ae_prevLogTerm req))"
  using assms by (auto simp: prev_entry_matches_def LogSize_log_list Entry_log_list in_int_def)

subsection \<open>Collecting and committing\<close>

lemma collect_entries_list:
  assumes "log_readable l" and "-1 \<le> i"
  shows "collect_entries l i j =
     (if j < int (length (log_list l)) \<or> j \<le> i
      then Inr (take (nat (j - i)) (drop (nat (i + 1)) (log_list l))) else Inl Out_of_range)"
  using assms(2)
proof (induction "nat (j - i)" arbitrary: i)
  case 0
  then show ?case by (subst collect_entries.simps) auto
next
  case (Suc k)
  then have lt: "i < j" by simp
  have IH: "collect_entries l (i + 1) j =
     (if j < int (length (log_list l)) \<or> j \<le> i + 1
      then Inr (take (nat (j - (i + 1))) (drop (nat (i + 1 + 1)) (log_list l))) else Inl Out_of_range)"
    using Suc by (intro Suc.hyps) auto
  let ?xs = "log_list l" and ?m = "nat (i + 1)"
  show ?case
  proof (cases "i + 1 < int (length ?xs)")
    case True
    then have d: "drop ?m ?xs = ?xs ! ?m # drop (Suc ?m) ?xs" using Suc.prems by (subst Cons_nth_drop_Suc) auto
    have m: "nat (2 + i) = Suc ?m" using Suc.prems by simp
    have k: "nat (j - i) = Suc (nat (j - (i + 1)))" using lt by simp
    from True lt IH Suc.prems show ?thesis
      by (subst collect_entries.simps) (auto simp: Entry_log_list [OF assms(1)] d m k)
  next
    case False
    then show ?thesis using lt
      by (subst collect_entries.simps) (simp add: Entry_log_list [OF assms(1)])
  qed
qed

text \<open>
  The follower's commit step: it applies the entries from the last applied one up to the new
  commit index, in log order; a commit index that reaches past the last entry throws.
\<close>

lemma follower_commit_effect:
  assumes inv: "log_readable (m_log n)" and la: "-1 \<le> LastApplied (m_state_machine n)"
    and more: "m_commit_index n < ae_leaderCommit req" and "in_int (ae_leaderCommit req)"
  shows "LogSize (m_log n) \<le> ae_leaderCommit req \<Longrightarrow> LastApplied (m_state_machine n) < LogSize (m_log n) \<Longrightarrow>
      follower_commit req n = Inl Out_of_range"
    and "ae_leaderCommit req < LogSize (m_log n) \<Longrightarrow> follower_commit req n = Inr n' \<Longrightarrow>
      m_commit_index n' = ae_leaderCommit req \<and>
      apply_loop (m_commit_index n)
        (take (nat (ae_leaderCommit req - LastApplied (m_state_machine n)))
          (drop (nat (LastApplied (m_state_machine n) + 1)) (log_list (m_log n))))
        (m_state_machine n) = Inr (m_state_machine n')"
  using assms
  by (auto simp: follower_commit_def Let_def collect_entries_list LogSize_log_list CommitEntries_def min_def
      split: if_splits)

subsection \<open>The leader's commit rule\<close>

definition match_of :: "(string \<times> int) list \<Rightarrow> string \<Rightarrow> int" where
  "match_of m p = (case map_of m p of None \<Rightarrow> 0 | Some v \<Rightarrow> v)"

text \<open>The leader and the known servers whose match index has reached \<open>i\<close>.\<close>

definition stored_on :: "ClusterConfiguration \<Rightarrow> string \<Rightarrow> (string \<Rightarrow> int) \<Rightarrow> int \<Rightarrow> string uset" where
  "stored_on conf self mi i = uset_insert_all (filter (\<lambda>p. mi p \<ge> i) (ServerAddresses conf)) [self]"

lemma map_get_match: "map_get p m = (v, m') \<Longrightarrow> v = match_of m p \<and> match_of m' = match_of m"
  by (auto simp: map_get_def match_of_def update_conv fun_eq_iff split: option.splits if_splits)

lemma match_peers_loop_spec:
  "match_peers_loop i ps acc m = (qs, m') \<Longrightarrow>
     qs = uset_insert_all (filter (\<lambda>p. match_of m p \<ge> i) ps) acc \<and> match_of m' = match_of m"
proof (induction ps arbitrary: acc m)
  case (Cons p ps)
  obtain v m1 where g: "map_get p m = (v, m1)" by fastforce
  note G = map_get_match [OF g]
  show ?case
    using Cons.prems Cons.IH [of "if v \<ge> i then uset_insert p acc else acc" m1] G g
    by (auto simp: uset_insert_all_def split: if_splits)
qed (simp add: uset_insert_all_def)

lemma commit_scan_Cons:
  assumes "commit_scan conf self t i (e # es) nc m = (c, m')"
  obtains m2 where "commit_scan conf self t (i + 1) es
      (if entry_term e = t \<and> CheckQuorum (stored_on conf self (match_of m) i) conf then i else nc) m2 = (c, m')"
    and "match_of m2 = match_of m"
proof -
  obtain qs m1 where g: "match_peers_loop i (ServerAddresses conf) [self] m = (qs, m1)" by fastforce
  from assms g match_peers_loop_spec [OF g] that show ?thesis
    by (auto simp: stored_on_def Let_def split: if_splits)
qed

lemma nth_Cons_int: "i + 1 \<le> c \<Longrightarrow> (e # es) ! nat (c - i) = es ! nat (c - (i + 1))"
proof -
  assume "i + 1 \<le> c"
  then have "nat (c - i) = Suc (nat (c - (i + 1)))" by simp
  then show ?thesis by simp
qed

definition scanned :: "ClusterConfiguration \<Rightarrow> string \<Rightarrow> (string \<Rightarrow> int) \<Rightarrow> int \<Rightarrow> int \<Rightarrow> LogEntry list \<Rightarrow> int \<Rightarrow> int \<Rightarrow> bool" where
  "scanned conf self mi t i es nc c \<longleftrightarrow> nc \<le> c \<and>
     (c = nc \<or> (i \<le> c \<and> c < i + int (length es) \<and> entry_term (es ! nat (c - i)) = t \<and>
        CheckQuorum (stored_on conf self mi c) conf)) \<and>
     (\<forall>k < length es. entry_term (es ! k) = t \<longrightarrow> CheckQuorum (stored_on conf self mi (i + int k)) conf \<longrightarrow> i + int k \<le> c)"

lemma commit_scan_scanned:
  "commit_scan conf self t i es nc m = (c, m') \<Longrightarrow> nc < i \<Longrightarrow>
     match_of m' = match_of m \<and> scanned conf self (match_of m) t i es nc c"
proof (induction es arbitrary: i nc m)
  case (Cons e es)
  let ?q = "entry_term e = t \<and> CheckQuorum (stored_on conf self (match_of m) i) conf"
  obtain m2 where s: "commit_scan conf self t (i + 1) es (if ?q then i else nc) m2 = (c, m')" and m2: "match_of m2 = match_of m"
    by (rule commit_scan_Cons [OF Cons.prems(1)])
  have "(if ?q then i else nc) < i + 1" using Cons.prems(2) by simp
  from Cons.IH [OF s this] m2 have m: "match_of m' = match_of m"
    and IH: "scanned conf self (match_of m) t (i + 1) es (if ?q then i else nc) c" by simp_all
  have "i + int k \<le> c" if "k < length (e # es)" "entry_term ((e # es) ! k) = t"
    "CheckQuorum (stored_on conf self (match_of m) (i + int k)) conf" for k
    using IH that by (cases k) (auto simp: scanned_def algebra_simps)
  moreover have "nc \<le> c" using IH Cons.prems(2) by (auto simp: scanned_def split: if_splits)
  moreover have "c = nc \<or> (i \<le> c \<and> c < i + int (length (e # es)) \<and> entry_term ((e # es) ! nat (c - i)) = t \<and>
      CheckQuorum (stored_on conf self (match_of m) c) conf)"
    using IH nth_Cons_int [of i c e es] by (auto simp: scanned_def split: if_splits)
  ultimately show ?case using m unfolding scanned_def by blast
qed (simp add: scanned_def)

lemma commit_scan_spec:
  assumes "commit_scan conf self t i es nc m = (c, m')" and "nc < i"
  shows "match_of m' = match_of m" and "nc \<le> c"
    and "c = nc \<or> (i \<le> c \<and> c < i + int (length es) \<and> entry_term (es ! nat (c - i)) = t \<and>
      CheckQuorum (stored_on conf self (match_of m) c) conf)"
    and "k < length es \<Longrightarrow> entry_term (es ! k) = t \<Longrightarrow>
      CheckQuorum (stored_on conf self (match_of m) (i + int k)) conf \<Longrightarrow> i + int k \<le> c"
  using commit_scan_scanned [OF assms] unfolding scanned_def by blast+

lemma advance_commit_rule:
  assumes inv: "log_readable (m_log n)" and ci: "-1 \<le> m_commit_index n" and res: "advance_commit n = Inr n'"
  shows "m_commit_index n \<le> m_commit_index n'"
    and "m_commit_index n' \<noteq> m_commit_index n \<Longrightarrow>
      m_commit_index n' < LogSize (m_log n) \<and>
      entry_term (log_list (m_log n) ! nat (m_commit_index n')) = m_term n \<and>
      CheckQuorum (stored_on (m_configuration n) (ctx_address n) (match_of (m_match_index n)) (m_commit_index n'))
        (m_configuration n)"
    and "m_commit_index n < i \<Longrightarrow> i < LogSize (m_log n) \<Longrightarrow>
      entry_term (log_list (m_log n) ! nat i) = m_term n \<Longrightarrow>
      CheckQuorum (stored_on (m_configuration n) (ctx_address n) (match_of (m_match_index n)) i) (m_configuration n) \<Longrightarrow>
      i \<le> m_commit_index n'"
proof -
  obtain es c m where es: "Entries (m_log n) (m_commit_index n + 1) (LogSize (m_log n)) = Inr es"
    and scan: "commit_scan (m_configuration n) (ctx_address n) (m_term n) (m_commit_index n + 1) es
      (m_commit_index n) (m_match_index n) = (c, m)"
    and n': "c = m_commit_index n \<and> n' = n\<lparr>m_match_index := m\<rparr> \<or>
      c \<noteq> m_commit_index n \<and> (\<exists>u. collect_entries (m_log n) (LastApplied (m_state_machine n)) c = Inr u \<and>
        n' = CommitEntries u (n\<lparr>m_match_index := m, m_commit_index := c\<rparr>))"
    by (rule advance_commitE [OF res])
  have c: "m_commit_index n' = c" using n' by (auto simp: CommitEntries_def)
  let ?k = "m_commit_index n + 1" and ?xs = "log_list (m_log n)"
  have range: "?k \<le> int (length ?xs)" and es': "es = drop (nat ?k) ?xs"
    using es ci by (auto simp: Entries_log_list [OF inv] LogSize_log_list [OF inv] split: if_splits)
  have nth: "es ! nat (j - ?k) = ?xs ! nat j" if "?k \<le> j" "j < int (length ?xs)" for j
    using that ci range unfolding es' by (subst nth_drop) (auto simp flip: nat_add_distrib)
  have len: "int (length es) = int (length ?xs) - ?k" using ci range unfolding es' by simp
  note S = commit_scan_spec [OF scan]
  show "m_commit_index n \<le> m_commit_index n'" using S(2) c by simp
  show "m_commit_index n' < LogSize (m_log n) \<and>
      entry_term (?xs ! nat (m_commit_index n')) = m_term n \<and>
      CheckQuorum (stored_on (m_configuration n) (ctx_address n) (match_of (m_match_index n)) (m_commit_index n'))
        (m_configuration n)" if "m_commit_index n' \<noteq> m_commit_index n"
    using S(3) that c nth [of c] len by (auto simp: LogSize_log_list [OF inv])
  show "i \<le> m_commit_index n'" if i: "m_commit_index n < i" "i < LogSize (m_log n)"
      "entry_term (?xs ! nat i) = m_term n"
      "CheckQuorum (stored_on (m_configuration n) (ctx_address n) (match_of (m_match_index n)) i) (m_configuration n)"
  proof -
    have k: "nat (i - ?k) < length es" using i(1,2) len by (simp add: LogSize_log_list [OF inv])
    have "entry_term (es ! nat (i - ?k)) = m_term n" using i nth [of i] by (simp add: LogSize_log_list [OF inv])
    from S(4) [OF _ k this] i c show ?thesis by simp
  qed
qed

text \<open>Sending a request a second time changes nothing.\<close>

lemma replicate_entries_again:
  assumes inv: "log_readable (m_log n)" and s: "ae_prevLogIndex req + 1 = int s" "s \<le> length (log_list (m_log n))"
      "int s < 2 ^ 31"
    and same: "map entry_term (take (length (ae_entries req)) (drop s (log_list (m_log n)))) = map entry_term (ae_entries req)"
  shows "replicate_entries pb req n = Inr n"
proof -
  let ?xs = "log_list (m_log n)" and ?es = "ae_entries req"
  have k: "agree (drop s ?xs) ?es = length ?es" by (rule agree_covers [OF same])
  have "ae_scan (LogSize (m_log n)) (Entry (m_log n)) (int s) ?es = Inr (int (s + length ?es), [], False)"
    using ae_scan_agree [of ?xs "Entry (m_log n)" s ?es] s(2) k
    by (simp add: LogSize_log_list [OF inv] Entry_log_list [OF inv])
  moreover have "to_int (ae_prevLogIndex req + 1) = int s" using s by (simp add: in_int_def)
  ultimately show ?thesis by (simp add: replicate_entries_def)
qed

subsection \<open>What a leader sends\<close>

lemma Client_AppendEntries_sent:
  "m_sent (Client_AppendEntries p t a b es c n) =
     m_sent n @ (if map_of (m_stubs n) p = Some True
       then [Call_AppendEntries p \<lparr>ae_term = t, ae_leaderId = ctx_address n, ae_prevLogIndex = a,
         ae_prevLogTerm = b, ae_entries = es, ae_leaderCommit = c\<rparr>] else [])"
  by (auto simp: Client_AppendEntries_def start_call_def split: option.splits bool.splits)

text \<open>A request that carries the leader's log from some index on.\<close>

definition honest_request :: "ConsensusModule \<Rightarrow> int \<Rightarrow> Rpc \<Rightarrow> bool" where
  "honest_request n t call \<longleftrightarrow>
     (\<exists>p k req. call = Call_AppendEntries p req \<and> p \<noteq> ctx_address n \<and> k \<le> length (log_list (m_log n)) \<and>
        ae_term req = t \<and> ae_leaderId req = ctx_address n \<and> ae_prevLogIndex req = int k - 1 \<and>
        ae_prevLogTerm req = (if k = 0 then -1 else to_int (entry_term (log_list (m_log n) ! (k - 1)))) \<and>
        ae_entries req = drop k (log_list (m_log n)) \<and> ae_leaderCommit req = m_commit_index n)"

lemma heartbeat_loop_sends:
  assumes "log_readable (m_log n)"
  shows "heartbeat_loop t ps n = Inr n' \<Longrightarrow>
     \<exists>calls. m_sent n' = m_sent n @ calls \<and> (\<forall>call \<in> set calls. honest_request n t call)"
  using assms
proof (induction ps arbitrary: n)
  case (Cons p ps)
  show ?case
  proof (cases "p = ctx_address n")
    case False
    obtain nxt m where g: "map_get p (m_next_index n) = (nxt, m)" by fastforce
    define n1 where "n1 = n\<lparr>m_next_index := m\<rparr>"
    have n1_simps [simp]: "m_log n1 = m_log n" "m_commit_index n1 = m_commit_index n" by (simp_all add: n1_def)
    let ?xs = "log_list (m_log n)"
    from Cons.prems(1) False g obtain q es where
      q: "(if nxt - 1 \<ge> 0 then rbind (Entry (m_log n1) (nxt - 1)) (\<lambda>e. Inr (to_int (entry_term e))) else Inr (-1)) = Inr q"
      and es: "Entries (m_log n) nxt (LogSize (m_log n)) = Inr es"
      and r: "heartbeat_loop t ps (Client_AppendEntries p t (nxt - 1) q es (m_commit_index n) n1) = Inr n'"
      by (auto simp: Let_def n1_def cong: if_cong)
    have nxt: "0 \<le> nxt" "nxt \<le> int (length ?xs)" "es = drop (nat nxt) ?xs"
      using es by (auto simp: Entries_log_list [OF Cons.prems(2)] LogSize_log_list [OF Cons.prems(2)] split: if_splits)
    have prev: "q = (if nat nxt = 0 then -1 else to_int (entry_term (?xs ! (nat nxt - 1))))"
      using q nxt by (auto simp: n1_def Entry_log_list [OF Cons.prems(2)] nat_diff_distrib split: if_splits)
    let ?n2 = "Client_AppendEntries p t (nxt - 1) q es (m_commit_index n) n1"
    have c: "core ?n2 = core n" by (simp add: node_simps) (simp add: core_def n1_def)
    then have same: "m_log ?n2 = m_log n" "ctx_address ?n2 = ctx_address n" "m_commit_index ?n2 = m_commit_index n"
      by (simp_all add: core_def)
    have "honest_request ?n2 t = honest_request n t" unfolding honest_request_def same ..
    with Cons.IH [OF r] Cons.prems(2) same obtain calls where
      calls: "m_sent n' = m_sent ?n2 @ calls" "\<forall>call \<in> set calls. honest_request n t call"
      by auto
    have "honest_request n t (Call_AppendEntries p \<lparr>ae_term = t, ae_leaderId = ctx_address n1, ae_prevLogIndex = nxt - 1,
         ae_prevLogTerm = q, ae_entries = es, ae_leaderCommit = m_commit_index n\<rparr>)"
      using nxt prev False by (auto simp: honest_request_def n1_def intro!: exI [of _ "nat nxt"])
    with calls show ?thesis by (auto simp: Client_AppendEntries_sent) (auto simp: n1_def)
  qed (use Cons in simp)
qed simp

text \<open>A vote request never changes the entries.\<close>

lemma RequestVote_log_same:
  assumes "ProcessRequestVoteClientRequest pb e req n = Inr (r, n')"
  shows "log_same (m_log n) (m_log n')"
proof -
  obtain rep st where "r = (rep, st)" by fastforce
  with assms have "ProcessRequestVoteClientRequest pb e req n = Inr ((rep, st), n')" by simp
  then show ?thesis
  proof (cases rule: RequestVote_cases)
    case (considered n1 lt)
    have "log_same (m_log n) (m_log n1)"
      using considered(4) ResetToFollower_log_same(1) by (auto split: if_splits)
    moreover have "log_same (m_log n1) (m_log n')"
      using considered(8) StoreState_log_same [of pb "n1\<lparr>m_vote := rv_candidateId req\<rparr>"]
      by (auto simp: ScheduleElection_def)
    ultimately show ?thesis by (rule log_same_trans)
  qed simp
qed

text \<open>What an accepted append request leaves in the log.\<close>

lemma AppendEntries_current_log:
  assumes "(if ae_term req > m_term n then ResetToFollower pb r (to_int (ae_term req)) n else Inr n) = Inr n1"
    and "m_state n1 \<noteq> FOLLOWER \<and> ResetToFollower pb r' (to_int (ae_term req)) n1 = Inr n2 \<or>
        m_state n1 = FOLLOWER \<and> core n2 = core n1"
  shows "log_same (m_log n) (m_log n2)" and "m_commit_index n2 = m_commit_index n"
proof -
  have "log_same (m_log n) (m_log n1) \<and> m_commit_index n1 = m_commit_index n"
    using assms(1) ResetToFollower_log_same(1,2) by (auto split: if_splits)
  moreover have "log_same (m_log n1) (m_log n2) \<and> m_commit_index n2 = m_commit_index n1"
    using assms(2) ResetToFollower_log_same(1,2) core_projections(2,6) by (metis log_same_refl)
  ultimately show "log_same (m_log n) (m_log n2)" "m_commit_index n2 = m_commit_index n"
    using log_same_trans by auto
qed

lemma AppendEntries_success_log:
  fixes req :: AppendEntries_Request and n :: ConsensusModule
  defines "s \<equiv> nat (ae_prevLogIndex req + 1)" and "xs \<equiv> log_list (m_log n)" and "es \<equiv> ae_entries req"
  assumes res: "ProcessAppendEntriesClientRequest pb e req n = Inr ((rep, st), n')" and ok: "aer_success rep"
    and inv: "log_inv (m_log n)" and prev: "-1 \<le> ae_prevLogIndex req" "ae_prevLogIndex req + 1 < 2 ^ 31"
    and fit: "\<forall>x \<in> set es. entry_fits pb (m_log n) x"
    and op: "\<And>i. first_conflict xs s es = Some i \<Longrightarrow> open_start (m_log n) < int i"
  shows "log_inv (m_log n')" and "log_list (m_log n') = reconcile xs s es" and "s \<le> length xs"
    and "0 < s \<Longrightarrow> entry_term (xs ! (s - 1)) = ae_prevLogTerm req"
proof -
  have "log_inv (m_log n') \<and> log_list (m_log n') = reconcile xs s es \<and> s \<le> length xs \<and>
      (0 < s \<longrightarrow> entry_term (xs ! (s - 1)) = ae_prevLogTerm req)"
    using res
  proof (cases rule: AppendEntries_cases)
    case (current n1 n2 b)
    have same: "log_same (m_log n) (m_log n2)" by (rule AppendEntries_current_log(1) [OF current(2,4)])
    then have l2: "log_inv (m_log n2)" "log_list (m_log n2) = xs" "open_start (m_log n2) = open_start (m_log n)"
      "m_max_file_size (m_log n2) = m_max_file_size (m_log n)"
      using inv by (auto simp: log_same_def xs_def)
    have b: "b" using current(6) ok by simp
    with current(5) have at: "ae_prevLogIndex req = -1 \<or> ae_prevLogIndex req < int (length xs) \<and>
        entry_term (xs ! nat (ae_prevLogIndex req)) = ae_prevLogTerm req"
      using prev_entry_matches_list [OF log_inv_readable [OF l2(1)], of req] prev by (simp add: l2(2))
    then have s: "s \<le> length xs" "0 < s \<longrightarrow> entry_term (xs ! (s - 1)) = ae_prevLogTerm req"
      using prev by (auto simp: s_def nat_diff_distrib nat_add_distrib)
    from b current(8) obtain n3 n4 where n3: "replicate_entries pb req (n2\<lparr>m_leader_id := ae_leaderId req\<rparr>) = Inr n3"
      and n4: "follower_commit req n3 = Inr n4" "core n' = core n4" by blast
    have "log_inv (m_log n3)" "log_list (m_log n3) = reconcile xs s es"
      using replicate_entries_reconcile [OF _ _ _ _ _ _ n3, of s] l2 prev s fit op
      by (simp_all add: s_def entry_fits_def es_def)
    with s n4 show ?thesis using follower_commit_quiet(2) core_projections(2) by metis
  qed (use ok in simp_all)
  then show "log_inv (m_log n')" "log_list (m_log n') = reconcile xs s es" "s \<le> length xs"
    "0 < s \<Longrightarrow> entry_term (xs ! (s - 1)) = ae_prevLogTerm req" by auto
qed

subsection \<open>The follower's state machine\<close>

lemma insert_configurations_state_machine:
  "m_state_machine (insert_configurations i es n) = m_state_machine n"
  by (induction es arbitrary: i n) (auto simp: CreateConnections_def Let_def)

lemma replicate_entries_state_machine:
  assumes "replicate_entries pb req n = Inr n'"
  shows "m_state_machine n' = m_state_machine n"
proof -
  have "m_state_machine n2 = m_state_machine n1" if "Module_Append pb es n1 = Inr (ix, n2)" for es n1 ix n2
    using that by (auto simp: Module_Append_def insert_configurations_state_machine)
  with assms show ?thesis by (fastforce simp: replicate_entries_def split: if_splits)
qed

lemma last_write_append:
  "last_write k (xs @ ys) = (case last_write k ys of None \<Rightarrow> last_write k xs | Some v \<Rightarrow> Some v)"
  by (induction xs) (auto split: option.splits)

text \<open>
  The store is what applying the first entries of the log leaves, and the last applied index
  tells how many of them.
\<close>

definition state_of_log :: "PersistedLog \<Rightarrow> StateMachine \<Rightarrow> bool" where
  "state_of_log l sm \<longleftrightarrow>
     -1 \<le> LastApplied sm \<and> LastApplied sm < int (length (log_list l)) \<and>
     (\<forall>k. map_of (sm_store sm) k = last_write k (take (nat (LastApplied sm + 1)) (log_list l)))"

lemma reconcile_take:
  assumes "j \<le> length xs" and "s \<le> length xs"
    and "\<And>i. first_conflict xs s es = Some i \<Longrightarrow> j \<le> i"
  shows "take j (reconcile xs s es) = take j xs" and "j \<le> length (reconcile xs s es)"
  using assms agree_le [of "drop s xs" es]
  by (auto simp: reconcile_def first_conflict_def Let_def min_def split: if_splits)

lemma state_of_log_extend:
  assumes old: "state_of_log l sm" and same: "take (nat (LastApplied sm + 1)) (log_list l') = take (nat (LastApplied sm + 1)) (log_list l)"
    and len: "LastApplied sm < int (length (log_list l'))"
  shows "state_of_log l' sm"
  using assms by (simp add: state_of_log_def)

lemma apply_loop_state_of_log:
  assumes old: "state_of_log l sm" and c: "c < int (length (log_list l))" "LastApplied sm \<le> c" "c < 2 ^ 31"
    and run: "apply_loop i (take (nat (c - LastApplied sm)) (drop (nat (LastApplied sm + 1)) (log_list l))) sm = Inr sm'"
  shows "state_of_log l sm'" and "LastApplied sm' = c"
proof -
  let ?xs = "log_list l" and ?a = "LastApplied sm"
  let ?run = "take (nat (c - ?a)) (drop (nat (?a + 1)) ?xs)"
  have a: "-1 \<le> ?a" using old by (simp add: state_of_log_def)
  have len: "int (length ?run) = c - ?a" using c a by (auto simp: min_def)
  show la: "LastApplied sm' = c"
    using apply_loop_last_applied [OF run] a c len by (simp add: LastApplied_def)
  have split: "take (nat (c + 1)) ?xs = take (nat (?a + 1)) ?xs @ ?run"
    using a c by (simp flip: take_add) (simp flip: nat_add_distrib add: add.commute)
  show "state_of_log l sm'"
    using old c a unfolding state_of_log_def la split last_write_append apply_loop_store [OF run]
    by (auto split: option.splits)
qed

end
