(* ===== verification/Consensus_Properties.thy ===== *)
theory Consensus_Properties
  imports Consensus_Replication
begin

section \<open>Properties of the consensus module\<close>

text \<open>
  What the handlers of the consensus module guarantee: voting, replication, commitment, client
  calls; and exact descriptions of situations in which they deviate from what they mean to do.
\<close>

subsection \<open>Sample nodes\<close>

definition sample_env :: env where
  "sample_env = \<lparr>clock = (\<lambda>_. 100), draw = (\<lambda>_. 1000)\<rparr>"

definition node_pb :: protobuf where
  "node_pb =
     \<lparr>entry_codec = table_codec [sample_entry 1 ''a:1'', sample_entry 1 ''b:2'', sample_entry 2 ''c:3''],
      metadata_codec = table_codec
        [\<lparr>md_version = 1, md_term = 4, md_vote = ''''\<rparr>, \<lparr>md_version = 2, md_term = 4, md_vote = ''n2''\<rparr>,
         \<lparr>md_version = 3, md_term = 3, md_vote = ''''\<rparr>, \<lparr>md_version = 4, md_term = 4, md_vote = ''''\<rparr>,
         \<lparr>md_version = 5, md_term = 4, md_vote = ''n3''\<rparr>]\<rparr>"

text \<open>A log of three entries on one page.\<close>

definition node_log :: PersistedLog where
  "node_log =
     snd (projr (Append sample_pb
       [sample_entry 1 ''b:2'', sample_entry 1 ''a:1'', sample_entry 2 ''c:3''] (fresh_log ''d/'' 9 [])))"

lemma node_log_value [code]:
  "node_log =
     \<lparr>m_log_size = 3, m_metadata = \<lparr>md_version = 0, md_term = 0, md_vote = []\<rparr>,
      m_open_page = Some 0, m_dir = ''d/'', m_log_indices = [(0, 0)], m_max_file_size = 9,
      page_heap =
        [\<lparr>is_open = True, byte_offset = 3, start_index = 0, end_index = 3, page_dir = ''d/'',
          filename = ''open-0'',
          log_entries = [\<lparr>rec_entry = sample_entry 1 ''b:2'', rec_offset = 0\<rparr>,
                         \<lparr>rec_entry = sample_entry 1 ''a:1'', rec_offset = 1\<rparr>,
                         \<lparr>rec_entry = sample_entry 2 ''c:3'', rec_offset = 1\<rparr>], max_file_size = 9\<rparr>],
      disk = [(''d/open-0'', ''x..xx.'')]\<rparr>"
  by code_simp

lemma node_entries_fit:
  assumes "m_max_file_size l = 9" and "x \<in> {sample_entry 1 ''a:1'', sample_entry 1 ''b:2'', sample_entry 2 ''c:3''}"
  shows "entry_fits node_pb l x" and "entry_fits sample_pb l x"
  using assms by (auto simp: entry_fits_def sample_pb_def node_pb_def table_codec_def sample_entry_def)

lemma node_log_inv:
  "log_inv node_log" "m_max_file_size node_log = 9"
  "log_list node_log = [sample_entry 1 ''b:2'', sample_entry 1 ''a:1'', sample_entry 2 ''c:3'']" "open_start node_log = 0"
proof -
  have "\<exists>ix l. Append sample_pb [sample_entry 1 ''b:2'', sample_entry 1 ''a:1'', sample_entry 2 ''c:3''] (fresh_log ''d/'' 9 [])
      = Inr (ix, l) \<and> log_inv l \<and> log_list l = [sample_entry 1 ''b:2'', sample_entry 1 ''a:1'', sample_entry 2 ''c:3''] \<and>
      m_max_file_size l = 9"
    using Append_inv [OF fresh_log_inv [of 9 "''d/''" "[]"],
        of "[sample_entry 1 ''b:2'', sample_entry 1 ''a:1'', sample_entry 2 ''c:3'']" sample_pb]
    by (auto simp: node_entries_fit)
  then show "log_inv node_log" "m_max_file_size node_log = 9"
    "log_list node_log = [sample_entry 1 ''b:2'', sample_entry 1 ''a:1'', sample_entry 2 ''c:3'']"
    by (auto simp: node_log_def)
  show "open_start node_log = 0" by code_simp
qed

definition sample_node :: ConsensusModule where
  "sample_node = StateMachineInit (ConsensusModule_new ''n1'' node_log 0)"

lemma sample_node_log [simp]: "m_log sample_node = node_log"
  by (simp add: sample_node_def StateMachineInit_fields) (simp add: ConsensusModule_new_def)

definition vote_for :: "string \<Rightarrow> RequestVote_Request" where
  "vote_for c = \<lparr>rv_term = 4, rv_candidateId = c, rv_lastLogIndex = 2, rv_lastLogTerm = 3\<rparr>"

definition voted :: "((RequestVote_Response \<times> Status) \<times> ConsensusModule) result" where
  "voted = ProcessRequestVoteClientRequest node_pb sample_env (vote_for ''n2'') sample_node"

definition voted_node :: ConsensusModule where
  "voted_node = snd (projr voted)"

lemma voted_eq: "ProcessRequestVoteClientRequest node_pb sample_env (vote_for ''n2'') sample_node =
    Inr ((fst (fst (projr voted)), snd (fst (projr voted))), voted_node)"
proof -
  have "\<not> isl voted" by code_simp
  then show ?thesis by (simp add: voted_def voted_node_def)
qed

lemma voted_node_log: "log_inv (m_log voted_node)" "log_list (m_log voted_node) = log_list node_log"
  using RequestVote_log_same [OF voted_eq] node_log_inv(1) by (simp_all add: log_same_def)

text \<open>Values kept so that later evaluations start from them.\<close>

lemma voted_node_value [code]:
  "voted_node = sample_node\<lparr>m_log := node_log\<lparr>m_metadata := \<lparr>md_version = 2, md_term = 4, md_vote = ''n2''\<rparr>,
       disk := [(''d/open-0'', ''x..xx.''), (''d/metadata2'', ''.''), (''d/metadata1'', ''x.'')]\<rparr>,
     m_election_timer := \<lparr>timer_armed = True, timer_delay = 1000, timer_callback = ElectionCallback_at 4\<rparr>,
     m_vote := ''n2'', m_term := 4, m_state := FOLLOWER\<rparr>"
  by code_simp

lemma voted_node_fields: "m_term voted_node = 4" "m_vote voted_node = ''n2''" "m_election_deadline voted_node = 0"
  by code_simp+

definition stale_heartbeat :: AppendEntries_Request where
  "stale_heartbeat = \<lparr>ae_term = 2, ae_leaderId = ''n1'', ae_prevLogIndex = 2, ae_prevLogTerm = 2,
     ae_entries = [], ae_leaderCommit = 0\<rparr>"

definition stale_answer :: AppendEntries_Response where
  "stale_answer = \<lparr>aer_term = 3, aer_success = False\<rparr>"

definition forgetful :: "ConsensusModule result" where
  "forgetful = ProcessAppendEntriesServerResponse node_pb sample_env stale_heartbeat stale_answer ''n3'' voted_node"

definition voted_again :: "((RequestVote_Response \<times> Status) \<times> ConsensusModule) result" where
  "voted_again = ProcessRequestVoteClientRequest node_pb sample_env (vote_for ''n3'') (projr forgetful)"

lemma voted_again_returns: "\<not> isl forgetful" "\<not> isl voted_again"
  by code_simp+

subsection \<open>Voting\<close>

text \<open>
  C1. The election restriction. A vote is granted only by a node that is neither dead nor
  leader and whose election deadline has passed, for a term that is not older than its own, in
  which it has not voted for anyone else, to a candidate whose log is at least as up to date;
  and when the reply leaves, term and vote are in memory and in the metadata of the log.
\<close>

theorem vote_granted_only_if_allowed:
  assumes res: "ProcessRequestVoteClientRequest pb e req n = Inr ((rep, st), n')"
    and g: "rvr_voteGranted rep" and inv: "log_inv (m_log n)" and req: "in_int (rv_term req)"
  shows "m_state n \<noteq> DEAD \<and> m_state n \<noteq> LEADER \<and> m_election_deadline n < clock e 0 \<and>
     m_term n \<le> rv_term req \<and> (m_term n = rv_term req \<longrightarrow> m_vote n \<in> {'''', rv_candidateId req}) \<and>
     (let xs = log_list (m_log n); last_term = (if xs = [] then -1 else to_int (entry_term (last xs)))
      in rv_lastLogTerm req > last_term \<or>
         rv_lastLogTerm req = last_term \<and> rv_lastLogIndex req \<ge> int (length xs) - 1) \<and>
     rvr_term rep = rv_term req \<and> m_term n' = rv_term req \<and> m_vote n' = rv_candidateId req \<and>
     md_term (m_metadata (m_log n')) = rv_term req \<and> md_vote (m_metadata (m_log n')) = rv_candidateId req"
  using res
proof (cases rule: RequestVote_cases)
  case (considered n1 lt)
  have same: "log_same (m_log n) (m_log n1)" and t1: "m_term n \<le> m_term n1"
    "m_term n = m_term n1 \<Longrightarrow> m_vote n = m_vote n1"
    using considered(4) ResetToFollower_log_same(1) [of pb "draw e 0" "to_int (rv_term req)" n n1]
      ResetToFollower_fields(1) [of pb "draw e 0" "to_int (rv_term req)" n n1] req
    by (auto split: if_splits)
  from same inv have l1: "log_readable (m_log n1)" "log_list (m_log n1) = log_list (m_log n)"
    by (auto simp: log_same_def)
  from considered(8) g obtain n2 where vc: "vote_condition req lt n1"
    and n2: "StoreState pb (n1\<lparr>m_vote := rv_candidateId req\<rparr>) = Inr n2"
      "n' = ScheduleElection (draw e 1) (to_int (rv_term req)) n2" by auto
  have "LastLogTerm (m_log n1) = Inr (if log_list (m_log n) = [] then -1 else to_int (entry_term (last (log_list (m_log n)))))"
    using LastLogTerm_log_list [OF l1(1)] unfolding l1(2) .
  then have lt: "lt = (if log_list (m_log n) = [] then -1 else to_int (entry_term (last (log_list (m_log n)))))"
    using considered(5) by simp
  have idx: "LastLogIndex (m_log n1) = int (length (log_list (m_log n))) - 1"
    using l1 by (simp add: LastLogIndex_def LogSize_log_list)
  have n': "m_term n' = m_term n1" "m_vote n' = rv_candidateId req"
    "md_term (m_metadata (m_log n')) = m_term n1" "md_vote (m_metadata (m_log n')) = rv_candidateId req"
    using n2 SetMetadata_Inr(1) by (auto simp: ScheduleElection_def StoreState_def)
  show ?thesis
    using considered(1-3,7) vc lt idx n' t1 by (auto simp: vote_condition_def Let_def)
qed (use g in simp)

theorem vote_granted_only_if_allowed_witness:
  "m_vote voted_node = ''n2'' \<and> m_term voted_node = 4 \<and> md_vote (m_metadata (m_log voted_node)) = ''n2''"
proof -
  have "rvr_voteGranted (fst (fst (projr voted)))" by code_simp
  from vote_granted_only_if_allowed [OF voted_eq this] show ?thesis
    by (simp add: node_log_inv vote_for_def in_int_def)
qed

text \<open>
  A reply to an append request that the node sent in an earlier term resets it to the
  term of the reply even if it has meanwhile reached a higher one. Its vote in the higher term
  is forgotten, and a second candidate of that term gets a vote as well.
\<close>

lemma stale_reply_allows_second_vote:
  assumes voted: "m_term n = t" "m_vote n = first"
    and reply: "ae_term old < aer_term rep" "aer_term rep < t" "in_int (aer_term rep)" "in_int t"
    and step: "ProcessAppendEntriesServerResponse pb e old rep a n = Inr n1"
    and req: "rv_term req = t" and second: "rv_candidateId req \<noteq> first"
    and ans: "ProcessRequestVoteClientRequest pb e' req n1 = Inr ((vrep, st), n2)"
    and time: "m_election_deadline n < clock e' 0"
    and log: "log_inv (m_log n)" "log_list (m_log n) \<noteq> []"
      "rv_lastLogTerm req > to_int (entry_term (last (log_list (m_log n))))"
  shows "m_term n1 < t \<and> rvr_voteGranted vrep \<and> m_term n2 = t \<and> m_vote n2 = rv_candidateId req"
proof -
  obtain n0 where n0: "ResetToFollower pb (draw e 0) (to_int (aer_term rep)) (n\<lparr>m_leader_id := ''''\<rparr>) = Inr n0"
    using step reply unfolding ProcessAppendEntriesServerResponse_def by auto
  note F = ResetToFollower_fields [OF n0] and L = ResetToFollower_log_same(1) [OF n0]
  have "n1 = n0" using step n0 F(3) reply by (simp add: ProcessAppendEntriesServerResponse_def)
  with F L reply time have n1: "m_term n1 = aer_term rep" "m_state n1 = FOLLOWER" "m_election_deadline n1 < clock e' 0"
    "log_same (m_log n) (m_log n1)" by auto
  from ans show ?thesis
  proof (cases rule: RequestVote_cases)
    case refused
    with n1 show ?thesis by auto
  next
    case (considered n3 lt)
    have n3: "ResetToFollower pb (draw e' 0) t n1 = Inr n3"
      using considered(4) n1 reply req by (simp split: if_splits)
    note F3 = ResetToFollower_fields [OF n3]
    have same: "log_same (m_log n) (m_log n3)" by (rule log_same_trans [OF n1(4) ResetToFollower_log_same(1) [OF n3]])
    then have "log_readable (m_log n3)" "log_list (m_log n3) = log_list (m_log n)"
      using log(1) by (auto simp: log_same_def)
    with log(2) have "LastLogTerm (m_log n3) = Inr (to_int (entry_term (last (log_list (m_log n)))))"
      using LastLogTerm_log_list [of "m_log n3"] by simp
    with considered(5) F3 req log(3) have "vote_condition req lt n3" by (simp add: vote_condition_def)
    with considered(8) F3 n1 reply show ?thesis
      by (auto simp: ScheduleElection_def StoreState_keeps)
  qed
qed

lemma stale_reply_allows_second_vote_witness:
  "m_vote voted_node = ''n2'' \<and> m_term voted_node = 4 \<and>
   m_vote (snd (projr voted_again)) = ''n3'' \<and> m_term (snd (projr voted_again)) = 4"
proof -
  have "ProcessRequestVoteClientRequest node_pb sample_env (vote_for ''n3'') (projr forgetful) =
      Inr ((fst (fst (projr voted_again)), snd (fst (projr voted_again))), snd (projr voted_again))"
    and "ProcessAppendEntriesServerResponse node_pb sample_env stale_heartbeat stale_answer ''n3'' voted_node = Inr (projr forgetful)"
    using voted_again_returns by (simp_all add: voted_again_def forgetful_def)
  from stale_reply_allows_second_vote [OF voted_node_fields(1,2) _ _ _ _ this(2) _ _ this(1)] show ?thesis
    using voted_node_fields voted_node_log
    by (simp add: stale_heartbeat_def stale_answer_def vote_for_def sample_env_def in_int_def node_log_inv
        sample_entry_def to_int_def)
qed

subsection \<open>Append requests\<close>

lemma AppendEntries_stale_eq:
  assumes "m_state n \<noteq> DEAD" and "ae_term req < m_term n"
  shows "ProcessAppendEntriesClientRequest pb e req n =
    Inr ((\<lparr>aer_term = m_term n, aer_success = False\<rparr>, Status_OK),
      (ScheduleElection (draw e 2) (to_int (ae_term req)) n)
        \<lparr>m_election_deadline := clock e 1 + m_election_timeout (ScheduleElection (draw e 2) (to_int (ae_term req)) n)\<rparr>)"
  using assms by (simp add: ProcessAppendEntriesClientRequest_def ScheduleElection_def)

text \<open>
  C14. A request of a leader whose term has passed is answered with failure and the node's own
  term, and changes neither term, vote, role, log, commit index, configuration nor state machine.
\<close>

theorem stale_leader_rejected:
  assumes "m_state n \<noteq> DEAD" and "ae_term req < m_term n"
  shows "\<exists>n'. ProcessAppendEntriesClientRequest pb e req n =
      Inr ((\<lparr>aer_term = m_term n, aer_success = False\<rparr>, Status_OK), n') \<and>
     m_term n' = m_term n \<and> m_vote n' = m_vote n \<and> m_state n' = m_state n \<and> m_log n' = m_log n \<and>
     m_commit_index n' = m_commit_index n \<and> m_configuration n' = m_configuration n \<and>
     m_state_machine n' = m_state_machine n \<and> m_leader_id n' = m_leader_id n"
  unfolding AppendEntries_stale_eq [OF assms] by (simp add: ScheduleElection_def)

theorem stale_leader_rejected_witness:
  "\<exists>n'. ProcessAppendEntriesClientRequest node_pb sample_env stale_heartbeat voted_node =
      Inr ((\<lparr>aer_term = 4, aer_success = False\<rparr>, Status_OK), n') \<and> m_vote n' = ''n2''"
proof -
  have "m_state voted_node \<noteq> DEAD" by code_simp
  from stale_leader_rejected [OF this, of stale_heartbeat node_pb sample_env] show ?thesis
    by (auto simp: voted_node_fields stale_heartbeat_def)
qed

text \<open>
  The same request re-arms the election timer with the term of the request. When it fires,
  the callback finds another term and returns: until the next message arrives, a node that
  received a stale request starts no election.
\<close>

lemma stale_request_disarms_election:
  assumes "m_state n \<noteq> DEAD" and "ae_term req < m_term n" and "in_int (ae_term req)"
    and "ProcessAppendEntriesClientRequest pb e req n = Inr (r, n')"
  shows "timer_armed (m_election_timer n') \<and>
     run_callback pb e' (timer_callback (m_election_timer n')) n' = Inr n'"
  using assms(3,4) assms(2) unfolding AppendEntries_stale_eq [OF assms(1,2)]
  by (auto simp: ScheduleElection_def Timer_Reset_callback_def Timer_Reset_delay_def Timer_Reset_def
      run_callback_def ElectionCallback_def)

lemma AppendEntries_leader_prefix:
  fixes req :: AppendEntries_Request and n :: ConsensusModule
  defines "s \<equiv> nat (ae_prevLogIndex req + 1)" and "xs \<equiv> log_list (m_log n)" and "es \<equiv> ae_entries req"
  assumes res: "ProcessAppendEntriesClientRequest pb e req n = Inr ((rep, st), n')" and ok: "aer_success rep"
    and inv: "log_inv (m_log n)" and prev: "-1 \<le> ae_prevLogIndex req" "ae_prevLogIndex req + 1 < 2 ^ 31"
    and fit: "\<forall>x \<in> set es. entry_fits pb (m_log n) x"
    and op: "\<And>i. first_conflict xs s es = Some i \<Longrightarrow> open_start (m_log n) < int i"
    and leader: "es = take k (drop s L)" "s + k \<le> length L" "0 < s \<Longrightarrow> ae_prevLogTerm req = entry_term (L ! (s - 1))"
    and match: "log_matching xs L"
  shows "log_inv (m_log n') \<and> take (s + k) (log_list (m_log n')) = take (s + k) L \<and>
     take s (log_list (m_log n')) = take s xs \<and> length es = k"
proof -
  have A: "log_inv (m_log n')" "log_list (m_log n') = reconcile xs s es" "s \<le> length xs"
    "0 < s \<Longrightarrow> entry_term (xs ! (s - 1)) = ae_prevLogTerm req"
    using AppendEntries_success_log [OF res ok inv prev, folded s_def xs_def es_def, OF fit op] by blast+
  have "take (s + k) (reconcile xs s es) = take (s + k) L"
    by (rule reconcile_leader_prefix [OF match A(3) leader(2,1)]) (rule trans [OF A(4) leader(3)])
  with A(1-3) leader(1,2) show ?thesis by (simp add: reconcile_keeps_prefix)
qed

text \<open>
  C15. Log matching is established. Let a follower with an intact log accept a request that
  carries a run of the leader's log, let the two logs have the matching property (entries of one
  index and term have one history), let every entry of the request fit on a page, and let the
  first entry that conflicts with the request, if there is one, lie behind the first entry of
  the open page. Then the follower's log up to the end of the run is the leader's, what preceded
  the run is untouched, and the log is intact. The two conditions on pages are needed: with a
  conflict at or before the first entry of the open page the code accepts the request as well,
  but the entries it appends cannot be read (C12).
\<close>

theorem append_entries_log_matching:
  fixes req :: AppendEntries_Request and n :: ConsensusModule
  defines "s \<equiv> nat (ae_prevLogIndex req + 1)" and "xs \<equiv> log_list (m_log n)" and "es \<equiv> ae_entries req"
  assumes res: "ProcessAppendEntriesClientRequest pb e req n = Inr ((rep, st), n')" and ok: "aer_success rep"
    and inv: "log_inv (m_log n)" and prev: "-1 \<le> ae_prevLogIndex req" "ae_prevLogIndex req + 1 < 2 ^ 31"
    and fit: "\<forall>x \<in> set es. entry_fits pb (m_log n) x"
    and op: "\<And>i. first_conflict xs s es = Some i \<Longrightarrow> open_start (m_log n) < int i"
    and leader: "es = take k (drop s L)" "s + k \<le> length L" "0 < s \<Longrightarrow> ae_prevLogTerm req = entry_term (L ! (s - 1))"
    and match: "log_matching xs L"
  shows "log_inv (m_log n') \<and> take (s + k) (log_list (m_log n')) = take (s + k) L \<and>
     take s (log_list (m_log n')) = take s xs \<and> length es = k"
  unfolding s_def xs_def es_def
  by (rule AppendEntries_leader_prefix [OF res ok inv prev fit [unfolded es_def] op [unfolded s_def xs_def es_def]
      leader [unfolded s_def es_def] match [unfolded xs_def]])

definition sample_append :: AppendEntries_Request where
  "sample_append = \<lparr>ae_term = 4, ae_leaderId = ''n2'', ae_prevLogIndex = 1, ae_prevLogTerm = 1,
     ae_entries = [sample_entry 2 ''c:3'', sample_entry 2 ''c:3''], ae_leaderCommit = -1\<rparr>"

definition appended :: "((AppendEntries_Response \<times> Status) \<times> ConsensusModule) result" where
  "appended = ProcessAppendEntriesClientRequest node_pb sample_env sample_append voted_node"

lemma appended_eq: "ProcessAppendEntriesClientRequest node_pb sample_env sample_append voted_node =
    Inr ((fst (fst (projr appended)), snd (fst (projr appended))), snd (projr appended))"
  and appended_success: "aer_success (fst (fst (projr appended)))"
proof -
  have "\<not> isl appended" by code_simp
  then show "ProcessAppendEntriesClientRequest node_pb sample_env sample_append voted_node =
    Inr ((fst (fst (projr appended)), snd (fst (projr appended))), snd (projr appended))"
    by (simp add: appended_def)
  show "aer_success (fst (fst (projr appended)))" by code_simp
qed

theorem append_entries_log_matching_witness:
  "take 4 (log_list (m_log (snd (projr appended)))) =
     [sample_entry 1 ''b:2'', sample_entry 1 ''a:1'', sample_entry 2 ''c:3'', sample_entry 2 ''c:3'']"
proof -
  let ?L = "[sample_entry 1 ''b:2'', sample_entry 1 ''a:1'', sample_entry 2 ''c:3'', sample_entry 2 ''c:3'']"
  have m: "log_matching (log_list (m_log voted_node)) ?L"
    by (auto simp: log_matching_def voted_node_log node_log_inv less_Suc_eq nth_Cons' numeral_eq_Suc)
  have "m_max_file_size (m_log voted_node) = 9"
    using RequestVote_log_same [OF voted_eq] by (simp add: log_same_def node_log_inv)
  then have f: "\<forall>x \<in> set (ae_entries sample_append). entry_fits node_pb (m_log voted_node) x"
    by (simp add: sample_append_def node_entries_fit)
  from append_entries_log_matching [OF appended_eq appended_success voted_node_log(1) _ _ f _ _ _ _ m, of 2] show ?thesis
    by (simp add: sample_append_def voted_node_log node_log_inv first_conflict_def sample_entry_def)
qed

text \<open>
  C16. Retransmission. A request that is accepted a second time immediately after the first, by a
  node with an intact log on whose pages the entries fit and where the first delivery found no
  conflict at or before the first entry of the open page, leaves the log as the first delivery
  left it.
\<close>

theorem duplicate_request_changes_nothing:
  assumes first: "ProcessAppendEntriesClientRequest pb e req n = Inr ((rep, st), n')" "aer_success rep"
    and again: "ProcessAppendEntriesClientRequest pb e' req n' = Inr ((rep', st'), n'')" "aer_success rep'"
    and inv: "log_inv (m_log n)" and prev: "-1 \<le> ae_prevLogIndex req" "ae_prevLogIndex req + 1 < 2 ^ 31"
    and fit: "\<forall>x \<in> set (ae_entries req). entry_fits pb (m_log n) x \<and> entry_fits pb (m_log n') x"
    and op: "\<And>i. first_conflict (log_list (m_log n)) (nat (ae_prevLogIndex req + 1)) (ae_entries req) = Some i \<Longrightarrow>
      open_start (m_log n) < int i"
  shows "log_inv (m_log n'') \<and> log_list (m_log n'') = log_list (m_log n')"
proof -
  let ?s = "nat (ae_prevLogIndex req + 1)" and ?es = "ae_entries req" and ?xs = "log_list (m_log n)"
  have A: "log_inv (m_log n')" "log_list (m_log n') = reconcile ?xs ?s ?es" "?s \<le> length ?xs"
    using AppendEntries_success_log [OF first inv prev _ op] fit by blast+
  have "agree (drop ?s (reconcile ?xs ?s ?es)) ?es = length ?es"
    by (rule agree_covers [OF reconcile_terms [OF A(3)]])
  then have "first_conflict (log_list (m_log n')) ?s ?es = None"
    by (simp add: A(2) first_conflict_def)
  then have "log_inv (m_log n'')" "log_list (m_log n'') = reconcile (log_list (m_log n')) ?s ?es"
    using AppendEntries_success_log [OF again A(1) prev] fit by simp_all
  with A(2,3) show ?thesis by (simp add: reconcile_idem)
qed

definition appended_again :: "((AppendEntries_Response \<times> Status) \<times> ConsensusModule) result" where
  "appended_again = ProcessAppendEntriesClientRequest node_pb sample_env sample_append (snd (projr appended))"

theorem duplicate_request_changes_nothing_witness:
  "log_list (m_log (snd (projr appended_again))) = log_list (m_log (snd (projr appended)))"
proof -
  have r: "\<not> isl appended_again" and s: "aer_success (fst (fst (projr appended_again)))" by code_simp+
  from r have eq: "ProcessAppendEntriesClientRequest node_pb sample_env sample_append (snd (projr appended)) =
      Inr ((fst (fst (projr appended_again)), snd (fst (projr appended_again))), snd (projr appended_again))"
    by (simp add: appended_again_def)
  have "m_max_file_size (m_log voted_node) = 9" "m_max_file_size (m_log (snd (projr appended))) = 9"
    by code_simp+
  then have f: "\<forall>x \<in> set (ae_entries sample_append).
      entry_fits node_pb (m_log voted_node) x \<and> entry_fits node_pb (m_log (snd (projr appended))) x"
    by (simp add: sample_append_def node_entries_fit)
  from duplicate_request_changes_nothing [OF appended_eq appended_success eq s voted_node_log(1) _ _ f] show ?thesis
    by (simp add: sample_append_def voted_node_log node_log_inv first_conflict_def sample_entry_def)
qed

subsection \<open>Commitment\<close>

lemma UpdateCommitIndex_commit:
  assumes "UpdateCommitIndex pb r n = Inr n'"
  obtains n1 where "advance_commit n = Inr n1" and "m_commit_index n' = m_commit_index n1"
  using assms
proof (cases rule: UpdateCommitIndex_cases)
  case (removed n1)
  then show ?thesis using that ResetToFollower_log_same(2) by (auto simp: notify_def)
next
  case (transition n1 i e)
  then have "m_commit_index n' = m_commit_index (notify Membership_sync n1)"
    by (auto simp: Module_Append_entry_def Let_def CreateConnections_def split: if_splits)
  then show ?thesis using that transition by (simp add: notify_def)
qed (use that in \<open>simp_all add: notify_def\<close>)

text \<open>
  The rule of raft, as a reference: an entry behind the commit index that is of the leader's own
  term and stored on a quorum may be committed.
\<close>

definition committable :: "ConsensusModule \<Rightarrow> int \<Rightarrow> bool" where
  "committable n i \<longleftrightarrow> m_commit_index n < i \<and> i < LogSize (m_log n) \<and>
     entry_term (log_list (m_log n) ! nat i) = m_term n \<and>
     CheckQuorum (stored_on (m_configuration n) (ctx_address n) (match_of (m_match_index n)) i) (m_configuration n)"

text \<open>
  C17. The leader's commit index after \<open>UpdateCommitIndex\<close>, which scans its log entry by
  entry, is the greatest index that may be committed, and the old one if there is none.
\<close>

theorem leader_commit_rule:
  assumes inv: "log_readable (m_log n)" and ci: "-1 \<le> m_commit_index n"
    and res: "UpdateCommitIndex pb r n = Inr n'"
  shows "m_commit_index n' = Max (insert (m_commit_index n) {i. committable n i})"
proof -
  obtain n1 where n1: "advance_commit n = Inr n1" "m_commit_index n' = m_commit_index n1"
    by (rule UpdateCommitIndex_commit [OF res])
  note R = advance_commit_rule [OF inv ci n1(1)]
  have fin: "finite (insert (m_commit_index n) {i. committable n i})"
    by (rule finite_subset [of _ "insert (m_commit_index n) {m_commit_index n .. LogSize (m_log n)}"])
      (auto simp: committable_def)
  show ?thesis unfolding n1(2)
  proof (rule Max_eqI [OF fin, symmetric])
    fix i assume "i \<in> insert (m_commit_index n) {i. committable n i}"
    then show "i \<le> m_commit_index n1" using R(1,3) by (auto simp: committable_def)
  next
    show "m_commit_index n1 \<in> insert (m_commit_index n) {i. committable n i}"
      using R(1,2) by (auto simp: committable_def)
  qed
qed

definition three_servers :: Configuration where
  "three_servers = empty_configuration\<lparr>prev_configuration := [\<lparr>address = ''n1''\<rparr>, \<lparr>address = ''n2''\<rparr>, \<lparr>address = ''n3''\<rparr>]\<rparr>"

definition leader_node :: ConsensusModule where
  "leader_node = CreateConnections [''n1'', ''n2'', ''n3'']
     (sample_node\<lparr>m_state := LEADER, m_term := 2, m_match_index := [(''n2'', 2), (''n3'', -1)],
        m_next_index := [(''n2'', 3), (''n3'', 1)],
        m_configuration := SetConfiguration 0 three_servers ClusterConfiguration_new\<rparr>)"

lemma leader_node_log [simp]: "m_log leader_node = node_log"
  by (simp add: leader_node_def CreateConnections_def Let_def)

theorem leader_commit_rule_witness:
  "m_commit_index (projr (UpdateCommitIndex node_pb 1000 leader_node)) = 2"
proof -
  let ?r = "UpdateCommitIndex node_pb 1000 leader_node"
  have "\<not> isl ?r" by code_simp
  then have r: "?r = Inr (projr ?r)" by simp
  have c: "m_commit_index leader_node = -1" "m_term leader_node = 2" and q: "CheckQuorum (stored_on
      (m_configuration leader_node) (ctx_address leader_node) (match_of (m_match_index leader_node)) 2)
      (m_configuration leader_node)" by code_simp+
  have l: "log_readable (m_log leader_node)" by (simp add: node_log_inv log_inv_readable)
  have size: "LogSize (m_log leader_node) = 3" "log_list (m_log leader_node) ! 2 = sample_entry 2 ''c:3''"
    using l by (simp_all add: LogSize_log_list node_log_inv)
  have "-1 \<le> m_commit_index leader_node" by (simp add: c)
  note rule = leader_commit_rule [OF l this r]
  have "committable leader_node 2" using c q size by (simp add: committable_def sample_entry_def)
  moreover have "insert (m_commit_index leader_node) {i. committable leader_node i} \<subseteq> {-1 .. 2}"
    using c size by (auto simp: committable_def)
  ultimately show ?thesis unfolding rule by (intro Max_eqI) (auto intro: finite_subset)
qed

lemma AppendEntries_success_commit:
  assumes res: "ProcessAppendEntriesClientRequest pb e req n = Inr ((rep, st), n')" and ok: "aer_success rep"
  obtains n3 n4 where "follower_commit req n3 = Inr n4" "m_state_machine n3 = m_state_machine n"
    "m_commit_index n3 = m_commit_index n" "m_log n3 = m_log n'" "m_state_machine n' = m_state_machine n4"
    "m_commit_index n' = m_commit_index n4"
  using res
proof (cases rule: AppendEntries_cases)
  case (current n1 n2 b)
  have sm1: "m_state_machine n1 = m_state_machine n"
    using current(2) ResetToFollower_log_same(3) by (auto split: if_splits)
  from current(6,8) ok obtain n3 n4 where
    n3: "replicate_entries pb req (n2\<lparr>m_leader_id := ae_leaderId req\<rparr>) = Inr n3"
    and n4: "follower_commit req n3 = Inr n4" "core n' = core n4" "m_state_machine n' = m_state_machine n4" by blast
  have "m_state_machine n3 = m_state_machine n" "m_commit_index n3 = m_commit_index n"
    using replicate_entries_state_machine [OF n3] replicate_entries_quiet(3) [OF n3] current(9) sm1
      AppendEntries_current_log(2) [OF current(2,4)] by simp_all
  moreover have "m_log n3 = m_log n'"
    using follower_commit_quiet(2) [OF n4(1)] core_projections(2) [OF n4(2)] by simp
  ultimately show thesis using n4 that core_projections(6) [OF n4(2)] by blast
qed (use ok in simp_all)

text \<open>
  If the store of a follower is what the applied prefix of its log leaves, an accepted request
  keeps this, provided it contradicts no applied entry and the leader's commit index lies inside
  the resulting log; if the request raises the commit index, everything up to the leader's commit
  index is then applied, and otherwise nothing is.
\<close>

lemma AppendEntries_state_of_log:
  fixes req :: AppendEntries_Request and n :: ConsensusModule
  defines "s \<equiv> nat (ae_prevLogIndex req + 1)" and "xs \<equiv> log_list (m_log n)" and "es \<equiv> ae_entries req"
    and "sm \<equiv> m_state_machine n"
  assumes res: "ProcessAppendEntriesClientRequest pb e req n = Inr ((rep, st), n')" and ok: "aer_success rep"
    and inv: "log_inv (m_log n)" and prev: "-1 \<le> ae_prevLogIndex req" "ae_prevLogIndex req + 1 < 2 ^ 31"
    and fit: "\<forall>x \<in> set es. entry_fits pb (m_log n) x"
    and op: "\<And>i. first_conflict xs s es = Some i \<Longrightarrow> open_start (m_log n) < int i \<and> LastApplied sm < int i"
    and old: "state_of_log (m_log n) sm"
    and commit: "m_commit_index n < ae_leaderCommit req \<Longrightarrow> LastApplied sm \<le> ae_leaderCommit req"
      "ae_leaderCommit req < int (length (reconcile xs s es))" "in_int (ae_leaderCommit req)"
  shows "state_of_log (m_log n') (m_state_machine n') \<and>
     LastApplied (m_state_machine n') =
       (if m_commit_index n < ae_leaderCommit req then ae_leaderCommit req else LastApplied sm) \<and>
     m_commit_index n' = (if m_commit_index n < ae_leaderCommit req then ae_leaderCommit req else m_commit_index n)"
proof -
  have A: "log_inv (m_log n')" "log_list (m_log n') = reconcile xs s es" "s \<le> length xs"
    using AppendEntries_success_log [OF res ok inv prev] fit op unfolding s_def xs_def es_def by blast+
  have la: "-1 \<le> LastApplied sm" "LastApplied sm < int (length xs)"
    using old by (simp_all add: state_of_log_def xs_def)
  have t: "take (nat (LastApplied sm + 1)) (reconcile xs s es) = take (nat (LastApplied sm + 1)) xs"
    "nat (LastApplied sm + 1) \<le> length (reconcile xs s es)"
    using reconcile_take [of "nat (LastApplied sm + 1)" xs s es] la op A(3) by fastforce+
  have keep: "state_of_log (m_log n') sm"
    using t A(2) la by (intro state_of_log_extend [OF old]) (auto simp: xs_def)
  obtain n3 n4 where n4: "follower_commit req n3 = Inr n4" "m_state_machine n' = m_state_machine n4"
    "m_commit_index n' = m_commit_index n4"
    and c3: "m_state_machine n3 = sm" "m_commit_index n3 = m_commit_index n" and l3: "m_log n3 = m_log n'"
    using AppendEntries_success_commit [OF res ok] unfolding sm_def by metis
  show ?thesis
  proof (cases "m_commit_index n < ae_leaderCommit req")
    case True
    have r3: "log_readable (m_log n3)" and s3: "LogSize (m_log n3) = int (length (reconcile xs s es))"
      using A(1,2) by (simp_all add: l3 LogSize_log_list log_inv_readable)
    from follower_commit_effect(2) [OF r3 _ _ commit(3) _ n4(1)] True la c3 commit(2) s3
    have ci: "m_commit_index n4 = ae_leaderCommit req" and run: "apply_loop (m_commit_index n) (take (nat (ae_leaderCommit req - LastApplied sm))
        (drop (nat (LastApplied sm + 1)) (log_list (m_log n')))) sm = Inr (m_state_machine n4)"
      by (simp_all add: l3)
    have "ae_leaderCommit req < 2 ^ 31" using commit(3) by (simp add: in_int_def)
    from apply_loop_state_of_log [OF keep _ commit(1) [OF True] this run] True commit(2) A(2) n4(2,3) ci show ?thesis
      by simp
  next
    case False
    then have "n4 = n3" using n4(1) c3(2) by (simp add: follower_commit_def)
    with False keep c3 n4 show ?thesis by simp
  qed
qed

end
