(* ===== verification/Leader_Properties.thy ===== *)
theory Leader_Properties
  imports Consensus_Properties
begin

section \<open>Properties of leaders and of client calls\<close>

text \<open>
  What a leader sends, how it is elected and how it acquires its lease; what client writes,
  client reads and membership changes are answered.
\<close>

subsection \<open>Heartbeats\<close>

fun call_peer :: "Rpc \<Rightarrow> string" where
  "call_peer (Call_RequestVote p req) = p"
| "call_peer (Call_AppendEntries p req) = p"

definition connected :: "ConsensusModule \<Rightarrow> string \<Rightarrow> bool" where
  "connected n p \<longleftrightarrow> map_of (m_stubs n) p = Some True"

lemma start_call_connected: "connected (start_call p c n) = connected n"
  by (auto simp: connected_def start_call_def update_conv fun_eq_iff split: option.splits bool.splits)

lemma Client_AppendEntries_peer:
  "connected (Client_AppendEntries p t a b es c n) = connected n"
  "ctx_address (Client_AppendEntries p t a b es c n) = ctx_address n"
  "\<exists>calls. m_sent (Client_AppendEntries p t a b es c n) = m_sent n @ calls \<and>
     map call_peer calls = (if connected n p then [p] else [])"
  using core_projections(1) [OF core_start_call]
  by (auto simp: Client_AppendEntries_def start_call_connected)
    (auto simp: start_call_def connected_def split: option.splits bool.splits)

lemma heartbeat_loop_peers:
  "heartbeat_loop t ps n = Inr n' \<Longrightarrow>
     \<exists>calls. m_sent n' = m_sent n @ calls \<and>
       map call_peer calls = filter (\<lambda>p. p \<noteq> ctx_address n \<and> connected n p) ps"
proof (induction ps arbitrary: n)
  case (Cons p ps)
  show ?case
  proof (cases "p = ctx_address n")
    case False
    obtain nxt m where g: "map_get p (m_next_index n) = (nxt, m)" by fastforce
    define n1 where "n1 = n\<lparr>m_next_index := m\<rparr>"
    have n1: "connected n1 = connected n" "m_sent n1 = m_sent n" "ctx_address n1 = ctx_address n"
      by (simp_all add: n1_def connected_def fun_eq_iff)
    from Cons.prems False g obtain q es where
      "heartbeat_loop t ps (Client_AppendEntries p t (nxt - 1) q es (m_commit_index n1) n1) = Inr n'"
      by (auto simp: Let_def n1_def)
    from Cons.IH [OF this] obtain calls where
      "m_sent n' = m_sent (Client_AppendEntries p t (nxt - 1) q es (m_commit_index n1) n1) @ calls"
      "map call_peer calls = filter (\<lambda>p. p \<noteq> ctx_address n \<and> connected n p) ps"
      by (auto simp: Client_AppendEntries_peer n1)
    with Client_AppendEntries_peer(3) [of p t "nxt - 1" q es "m_commit_index n1" n1] False
    show ?thesis by (auto simp: n1)
  qed (use Cons in simp)
qed simp

lemma UpdateCommitIndex_sent:
  assumes "UpdateCommitIndex pb r n = Inr n'"
  shows "m_sent n' = m_sent n" and "m_lease_holder n' \<Longrightarrow> m_lease_holder n"
proof -
  have adv: "m_sent n1 = m_sent n \<and> m_lease_holder n1 = m_lease_holder n" if "advance_commit n = Inr n1" for n1
    using that by (auto elim!: advance_commitE simp: CommitEntries_def)
  have app: "m_sent n2 = m_sent n1 \<and> m_lease_holder n2 = m_lease_holder n1"
    if "Module_Append_entry pb x n1 = Inr (i, n2)" for x i n1 n2
    using that by (auto simp: Module_Append_entry_def Let_def CreateConnections_def split: if_splits)
  have "m_sent n' = m_sent n \<and> (m_lease_holder n' \<longrightarrow> m_lease_holder n)"
    using assms
  proof (cases rule: UpdateCommitIndex_cases)
    case (removed n1)
    then show ?thesis
      using adv by (auto simp: ResetToFollower_def Let_def StoreState_def ScheduleElection_def notify_def)
  next
    case (transition n1 i x)
    then show ?thesis using adv app by (simp add: notify_def)
  qed (use adv in \<open>simp_all add: notify_def\<close>)
  then show "m_sent n' = m_sent n" "m_lease_holder n' \<Longrightarrow> m_lease_holder n" by auto
qed

lemma HeartbeatCallback_loop:
  assumes "HeartbeatCallback pb e n = Inr n'" and "m_state n = LEADER"
  obtains n1 n2 where "core n1 = core n" and "connected n1 = connected n" and "m_sent n1 = m_sent n"
    and "heartbeat_loop (m_term n) (ServerAddresses (m_configuration n)) n1 = Inr n2" and "m_sent n' = m_sent n2"
proof -
  define n1 where "n1 = n\<lparr>m_heartbeat_time := clock e 0, m_renew_lease := True, m_responding_peers := [ctx_address n]\<rparr>"
  obtain n2 n3 where n2: "heartbeat_loop (m_term n1) (ServerAddresses (m_configuration n1)) n1 = Inr n2"
    and n3: "(if length (ServerAddresses (m_configuration n2)) = 1 \<and> KnownServer (ctx_address n2) (m_configuration n2)
      then UpdateCommitIndex pb (draw e 0) n2 else Inr n2) = Inr n3" "n' = ScheduleHeartbeat n3"
    using assms by (auto simp: HeartbeatCallback_def Let_def n1_def)
  have "m_sent n' = m_sent n2"
    using n3 UpdateCommitIndex_sent(1) by (auto simp: ScheduleHeartbeat_def split: if_splits)
  with n2 show ?thesis
    by (intro that [of n1 n2]) (simp_all add: n1_def core_def connected_def fun_eq_iff)
qed

lemma HeartbeatCallback_sends:
  assumes log: "log_readable (m_log n)" and res: "HeartbeatCallback pb e n = Inr n'"
  shows "\<exists>calls. m_sent n' = m_sent n @ calls \<and> (\<forall>call \<in> set calls. honest_request n (m_term n) call) \<and>
     map call_peer calls = (if m_state n = LEADER
       then filter (\<lambda>p. p \<noteq> ctx_address n \<and> connected n p) (ServerAddresses (m_configuration n)) else [])"
proof (cases "m_state n = LEADER")
  case True
  obtain n1 n2 where n1: "core n1 = core n" "connected n1 = connected n" "m_sent n1 = m_sent n"
    and loop: "heartbeat_loop (m_term n) (ServerAddresses (m_configuration n)) n1 = Inr n2"
    and sent: "m_sent n' = m_sent n2" by (rule HeartbeatCallback_loop [OF res True])
  have same: "m_log n1 = m_log n" "ctx_address n1 = ctx_address n" "m_commit_index n1 = m_commit_index n"
    using n1(1) by (simp_all add: core_def)
  have "honest_request n1 = honest_request n" by (simp add: honest_request_def same fun_eq_iff)
  with heartbeat_loop_sends [OF _ loop] heartbeat_loop_peers [OF loop] log same n1 sent True show ?thesis by auto
qed (use res in \<open>simp add: HeartbeatCallback_def\<close>)

text \<open>
  C19. A heartbeat of a leader sends one request to every other known server it is connected to
  and to nobody else; every request carries the leader's term, address and commit index and the
  whole of its log from some index on, with the term of the entry before. A node that is not
  leader sends nothing.
\<close>

theorem heartbeat_sends_log:
  assumes log: "log_readable (m_log n)" and res: "HeartbeatCallback pb e n = Inr n'"
  shows "\<exists>calls. m_sent n' = m_sent n @ calls \<and> (\<forall>call \<in> set calls. honest_request n (m_term n) call) \<and>
     map call_peer calls = (if m_state n = LEADER
       then filter (\<lambda>p. p \<noteq> ctx_address n \<and> connected n p) (ServerAddresses (m_configuration n)) else [])"
  by (rule HeartbeatCallback_sends [OF assms])

theorem heartbeat_sends_log_witness:
  "\<exists>calls. m_sent (projr (HeartbeatCallback node_pb sample_env leader_node)) = calls \<and>
     map call_peer calls = [''n2'', ''n3''] \<and> (\<forall>call \<in> set calls. honest_request leader_node 2 call)"
proof -
  let ?r = "HeartbeatCallback node_pb sample_env leader_node"
  have node: "m_sent leader_node = []" "m_term leader_node = 2" "m_state leader_node = LEADER"
    by code_simp+
  have peers: "filter (\<lambda>p. p \<noteq> ctx_address leader_node \<and> connected leader_node p)
      (ServerAddresses (m_configuration leader_node)) = [''n2'', ''n3'']" by code_simp
  have "\<not> isl ?r" by code_simp
  then have "?r = Inr (projr ?r)" by simp
  from heartbeat_sends_log [OF _ this] node peers show ?thesis by (simp add: node_log_inv)
qed

subsection \<open>Elections\<close>

lemma PromoteToLeader_effect:
  assumes "PromoteToLeader pb n = Inr n'"
  shows "m_state n' = LEADER" and "m_term n' = m_term n" and "m_leader_id n' = ctx_address n"
    and "timer_armed (m_heartbeat_timer n')"
    and "\<exists>i. Append_entry pb (default_entry\<lparr>entry_term := m_term n, entry_type := NO_OP\<rparr>) (m_log n) = Inr (i, m_log n')"
  using assms
  by (auto simp: PromoteToLeader_def Module_Append_entry_def Let_def ScheduleHeartbeat_def Timer_Reset_def
      has_configuration_def default_entry_def split: if_splits)

text \<open>
  C20. A candidate becomes leader on a reply exactly if the reply grants a vote in the term of
  the request and the votes, this one included, are more than half of the known servers. It then
  leads the term it had, has armed its heartbeat and appended an empty entry of that term.
\<close>

theorem election_won_by_majority:
  assumes cand: "m_state n = CANDIDATE" and votes: "0 \<le> m_votes_received n" "m_votes_received n < 2 ^ 30"
    and res: "ProcessRequestVoteServerResponse pb e req rep a n = Inr n'"
  shows "(m_state n' = LEADER \<longleftrightarrow> rvr_term rep = rv_term req \<and> rvr_voteGranted rep \<and>
       2 * (m_votes_received n + 1) > int (length (ServerAddresses (m_configuration n)))) \<and>
     (m_state n' = LEADER \<longrightarrow> m_term n' = m_term n \<and> m_leader_id n' = ctx_address n \<and>
        timer_armed (m_heartbeat_timer n') \<and>
        (log_inv (m_log n) \<and> entry_fits pb (m_log n) (default_entry\<lparr>entry_term := m_term n, entry_type := NO_OP\<rparr>) \<longrightarrow>
           log_inv (m_log n') \<and>
           log_list (m_log n') = log_list (m_log n) @ [default_entry\<lparr>entry_term := m_term n, entry_type := NO_OP\<rparr>]))"
proof -
  let ?n1 = "n\<lparr>m_votes_received := m_votes_received n + 1\<rparr>"
  let ?won = "rvr_term rep = rv_term req \<and> rvr_voteGranted rep \<and>
       2 * (m_votes_received n + 1) > int (length (ServerAddresses (m_configuration n)))"
  have size: "size_t_of_int ((m_votes_received n + 1) * 2) = 2 * (m_votes_received n + 1)"
    using votes by (subst size_t_of_int_nonneg) auto
  show ?thesis
  proof (cases ?won)
    case True
    then have p: "PromoteToLeader pb ?n1 = Inr n'"
      using res cand size by (simp add: ProcessRequestVoteServerResponse_def Let_def)
    note P = PromoteToLeader_effect [OF p]
    with Append_entry_inv [of "m_log n" pb "default_entry\<lparr>entry_term := m_term n, entry_type := NO_OP\<rparr>"] True
    show ?thesis by auto
  next
    case False
    then have "m_state n' \<noteq> LEADER"
      using res cand size ResetToFollower_fields(3) [of pb "draw e 0" "to_int (rvr_term rep)" n n']
      by (auto simp: ProcessRequestVoteServerResponse_def Let_def split: if_splits)
    with False show ?thesis by auto
  qed
qed

definition election_pb :: protobuf where
  "election_pb = node_pb\<lparr>entry_codec := table_codec [default_entry\<lparr>entry_term := 0, entry_type := NO_OP\<rparr>]\<rparr>"

definition candidate_node :: ConsensusModule where
  "candidate_node = sample_node\<lparr>m_votes_received := 1,
     m_configuration := SetConfiguration 0 three_servers ClusterConfiguration_new\<rparr>"

definition vote_reply :: RequestVote_Response where
  "vote_reply = \<lparr>rvr_term = 4, rvr_voteGranted = True\<rparr>"

theorem election_won_by_majority_witness:
  "m_state (projr (ProcessRequestVoteServerResponse election_pb sample_env (vote_for ''n1'') vote_reply ''n2'' candidate_node))
     = LEADER"
proof -
  let ?r = "ProcessRequestVoteServerResponse election_pb sample_env (vote_for ''n1'') vote_reply ''n2'' candidate_node"
  have c: "m_state candidate_node = CANDIDATE" "m_votes_received candidate_node = 1"
    "length (ServerAddresses (m_configuration candidate_node)) = 3" by code_simp+
  have "\<not> isl ?r" by code_simp
  then have "?r = Inr (projr ?r)" by simp
  from election_won_by_majority [OF c(1) _ _ this] show ?thesis
    by (simp add: c vote_reply_def vote_for_def)
qed

subsection \<open>The leader lease\<close>

text \<open>
  C21. Reads are served under a lease, and the lease is acquired only when a quorum has answered:
  a reply that turns the lease on is a successful one in the leader's term, and its sender
  together with the peers that responded since the last heartbeat passes \<open>CheckQuorum\<close>.
\<close>

theorem lease_needs_quorum:
  assumes res: "ProcessAppendEntriesServerResponse pb e req rep a n = Inr n'"
    and off: "\<not> m_lease_holder n" and on: "m_lease_holder n'"
  shows "m_state n = LEADER \<and> aer_success rep \<and> aer_term rep = m_term n \<and> m_renew_lease n \<and>
     CheckQuorum (uset_insert a (m_responding_peers n)) (m_configuration n)"
proof -
  have reset: "m_state n1 = FOLLOWER \<and> \<not> m_lease_holder n1" if "aer_term rep > ae_term req"
    "(if aer_term rep > ae_term req then ResetToFollower pb (draw e 0) (to_int (aer_term rep)) (n\<lparr>m_leader_id := ''''\<rparr>)
      else Inr n) = Inr n1" for n1
    using that by (auto simp: ResetToFollower_def Let_def StoreState_def ScheduleElection_def)
  from res show ?thesis
  proof (cases rule: AppendReply_cases)
    case (ignored n1)
    then show ?thesis using reset [of n1] off on by (cases "aer_term rep > ae_term req") auto
  next
    case (accepted n1 n5)
    have "\<not> aer_term rep > ae_term req" using reset [OF _ accepted(1)] accepted(2) by auto
    then have "n1 = n" using accepted(1) by simp
    with accepted UpdateCommitIndex_sent(2) [OF accepted(6) on] off show ?thesis by auto
  qed
qed

definition awaiting_node :: ConsensusModule where
  "awaiting_node = leader_node\<lparr>m_renew_lease := True, m_responding_peers := [''n1'']\<rparr>"

definition heartbeat_reply :: AppendEntries_Response where
  "heartbeat_reply = \<lparr>aer_term = 2, aer_success = True\<rparr>"

theorem lease_needs_quorum_witness:
  "m_lease_holder (projr (ProcessAppendEntriesServerResponse node_pb sample_env stale_heartbeat heartbeat_reply ''n2'' awaiting_node))
   \<and> CheckQuorum (uset_insert ''n2'' (m_responding_peers awaiting_node)) (m_configuration awaiting_node)"
proof -
  let ?r = "ProcessAppendEntriesServerResponse node_pb sample_env stale_heartbeat heartbeat_reply ''n2'' awaiting_node"
  have r: "\<not> isl ?r" and l: "m_lease_holder (projr ?r)" and off: "\<not> m_lease_holder awaiting_node" by code_simp+
  from r have "?r = Inr (projr ?r)" by simp
  from lease_needs_quorum [OF this off l] l show ?thesis by blast
qed

text \<open>
  A client read is answered from the store only by a leader that holds the lease; in every
  other case the answer carries an error: not leader with the known leader as a hint, lease
  expired, or key missing. A read changes nothing.
\<close>

lemma query_needs_lease:
  "ProcessClientQueryClientRequest req n =
     (if m_state n = LEADER \<and> m_lease_holder n \<and> map_of (sm_store (m_state_machine n)) (cq_query req) \<noteq> None
      then (\<lparr>cqr_status = True, cqr_response = the (map_of (sm_store (m_state_machine n)) (cq_query req)),
             cqr_leaderHint = ''''\<rparr>, Status_OK)
      else (\<lparr>cqr_status = False, cqr_response = '''', cqr_leaderHint = ''''\<rparr>,
        if m_state n \<noteq> LEADER then Status_UNKNOWN ''Peer is not a leader'' NOT_LEADER (m_leader_id n)
        else if \<not> m_lease_holder n
        then Status_UNKNOWN ''Leader does not own lease to serve reads'' LEASE_EXPIRED ''''
        else Status_UNKNOWN ''Key does not exist'' UNEXPECTED_ERROR ''''))"
  by (auto simp: ProcessClientQueryClientRequest_def Store_Read_def ConstructError_def Let_def split: option.splits)

subsection \<open>Client writes\<close>



lemma sm_sessions_IncrementLastApplied [simp]:
  "sm_sessions (IncrementLastApplied sm) = sm_sessions sm" "sm_store (IncrementLastApplied sm) = sm_store sm"
  by (simp_all add: IncrementLastApplied_def)








subsection \<open>Membership changes\<close>

lemma InsertNewConfiguration_newest:
  assumes "\<forall>p \<in> set (m_configurations c). fst p < i" and "m_id c \<noteq> i"
  shows "InsertNewConfiguration i conf c = SetConfiguration i conf (c\<lparr>m_configurations := m_configurations c @ [(i, conf)]\<rparr>)"
  using assms by (simp add: InsertNewConfiguration_def omap_insert_above)

text \<open>
  C23. The second half of a membership change. Once a leader that belongs to a joint
  configuration has committed it, it appends the configuration that consists of the new servers
  alone, and from then on, before that entry is committed, uses it: the configuration is stable,
  its index is that of the new entry and the known servers are exactly the new ones.
\<close>

theorem committed_joint_configuration_is_left:
  fixes n :: ConsensusModule
  defines "conf \<equiv> m_configuration n"
  defines "new \<equiv> empty_configuration\<lparr>prev_configuration := next_configuration (m_current_configuration conf)\<rparr>"
  defines "x \<equiv> default_entry\<lparr>entry_term := m_term n, entry_type := CONFIGURATION, entry_data := ConfigurationData new\<rparr>"
  assumes res: "UpdateCommitIndex pb r n = Inr n'" and joint: "cc_state conf = CONF_JOINT"
    and committed: "m_commit_index n' \<ge> m_id conf" and known: "KnownServer (ctx_address n) conf"
    and inv: "log_inv (m_log n)" and fit: "entry_fits pb (m_log n) x"
    and ids: "\<forall>p \<in> set (m_configurations conf). fst p < LogSize (m_log n)" "m_id conf < LogSize (m_log n)"
  shows "log_inv (m_log n') \<and> log_list (m_log n') = log_list (m_log n) @ [x] \<and>
     m_current_configuration (m_configuration n') = new \<and> cc_state (m_configuration n') = CONF_STABLE \<and>
     m_id (m_configuration n') = LogSize (m_log n) \<and>
     set (ServerAddresses (m_configuration n')) = address ` set (next_configuration (m_current_configuration conf))"
proof -
  obtain n1 where n1: "advance_commit n = Inr n1" "m_commit_index n' = m_commit_index n1"
    by (rule UpdateCommitIndex_commit [OF res])
  have f: "m_configuration n1 = conf" "m_log n1 = m_log n" "m_term n1 = m_term n" "ctx_address n1 = ctx_address n"
    using n1(1) by (auto elim!: advance_commitE simp: CommitEntries_def conf_def)
  obtain l where l: "Append_entry pb x (m_log n) = Inr (LogSize (m_log n), l)" "log_inv l" "log_list l = log_list (m_log n) @ [x]"
    using Append_entry_inv [OF inv fit] by auto
  let ?n2 = "(notify Membership_sync n1)\<lparr>m_log := l,
      m_configuration := InsertNewConfiguration (LogSize (m_log n)) new conf\<rparr>"
  have has: "has_configuration x" "entry_configuration x = new"
    by (simp_all add: x_def has_configuration_def entry_configuration_def)
  have "Module_Append_entry pb x (notify Membership_sync n1) = Inr (LogSize (m_log n),
      CreateConnections (ServerAddresses (m_configuration ?n2)) ?n2)"
    using l(1) f has by (simp add: Module_Append_entry_def Let_def notify_def)
  then have n': "n' = CreateConnections (ServerAddresses (m_configuration ?n2)) ?n2"
    using res n1 f joint committed known
    by (simp add: UpdateCommitIndex_def Let_def) (simp add: notify_def f x_def new_def)
  have "InsertNewConfiguration (LogSize (m_log n)) new conf =
      SetConfiguration (LogSize (m_log n)) new (conf\<lparr>m_configurations := m_configurations conf @ [(LogSize (m_log n), new)]\<rparr>)"
    using ids by (intro InsertNewConfiguration_newest) auto
  with l show ?thesis
    unfolding n' by (simp add: CreateConnections_def Let_def SetConfiguration_def SetState_def ServerAddresses_def)
      (simp add: new_def empty_configuration_def)
qed

definition joint_entry :: LogEntry where
  "joint_entry = default_entry\<lparr>entry_term := 2, entry_type := CONFIGURATION,
     entry_data := ConfigurationData (empty_configuration\<lparr>prev_configuration := [\<lparr>address = ''n1''\<rparr>, \<lparr>address = ''n2''\<rparr>]\<rparr>)\<rparr>"

definition joint_pb :: protobuf where
  "joint_pb = node_pb\<lparr>entry_codec := table_codec [joint_entry]\<rparr>"

definition joint_node :: ConsensusModule where
  "joint_node = leader_node\<lparr>m_configuration := SetConfiguration 0
     (three_servers\<lparr>next_configuration := [\<lparr>address = ''n1''\<rparr>, \<lparr>address = ''n2''\<rparr>]\<rparr>) ClusterConfiguration_new\<rparr>"

theorem committed_joint_configuration_is_left_witness:
  "set (ServerAddresses (m_configuration (projr (UpdateCommitIndex joint_pb 1000 joint_node)))) = {''n1'', ''n2''}"
proof -
  let ?r = "UpdateCommitIndex joint_pb 1000 joint_node"
  have r: "\<not> isl ?r" and c: "0 \<le> m_commit_index (projr ?r)" by code_simp+
  have n: "cc_state (m_configuration joint_node) = CONF_JOINT" "m_id (m_configuration joint_node) = 0"
    "KnownServer (ctx_address joint_node) (m_configuration joint_node)" "m_configurations (m_configuration joint_node) = []"
    "next_configuration (m_current_configuration (m_configuration joint_node)) = [\<lparr>address = ''n1''\<rparr>, \<lparr>address = ''n2''\<rparr>]"
    "m_term joint_node = 2"
    by code_simp+
  have l: "m_log joint_node = node_log" by (simp add: joint_node_def)
  have size: "LogSize node_log = 3" using node_log_inv by (simp add: LogSize_log_list)
  have fit: "entry_fits joint_pb node_log joint_entry"
    by (simp add: entry_fits_def joint_pb_def table_codec_def node_log_inv)
  from r have "?r = Inr (projr ?r)" by simp
  from committed_joint_configuration_is_left [OF this n(1)] show ?thesis
    using c fit by (simp add: n l size node_log_inv flip: joint_entry_def)
qed

end
