(* ===== verification/Node_Configuration.thy ===== *)
theory Node_Configuration
  imports Node_Runs
begin

section \<open>The configuration of a node along its runs\<close>

text \<open>
  Every handler of the consensus module changes the configuration record only through the
  operations of \<open>cluster_configuration.cpp\<close>, so it stays well formed in every state that a node
  can reach, restarts included.
\<close>

definition conf_wf :: "ConsensusModule \<Rightarrow> bool" where
  "conf_wf n \<longleftrightarrow> config_wf (m_configuration n)"

named_theorems conf_simps \<open>operations that leave the configuration of a node alone\<close>

lemma conf_operations [conf_simps]:
  "m_configuration (CreateConnections ps n) = m_configuration n"
  "m_configuration (start_call p c n) = m_configuration n"
  "m_configuration (Client_RequestVote p t i j n) = m_configuration n"
  "m_configuration (Client_AppendEntries p t i j es k n) = m_configuration n"
  "m_configuration (ScheduleElection r t n) = m_configuration n"
  "m_configuration (ScheduleHeartbeat n) = m_configuration n"
  "m_configuration (CommitEntries es n) = m_configuration n"
  "m_configuration (notify cv n) = m_configuration n"
  "m_configuration (renew_lease e a n) = m_configuration n"
  "m_configuration (increment_applied n) = m_configuration n"
  "m_configuration (set_sessions ca n) = m_configuration n"
  by (simp_all add: CreateConnections_def Client_RequestVote_def Client_AppendEntries_def start_call_def
      ScheduleElection_def ScheduleHeartbeat_def CommitEntries_def notify_def renew_lease_def
      increment_applied_def set_sessions_def Let_def split: option.splits bool.splits)

lemma conf_request_votes [conf_simps]: "m_configuration (request_votes t i j n) = m_configuration n"
proof -
  have "m_configuration (fold f ps n) = m_configuration n"
    if "\<And>p n. m_configuration (f p n) = m_configuration n" for f :: "string \<Rightarrow> ConsensusModule \<Rightarrow> ConsensusModule" and ps
    using that by (induction ps arbitrary: n) auto
  then show ?thesis unfolding request_votes_def by (simp add: conf_simps)
qed

lemma conf_StoreState: "StoreState pb n = Inr n' \<Longrightarrow> m_configuration n' = m_configuration n"
  by (auto simp: StoreState_def)

lemma conf_ResetToFollower: "ResetToFollower pb r t n = Inr n' \<Longrightarrow> m_configuration n' = m_configuration n"
  by (auto simp: ResetToFollower_def Let_def conf_simps dest: conf_StoreState)

lemma conf_heartbeat_loop: "heartbeat_loop t ps n = Inr n' \<Longrightarrow> m_configuration n' = m_configuration n"
proof (induction ps arbitrary: n)
  case (Cons p ps)
  then show ?case
    by (cases "map_get p (m_next_index n)")
      (auto simp: Let_def conf_simps split: if_splits dest!: Cons.IH)
qed simp

lemma conf_resumed:
  "RegisterClient_resume w n = Inr (r, n') \<Longrightarrow> m_configuration n' = m_configuration n"
  "ClientRequest_resume req w n = Inr (s, n') \<Longrightarrow> m_configuration n' = m_configuration n"
  "follower_commit areq n = Inr n' \<Longrightarrow> m_configuration n' = m_configuration n"
  by (auto simp: RegisterClient_resume_def ClientRequest_resume_def follower_commit_def Let_def conf_simps split: if_splits)

lemma Module_Append_entry_conf: "conf_wf n \<Longrightarrow> Module_Append_entry pb e n = Inr (i, n') \<Longrightarrow> conf_wf n'"
  by (auto simp: conf_wf_def Module_Append_entry_def Let_def conf_simps config_wf_InsertNewConfiguration split: if_splits)

lemma insert_configurations_conf: "conf_wf n \<Longrightarrow> conf_wf (insert_configurations i es n)"
  by (induction i es n rule: insert_configurations.induct)
    (simp_all add: conf_wf_def conf_simps config_wf_InsertNewConfiguration Let_def)

lemma Module_Append_conf: "conf_wf n \<Longrightarrow> Module_Append pb es n = Inr (i, n') \<Longrightarrow> conf_wf n'"
  by (auto simp: Module_Append_def intro!: insert_configurations_conf) (simp add: conf_wf_def)

lemma replicate_entries_conf:
  assumes "conf_wf n" and "replicate_entries pb req n = Inr n'"
  shows "conf_wf n'"
proof -
  obtain i new c n1 where n1: "(if c then rbind (TruncateSuffix i (m_log n)) (\<lambda>l.
      rbind (Config_TruncateSuffix i (m_configuration n)) (\<lambda>conf.
        Inr (n\<lparr>m_log := l, m_configuration := conf\<rparr>))) else Inr n) = Inr n1"
    and n': "(if new \<noteq> [] then rbind (Module_Append pb new n1) (\<lambda>(ix, n2). Inr n2) else Inr n1) = Inr n'"
    using assms(2) unfolding replicate_entries_def rbind_Inr_iff by auto
  have "conf_wf n1" using n1 assms(1) by (auto simp: conf_wf_def config_wf_TruncateSuffix split: if_splits)
  then show ?thesis using n' Module_Append_conf by (auto split: if_splits)
qed

lemma PromoteToLeader_conf:
  assumes "conf_wf n" and "PromoteToLeader pb n = Inr n'"
  shows "conf_wf n'"
proof -
  let ?n1 = "n\<lparr>m_state := LEADER, m_votes_received := 0, m_leader_id := ctx_address n,
    m_election_timer := Timer_Cancel (m_election_timer n)\<rparr>"
  obtain i n2 e where "Module_Append_entry pb e ?n1 = Inr (i, n2)" "n' = ScheduleHeartbeat n2"
    using assms(2) by (auto simp: PromoteToLeader_def Let_def)
  moreover have "conf_wf ?n1" using assms(1) by (simp add: conf_wf_def)
  ultimately show ?thesis using Module_Append_entry_conf [of ?n1] by (simp add: conf_wf_def conf_simps)
qed

lemma UpdateCommitIndex_conf:
  assumes "conf_wf n" and "UpdateCommitIndex pb r n = Inr n'"
  shows "conf_wf n'"
  using assms(2)
proof (cases rule: UpdateCommitIndex_cases)
  case (transition n1 i e)
  have "conf_wf (notify Membership_sync n1)"
    using assms(1) advance_commit_frame(5) [OF transition(1)] by (simp add: conf_wf_def conf_simps)
  then show ?thesis by (rule Module_Append_entry_conf [OF _ transition(2)])
qed (use assms(1) in \<open>auto simp: conf_wf_def conf_simps dest!: advance_commit_frame(5) conf_ResetToFollower\<close>)

lemma ElectionCallback_conf:
  assumes "conf_wf n" and "ElectionCallback pb e t n = Inr n'"
  shows "conf_wf n'"
proof -
  define n1 where "n1 = n\<lparr>m_state := CANDIDATE, m_term := to_int (m_term n + 1), m_vote := ctx_address n,
    m_votes_received := 1\<rparr>"
  have "m_configuration n' = m_configuration n \<or> (\<exists>n2. StoreState pb n1 = Inr n2 \<and>
      (PromoteToLeader pb n2 = Inr n' \<or> m_configuration n' = m_configuration n2))"
    using assms(2) by (auto simp: ElectionCallback_def Let_def n1_def conf_simps split: if_splits)
  moreover have "conf_wf n2" if "StoreState pb n1 = Inr n2" for n2
    using conf_StoreState [OF that] assms(1) by (simp add: conf_wf_def n1_def)
  ultimately show ?thesis using assms(1) PromoteToLeader_conf by (metis conf_wf_def)
qed

lemma HeartbeatCallback_conf:
  assumes "conf_wf n" and "HeartbeatCallback pb e n = Inr n'"
  shows "conf_wf n'"
proof (cases "m_state n = LEADER")
  case True
  define n1 where "n1 = n\<lparr>m_heartbeat_time := clock e 0, m_renew_lease := True,
    m_responding_peers := [ctx_address n]\<rparr>"
  from assms(2) True obtain n2 n3 where n2: "heartbeat_loop (m_term n1) (ServerAddresses (m_configuration n1)) n1 = Inr n2"
    and n3: "n3 = n2 \<or> UpdateCommitIndex pb (draw e 0) n2 = Inr n3" and n': "n' = ScheduleHeartbeat n3"
    by (auto simp: HeartbeatCallback_def Let_def n1_def split: if_splits)
  have "conf_wf n2" using conf_heartbeat_loop [OF n2] assms(1) by (simp add: conf_wf_def n1_def)
  then have "conf_wf n3" using n3 UpdateCommitIndex_conf by blast
  then show ?thesis by (simp add: n' conf_wf_def conf_simps)
qed (use assms in \<open>simp add: HeartbeatCallback_def\<close>)

lemma RequestVote_conf:
  assumes "ProcessRequestVoteClientRequest pb e req n = Inr ((rep, st), n')"
  shows "m_configuration n' = m_configuration n"
  using assms
proof (cases rule: RequestVote_cases)
  case (considered n1 lt)
  have "m_configuration n1 = m_configuration n" using considered(4) conf_ResetToFollower by (auto split: if_splits)
  moreover have "m_configuration n' = m_configuration n1"
    using considered(8) conf_StoreState [of pb "n1\<lparr>m_vote := rv_candidateId req\<rparr>"] by (auto simp: conf_simps)
  ultimately show ?thesis by simp
qed simp

lemma RequestVoteReply_conf:
  assumes "conf_wf n" and "ProcessRequestVoteServerResponse pb e req rep a n = Inr n'"
  shows "conf_wf n'"
  using assms PromoteToLeader_conf [of "n\<lparr>m_votes_received := m_votes_received n + 1\<rparr>" pb n']
  by (auto simp: ProcessRequestVoteServerResponse_def Let_def conf_wf_def dest: conf_ResetToFollower split: if_splits)

text \<open>The steps of an append request to a node that is not shut down.\<close>

lemma AppendEntries_steps:
  assumes "ProcessAppendEntriesClientRequest pb e req n = Inr ((rep, st), n')" and "m_state n \<noteq> DEAD"
  obtains n1 n5 where "(if ae_term req > m_term n then ResetToFollower pb (draw e 0) (to_int (ae_term req)) n
      else Inr n) = Inr n1"
    and "n5 = n1 \<or> (\<exists>n2. (ResetToFollower pb (draw e 1) (to_int (ae_term req)) n1 = Inr n2 \<or>
        (\<exists>d. n2 = (ScheduleElection (draw e 1) (to_int (ae_term req)) n1)\<lparr>m_election_deadline := d\<rparr>)) \<and>
      (n5 = n2 \<or> (\<exists>n3. replicate_entries pb req (n2\<lparr>m_leader_id := ae_leaderId req\<rparr>) = Inr n3 \<and>
        follower_commit req n3 = Inr n5)))"
    and "\<exists>d. n' = (ScheduleElection (draw e 2) (to_int (ae_term req)) n5)\<lparr>m_election_deadline := d\<rparr>"
proof -
  obtain n1 where n1: "(if ae_term req > m_term n then ResetToFollower pb (draw e 0) (to_int (ae_term req)) n
      else Inr n) = Inr n1"
    using assms unfolding ProcessAppendEntriesClientRequest_def by auto
  show ?thesis
  proof (cases "ae_term req = m_term n1")
    case False
    then have "n' = ae_finish e req n1"
      using assms n1 by (simp add: ProcessAppendEntriesClientRequest_def Let_def ae_finish_def)
    then show ?thesis by (intro that [OF n1, of n1]) (auto simp: ae_finish_def)
  next
    case True
    from assms n1 True show ?thesis
    proof (cases rule: AppendEntries_current_steps)
      case (1 n2 b n5)
      then show ?thesis by (intro that [OF n1, of n5]) (auto simp: ae_finish_def)
    qed
  qed
qed

lemma AppendEntries_conf:
  assumes wf: "conf_wf n" and res: "ProcessAppendEntriesClientRequest pb e req n = Inr ((rep, st), n')"
  shows "conf_wf n'"
proof (cases "m_state n = DEAD")
  case False
  from res False show ?thesis
  proof (cases rule: AppendEntries_steps)
    case (1 n1 n5)
    have w1: "conf_wf n1" using 1(1) wf by (auto simp: conf_wf_def dest: conf_ResetToFollower split: if_splits)
    have "conf_wf n5"
    proof (cases "n5 = n1")
      case False
      with 1(2) obtain n2 where n2: "ResetToFollower pb (draw e 1) (to_int (ae_term req)) n1 = Inr n2 \<or>
          (\<exists>d. n2 = (ScheduleElection (draw e 1) (to_int (ae_term req)) n1)\<lparr>m_election_deadline := d\<rparr>)"
        and n5: "n5 = n2 \<or> (\<exists>n3. replicate_entries pb req (n2\<lparr>m_leader_id := ae_leaderId req\<rparr>) = Inr n3 \<and>
          follower_commit req n3 = Inr n5)" by blast
      from n2 have "m_configuration n2 = m_configuration n1" by (auto simp: conf_simps conf_ResetToFollower)
      with n5 show ?thesis
        using replicate_entries_conf [of "n2\<lparr>m_leader_id := ae_leaderId req\<rparr>"] conf_resumed(3) w1
        by (auto simp: conf_wf_def)
    qed (use w1 in simp)
    with 1(3) show ?thesis by (auto simp: conf_wf_def conf_simps)
  qed
qed (use assms in \<open>simp add: ProcessAppendEntriesClientRequest_def\<close>)

lemma AppendReply_conf:
  assumes wf: "conf_wf n" and "ProcessAppendEntriesServerResponse pb e req rep a n = Inr n'"
  shows "conf_wf n'"
proof -
  from assms(2) obtain n1 where n1: "(if aer_term rep > ae_term req
      then ResetToFollower pb (draw e 0) (to_int (aer_term rep)) (n\<lparr>m_leader_id := ''''\<rparr>) else Inr n) = Inr n1"
    unfolding ProcessAppendEntriesServerResponse_def rbind_Inr_iff by blast
  then have w1: "config_wf (m_configuration n1)"
    using wf by (auto simp: conf_wf_def dest!: conf_ResetToFollower split: if_splits)
  obtain nxt m where g: "map_get a (m_next_index n1) = (nxt, m)" by fastforce
  have "m_configuration n' = m_configuration n1 \<or> (\<exists>n5. config_wf (m_configuration n5) \<and>
      UpdateCommitIndex pb (draw e 1) n5 = Inr n')"
    using assms(2) n1 g w1
    by (auto simp: ProcessAppendEntriesServerResponse_def Let_def conf_simps split: if_splits)
      (fastforce simp: conf_simps dest: config_wf_UpdateSyncProgress [OF w1])+
  then show ?thesis using w1 UpdateCommitIndex_conf by (auto simp: conf_wf_def)
qed

lemma client_calls_conf:
  assumes "conf_wf n"
  shows "RegisterClient_begin pb n = Inr (r, n') \<Longrightarrow> conf_wf n'"
    and "ClientRequest_begin pb req n = Inr (s, n') \<Longrightarrow> conf_wf n'"
    and "conf_wf (snd (SetConfiguration_begin sreq n))"
    and "SetConfiguration_sync pb t conf n = Inr (pc, n') \<Longrightarrow> conf_wf n'"
    and "SetConfiguration_wait b t conf n = Inr (pc, n') \<Longrightarrow> conf_wf n'"
    and "InitializeConfiguration pb n = Inr n' \<Longrightarrow> conf_wf n'"
    and "RegisterClient_resume w n = Inr (q, n') \<Longrightarrow> conf_wf n'"
    and "ClientRequest_resume req w n = Inr (u, n') \<Longrightarrow> conf_wf n'"
proof -
  show "RegisterClient_begin pb n = Inr (r, n') \<Longrightarrow> conf_wf n'" "ClientRequest_begin pb req n = Inr (s, n') \<Longrightarrow> conf_wf n'"
    using assms by (auto simp: RegisterClient_begin_def ClientRequest_begin_def Let_def split: if_splits
        dest: Module_Append_entry_conf)
  show "conf_wf (snd (SetConfiguration_begin sreq n))"
    using assms by (simp add: SetConfiguration_begin_def Let_def conf_wf_def conf_simps config_wf_StartLogSync)
  show "SetConfiguration_wait b t conf n = Inr (pc, n') \<Longrightarrow> conf_wf n'"
    using assms by (auto simp: SetConfiguration_wait_def Let_def conf_wf_def config_wf_CancelLogSync split: if_splits)
  show "SetConfiguration_sync pb t conf n = Inr (pc, n') \<Longrightarrow> conf_wf n'"
    using assms by (auto simp: SetConfiguration_sync_def Let_def split: if_splits dest: Module_Append_entry_conf)
      (auto simp: conf_wf_def config_wf_CancelLogSync)
  show "InitializeConfiguration pb n = Inr n' \<Longrightarrow> conf_wf n'"
    using assms by (auto simp: InitializeConfiguration_def Let_def split: if_splits
        dest: PromoteToLeader_conf Module_Append_entry_conf)
  show "RegisterClient_resume w n = Inr (q, n') \<Longrightarrow> conf_wf n'" "ClientRequest_resume req w n = Inr (u, n') \<Longrightarrow> conf_wf n'"
    using assms conf_resumed by (auto simp: conf_wf_def)
qed

lemma conf_StateMachineInit:
  "m_configuration (StateMachineInit n) = (case LatestConfiguration (m_log n) of
     Some (i, conf) \<Rightarrow> SetConfiguration i conf (m_configuration n) | None \<Rightarrow> m_configuration n)"
  by (cases "Metadata (m_log n)") (simp add: StateMachineInit_def Let_def conf_simps split: option.split prod.split)

lemma StateMachineInit_conf: "conf_wf (StateMachineInit (ConsensusModule_new a l now))"
proof -
  have c: "m_configuration (ConsensusModule_new a l now) = ClusterConfiguration_new" by (simp add: ConsensusModule_new_def)
  have "omap_sorted (m_configurations ClusterConfiguration_new)" using config_wf_new by (simp add: config_wf_def)
  then show ?thesis
    unfolding conf_wf_def conf_StateMachineInit c
    by (simp add: config_wf_new config_wf_SetConfiguration split: option.split prod.split)
qed

lemma handle_conf:
  assumes "conf_wf n" and res: "handle pb ev n = Inr n'"
  shows "conf_wf n'"
proof (cases ev)
  case (Timer_fires e cb)
  with res ElectionCallback_conf [OF assms(1)] HeartbeatCallback_conf [OF assms(1)] show ?thesis
    using conf_ResetToFollower [of pb "draw e 0" _ n n'] assms(1)
    by (cases cb) (auto simp: run_callback_def conf_wf_def)
next
  case (Vote_request e req)
  with assms show ?thesis by (auto simp: conf_wf_def dest!: RequestVote_conf)
next
  case (Crash_restart s t)
  with res show ?thesis by (auto simp: restart_node_def StateMachineInit_conf)
next
  case Stop
  with assms show ?thesis by (auto simp: Shutdown_def conf_wf_def)
next
  case (Append_request e req)
  with assms show ?thesis by (auto dest: AppendEntries_conf)
next
  case (Set_configuration req)
  with assms show ?thesis using client_calls_conf(3) by auto
qed (use assms in \<open>auto dest: RequestVoteReply_conf AppendReply_conf client_calls_conf(1,2,4-8)\<close>)

lemma reachable_conf: "node_reachable pb n \<Longrightarrow> conf_wf n"
  by (induction rule: node_reachable.induct) (auto simp: StateMachineInit_conf dest: handle_conf)

end
