(* ===== verification/Cluster_Runs.thy ===== *)
theory Cluster_Runs
  imports Leader_Properties Node_Configuration
begin

section \<open>Runs of a cluster\<close>

text \<open>
  The members of a cluster and the vote requests and replies between them. A step runs a handler
  of one member, or delivers or loses a message; append requests and their replies reach a
  member with arbitrary content. The first part shows which handlers touch the office of a node,
  that is its role, the term it is held in and the votes counted for it.
\<close>

subsection \<open>Handlers and the office of a node\<close>

definition vote_calls :: "ConsensusModule \<Rightarrow> (string \<times> RequestVote_Request) list" where
  "vote_calls n = List.map_filter
     (\<lambda>c. case c of Call_RequestVote p req \<Rightarrow> Some (p, req) | Call_AppendEntries p req \<Rightarrow> None) (m_sent n)"

definition office :: "ConsensusModule \<Rightarrow> string \<times> RaftState \<times> int \<times> int \<times> (string \<times> RequestVote_Request) list" where
  "office n = (ctx_address n, m_state n, m_term n, m_votes_received n, vote_calls n)"

named_theorems office_simps \<open>operations that leave the office of a node alone\<close>

lemma office_unfold:
  "office n' = office n \<longleftrightarrow> ctx_address n' = ctx_address n \<and> m_state n' = m_state n \<and> m_term n' = m_term n \<and>
     m_votes_received n' = m_votes_received n \<and> vote_calls n' = vote_calls n"
  by (simp add: office_def)

lemma office_updates [office_simps]:
  "office (n\<lparr>m_log := l\<rparr>) = office n" "office (n\<lparr>m_configuration := c\<rparr>) = office n"
  "office (n\<lparr>m_state_machine := sm\<rparr>) = office n" "office (n\<lparr>m_next_index := m\<rparr>) = office n"
  "office (n\<lparr>m_match_index := m\<rparr>) = office n" "office (n\<lparr>m_commit_index := i\<rparr>) = office n"
  "office (n\<lparr>m_leader_id := a\<rparr>) = office n" "office (n\<lparr>m_vote := v\<rparr>) = office n"
  "office (n\<lparr>m_election_deadline := t\<rparr>) = office n" "office (n\<lparr>m_heartbeat_time := t\<rparr>) = office n"
  "office (n\<lparr>m_renew_lease := b\<rparr>) = office n" "office (n\<lparr>m_responding_peers := ps\<rparr>) = office n"
  "office (n\<lparr>m_notified := vs\<rparr>) = office n" "office (n\<lparr>m_stubs := ss\<rparr>) = office n"
  "office (n\<lparr>m_lease_timer := tm\<rparr>) = office n" "office (n\<lparr>m_lease_holder := b\<rparr>) = office n"
  "office (n\<lparr>m_election_timer := tm\<rparr>) = office n" "office (n\<lparr>m_heartbeat_timer := tm\<rparr>) = office n"
  "office (n\<lparr>m_election_timeout := t\<rparr>) = office n"
  by (simp_all add: office_def vote_calls_def)

lemma office_operations [office_simps]:
  "office (CreateConnections ps n) = office n" "office (ScheduleElection r t n) = office n"
  "office (ScheduleHeartbeat n) = office n" "office (CommitEntries es n) = office n"
  "office (notify cv n) = office n" "office (renew_lease e a n) = office n"
  "office (increment_applied n) = office n" "office (set_sessions c n) = office n"
  by (simp_all add: CreateConnections_def ScheduleElection_def ScheduleHeartbeat_def CommitEntries_def
      notify_def renew_lease_def increment_applied_def set_sessions_def Let_def office_simps)

lemma office_Client_AppendEntries [office_simps]: "office (Client_AppendEntries p t i j es c n) = office n"
  by (simp add: Client_AppendEntries_def start_call_def office_def vote_calls_def map_filter_def
      split: option.splits bool.splits)

lemma office_insert_configurations [office_simps]: "office (insert_configurations i es n) = office n"
  by (induction i es n rule: insert_configurations.induct) (simp_all add: office_simps Let_def)

lemma office_StoreState: "StoreState pb n = Inr n' \<Longrightarrow> office n' = office n"
  by (auto simp: StoreState_def office_simps)

lemma office_Module_Append_entry: "Module_Append_entry pb e n = Inr (i, n') \<Longrightarrow> office n' = office n"
  by (auto simp: Module_Append_entry_def Let_def office_simps split: if_splits)

lemma office_Module_Append: "Module_Append pb es n = Inr (i, n') \<Longrightarrow> office n' = office n"
  by (auto simp: Module_Append_def office_simps)

lemma office_advance_commit: "advance_commit n = Inr n' \<Longrightarrow> office n' = office n"
  by (erule advance_commitE) (auto simp: office_simps)

lemma office_replicate_entries: "replicate_entries pb req n = Inr n' \<Longrightarrow> office n' = office n"
  by (auto simp: replicate_entries_def office_simps dest!: office_Module_Append split: if_splits)

lemma office_follower_commit: "follower_commit req n = Inr n' \<Longrightarrow> office n' = office n"
  by (auto simp: follower_commit_def Let_def office_simps split: if_splits)

lemma office_heartbeat_loop: "heartbeat_loop t ps n = Inr n' \<Longrightarrow> office n' = office n"
proof (induction ps arbitrary: n)
  case (Cons p ps)
  then show ?case
    by (cases "map_get p (m_next_index n)")
      (auto simp: Let_def office_simps split: if_splits dest!: Cons.IH)
qed simp

lemma office_client_calls:
  "RegisterClient_begin pb n = Inr (r, n') \<Longrightarrow> office n' = office n"
  "RegisterClient_resume w n = Inr (q, n') \<Longrightarrow> office n' = office n"
  "ClientRequest_begin pb req n = Inr (s, n') \<Longrightarrow> office n' = office n"
  "ClientRequest_resume req w n = Inr (u, n') \<Longrightarrow> office n' = office n"
  "office (snd (SetConfiguration_begin sreq n)) = office n"
  "SetConfiguration_sync pb t conf n = Inr (pc, n') \<Longrightarrow> office n' = office n"
  "SetConfiguration_wait b t conf n = Inr (pc, n') \<Longrightarrow> office n' = office n"
  by (auto simp: RegisterClient_begin_def RegisterClient_resume_def ClientRequest_begin_def ClientRequest_resume_def
      SetConfiguration_begin_def SetConfiguration_sync_def SetConfiguration_wait_def Let_def office_simps split: if_splits
      dest: office_Module_Append_entry)

text \<open>
  A node that is leader or candidate after the step was it before, in the same term and with the
  same votes, and has asked for no vote.
\<close>

definition keeps_office :: "ConsensusModule \<Rightarrow> ConsensusModule \<Rightarrow> bool" where
  "keeps_office n n' \<longleftrightarrow> ctx_address n' = ctx_address n \<and> vote_calls n' = vote_calls n \<and>
     (m_state n' = LEADER \<or> m_state n' = CANDIDATE \<longrightarrow>
        m_state n = m_state n' \<and> m_term n' = m_term n \<and> m_votes_received n' = m_votes_received n)"

lemma office_keeps: "office n' = office n \<Longrightarrow> keeps_office n n'"
  by (simp add: office_unfold keeps_office_def)

lemma keeps_office_trans: "keeps_office n n1 \<Longrightarrow> keeps_office n1 n2 \<Longrightarrow> keeps_office n n2"
  by (auto simp: keeps_office_def)

lemma keeps_office_cong: "office n1 = office n \<Longrightarrow> keeps_office n1 n' \<longleftrightarrow> keeps_office n n'"
  by (auto simp: keeps_office_def office_unfold)

lemma ResetToFollower_keeps_office:
  assumes "ResetToFollower pb r t n = Inr n'"
  shows "keeps_office n n'"
  using assms
  by (auto simp: ResetToFollower_def Let_def StoreState_def ScheduleElection_def keeps_office_def vote_calls_def)

lemma ResetToFollower_then:
  "ResetToFollower pb r t n = Inr n1 \<Longrightarrow> office n' = office n1 \<Longrightarrow> keeps_office n n'"
  by (rule keeps_office_trans [OF ResetToFollower_keeps_office office_keeps])

lemma UpdateCommitIndex_keeps_office:
  assumes "UpdateCommitIndex pb r n = Inr n'"
  shows "keeps_office n n'"
  using assms
proof (cases rule: UpdateCommitIndex_cases)
  case (removed n1)
  from ResetToFollower_keeps_office [OF removed(3)] office_advance_commit [OF removed(1)] show ?thesis
    by (simp add: keeps_office_cong [of "notify Membership_sync n1" n] office_simps)
next
  case (transition n1 i e)
  from office_Module_Append_entry [OF transition(2)] office_advance_commit [OF transition(1)] show ?thesis
    by (simp add: office_keeps office_simps)
qed (auto intro!: office_keeps simp: office_simps dest: office_advance_commit)

lemma HeartbeatCallback_keeps_office:
  assumes "HeartbeatCallback pb e n = Inr n'"
  shows "keeps_office n n'"
proof (cases "m_state n = LEADER")
  case True
  define n1 where "n1 = n\<lparr>m_heartbeat_time := clock e 0, m_renew_lease := True,
    m_responding_peers := [ctx_address n]\<rparr>"
  from assms True obtain n2 n3 where n2: "heartbeat_loop (m_term n1) (ServerAddresses (m_configuration n1)) n1 = Inr n2"
    and n3: "n3 = n2 \<or> UpdateCommitIndex pb (draw e 0) n2 = Inr n3" and n': "n' = ScheduleHeartbeat n3"
    by (auto simp: HeartbeatCallback_def Let_def n1_def split: if_splits)
  have "keeps_office n n2" using office_heartbeat_loop [OF n2] by (simp add: office_keeps n1_def office_simps)
  moreover have "keeps_office n2 n3" using n3 UpdateCommitIndex_keeps_office office_keeps by blast
  moreover have "keeps_office n3 n'" by (simp add: n' office_keeps office_simps)
  ultimately show ?thesis by (blast intro: keeps_office_trans)
qed (use assms in \<open>simp add: HeartbeatCallback_def office_keeps\<close>)

lemma RequestVote_keeps_office:
  assumes "ProcessRequestVoteClientRequest pb e req n = Inr ((rep, st), n')"
  shows "keeps_office n n'"
  using assms
proof (cases rule: RequestVote_cases)
  case (considered n1 lt)
  have k: "keeps_office n n1" using considered(4) ResetToFollower_keeps_office office_keeps by (auto split: if_splits)
  have "office n' = office n1"
    using considered(8) office_StoreState [of pb "n1\<lparr>m_vote := rv_candidateId req\<rparr>"] by (auto simp: office_simps)
  then show ?thesis by (rule keeps_office_trans [OF k office_keeps])
qed (simp add: office_keeps)

lemma AppendEntries_keeps_office:
  assumes res: "ProcessAppendEntriesClientRequest pb e req n = Inr ((rep, st), n')"
  shows "keeps_office n n'"
proof (cases "m_state n = DEAD")
  case False
  from res False show ?thesis
  proof (cases rule: AppendEntries_steps)
    case (1 n1 n5)
    have "keeps_office n n1" using 1(1) ResetToFollower_keeps_office office_keeps by (auto split: if_splits)
    moreover have "keeps_office n1 n5"
      using 1(2) by (auto intro: ResetToFollower_then office_keeps ResetToFollower_keeps_office simp: office_simps
          dest!: office_replicate_entries office_follower_commit)
    moreover have "keeps_office n5 n'" using 1(3) by (auto simp: office_keeps office_simps)
    ultimately show ?thesis by (blast intro: keeps_office_trans)
  qed
qed (use assms in \<open>simp add: ProcessAppendEntriesClientRequest_def office_keeps\<close>)

lemma AppendReply_keeps_office:
  assumes "ProcessAppendEntriesServerResponse pb e req rep a n = Inr n'"
  shows "keeps_office n n'"
proof -
  from assms obtain n1 where n1: "(if aer_term rep > ae_term req
      then ResetToFollower pb (draw e 0) (to_int (aer_term rep)) (n\<lparr>m_leader_id := ''''\<rparr>) else Inr n) = Inr n1"
    unfolding ProcessAppendEntriesServerResponse_def rbind_Inr_iff by blast
  have "keeps_office n n1"
    using n1 ResetToFollower_keeps_office [of pb "draw e 0" "to_int (aer_term rep)" "n\<lparr>m_leader_id := ''''\<rparr>" n1]
      keeps_office_cong [of "n\<lparr>m_leader_id := ''''\<rparr>" n n1]
    by (auto simp: office_simps office_keeps split: if_splits)
  moreover have "keeps_office n1 n'"
  proof -
    obtain nxt m where g: "map_get a (m_next_index n1) = (nxt, m)" by fastforce
    have "office n' = office n1 \<or> (\<exists>n5. office n5 = office n1 \<and> UpdateCommitIndex pb (draw e 1) n5 = Inr n')"
      using assms n1 g
      by (auto simp: ProcessAppendEntriesServerResponse_def Let_def office_simps split: if_splits)
    then show ?thesis using UpdateCommitIndex_keeps_office keeps_office_cong office_keeps by blast
  qed
  ultimately show ?thesis by (rule keeps_office_trans)
qed

text \<open>
  The events of a member that are not part of an election: everything but the election callback,
  the messages of an election, the bootstrap of a first node, and a restart.
\<close>

fun elects :: "Event \<Rightarrow> bool" where
  "elects (Timer_fires e (ElectionCallback_at t)) = True"
| "elects (Vote_request e req) = True"
| "elects (Vote_reply e req rep a) = True"
| "elects Initialize_configuration = True"
| "elects (Crash_restart s t) = True"
| "elects _ = False"

lemma handle_keeps_office:
  assumes "\<not> elects ev" and res: "handle pb ev n = Inr n'"
  shows "keeps_office n n'"
proof (cases ev)
  case (Timer_fires e cb)
  with assms show ?thesis
    by (cases cb) (auto simp: run_callback_def ResetToFollower_keeps_office HeartbeatCallback_keeps_office)
next
  case (Append_request e req)
  with res show ?thesis by (auto simp: AppendEntries_keeps_office)
next
  case (Set_configuration req)
  with res show ?thesis by (auto intro!: office_keeps simp: office_client_calls(5))
next
  case Stop
  with res show ?thesis by (auto simp: Shutdown_def keeps_office_def vote_calls_def)
qed (use assms in \<open>auto simp: AppendReply_keeps_office intro!: office_keeps dest: office_client_calls(1-4,6,7)\<close>)

subsection \<open>Elections\<close>

definition vote_request :: "string \<Rightarrow> int \<Rightarrow> int \<Rightarrow> int \<Rightarrow> RequestVote_Request" where
  "vote_request a t i j = \<lparr>rv_term = t, rv_candidateId = a, rv_lastLogIndex = i, rv_lastLogTerm = j\<rparr>"

lemma request_votes_calls:
  "vote_calls (request_votes t i j n) = vote_calls n @ map (\<lambda>p. (p, vote_request (ctx_address n) t i j))
     (filter (\<lambda>p. p \<noteq> ctx_address n \<and> map_of (m_stubs n) p = Some True) (ServerAddresses (m_configuration n)))"
  "m_votes_received (request_votes t i j n) = m_votes_received n"
proof -
  have "vote_calls (fold f ps n) = vote_calls n @ map (\<lambda>p. (p, vote_request (ctx_address n) t i j))
      (filter (\<lambda>p. p \<noteq> ctx_address n \<and> map_of (m_stubs n) p = Some True) ps) \<and>
      m_votes_received (fold f ps n) = m_votes_received n"
    if f: "f = (\<lambda>p n'. if p = ctx_address n' then n' else Client_RequestVote p t i j n')" for f ps
  proof (induction ps arbitrary: n)
    case (Cons p ps)
    consider "p = ctx_address n" | "p \<noteq> ctx_address n" "map_of (m_stubs n) p = Some True"
      | "p \<noteq> ctx_address n" "map_of (m_stubs n) p = Some False" | "p \<noteq> ctx_address n" "map_of (m_stubs n) p = None"
      by (metis (full_types) option.exhaust)
    then show ?case
    proof cases
      case 4
      then have "f p n = n\<lparr>m_stubs := AList.update p False (m_stubs n)\<rparr>" "vote_calls (f p n) = vote_calls n"
        by (simp_all add: f Client_RequestVote_def start_call_def vote_calls_def)
      moreover have "filter (\<lambda>q. q \<noteq> ctx_address n \<and> map_of (AList.update p False (m_stubs n)) q = Some True) ps =
          filter (\<lambda>q. q \<noteq> ctx_address n \<and> map_of (m_stubs n) q = Some True) ps"
        using 4 by (intro filter_cong) (auto simp: update_conv)
      ultimately show ?thesis using Cons.IH [of "f p n"] 4 by simp
    qed (use Cons.IH [of "f p n"] in \<open>simp_all add: f Client_RequestVote_def start_call_def vote_calls_def
        map_filter_def vote_request_def\<close>)
  qed simp
  from this [OF refl] show
    "vote_calls (request_votes t i j n) = vote_calls n @ map (\<lambda>p. (p, vote_request (ctx_address n) t i j))
      (filter (\<lambda>p. p \<noteq> ctx_address n \<and> map_of (m_stubs n) p = Some True) (ServerAddresses (m_configuration n)))"
    "m_votes_received (request_votes t i j n) = m_votes_received n"
    unfolding request_votes_def by blast+
qed

lemma distinct_ServerAddresses: "config_wf c \<Longrightarrow> distinct (ServerAddresses c)"
  by (simp add: ServerAddresses_def config_wf_def split: option.splits)

lemma PromoteToLeader_office:
  assumes "PromoteToLeader pb n = Inr n'"
  shows "ctx_address n' = ctx_address n" and "m_state n' = LEADER" and "m_term n' = m_term n"
    and "vote_calls n' = vote_calls n"
proof -
  define n1 where "n1 = n\<lparr>m_state := LEADER, m_votes_received := 0, m_leader_id := ctx_address n,
    m_election_timer := Timer_Cancel (m_election_timer n)\<rparr>"
  obtain i n2 e where n2: "Module_Append_entry pb e n1 = Inr (i, n2)" "n' = ScheduleHeartbeat n2"
    using assms by (auto simp: PromoteToLeader_def Let_def n1_def)
  from office_Module_Append_entry [OF n2(1)] have "office n' = office n1" by (simp add: n2(2) office_simps)
  then show "ctx_address n' = ctx_address n" "m_state n' = LEADER" "m_term n' = m_term n" "vote_calls n' = vote_calls n"
    by (simp_all add: office_unfold n1_def vote_calls_def)
qed

text \<open>The outcomes of an election callback: nothing, a candidacy, or the leadership of a single server.\<close>

lemma ElectionCallback_office:
  assumes res: "ElectionCallback pb e t n = Inr n'" and lim: "m_term n < 2 ^ 31 - 1" "in_int (m_term n)"
    and wf: "conf_wf n"
  obtains (idle) "office n' = office n"
  | (candidate) ps i j where "ctx_address n' = ctx_address n" and "m_state n' = CANDIDATE"
      and "m_term n' = m_term n + 1" and "m_votes_received n' = 1"
      and "vote_calls n' = vote_calls n @ map (\<lambda>p. (p, vote_request (ctx_address n) (m_term n') i j)) ps"
      and "distinct ps" and "ctx_address n \<notin> set ps"
  | (alone) "ctx_address n' = ctx_address n" and "m_state n' = LEADER" and "m_term n' = m_term n + 1"
      and "vote_calls n' = vote_calls n" and "ServerAddresses (m_configuration n) = [ctx_address n]"
      and "m_state n \<noteq> LEADER"
proof -
  define n1 where "n1 = n\<lparr>m_state := CANDIDATE, m_term := to_int (m_term n + 1), m_vote := ctx_address n,
    m_votes_received := 1\<rparr>"
  have up: "m_term n1 = m_term n + 1" using lim by (simp add: n1_def in_int_def)
  have n1: "ctx_address n1 = ctx_address n" "m_state n1 = CANDIDATE" "m_votes_received n1 = 1"
    "vote_calls n1 = vote_calls n" "m_configuration n1 = m_configuration n"
    by (simp_all add: n1_def vote_calls_def)
  consider (same) "office n' = office n"
    | (promoted) n2 where "StoreState pb n1 = Inr n2" "PromoteToLeader pb n2 = Inr n'"
        "length (ServerAddresses (m_configuration n2)) = 1" "KnownServer (ctx_address n2) (m_configuration n2)"
        "m_state n \<noteq> LEADER"
    | (asked) n2 i j where "StoreState pb n1 = Inr n2" "office n' = office (request_votes (m_term n1) i j n2)"
    using res by (auto simp: ElectionCallback_def Let_def n1_def office_simps split: if_splits)
  then show ?thesis
  proof cases
    case same
    then show ?thesis by (rule idle)
  next
    case (promoted n2)
    have n2: "office n2 = office n1" "m_configuration n2 = m_configuration n1"
      using promoted(1) by (auto simp: office_StoreState) (auto simp: StoreState_def)
    from promoted(3,4) n2 n1 have "ServerAddresses (m_configuration n) = [ctx_address n]"
      by (auto simp: KnownServer_iff office_unfold length_Suc_conv)
    with PromoteToLeader_office [OF promoted(2)] n2(1) n1 up promoted(5) show ?thesis
      by (intro alone) (simp_all add: office_unfold)
  next
    case (asked n2 i j)
    have n2: "office n2 = office n1" "m_configuration n2 = m_configuration n1"
      using asked(1) by (auto simp: office_StoreState) (auto simp: StoreState_def)
    let ?ps = "filter (\<lambda>p. p \<noteq> ctx_address n2 \<and> map_of (m_stubs n2) p = Some True) (ServerAddresses (m_configuration n2))"
    have c: "ctx_address n' = ctx_address n" "m_state n' = CANDIDATE" "m_term n' = m_term n + 1" "m_votes_received n' = 1"
      using asked(2) n2 n1 up core_request_votes [of "m_term n1" i j n2]
      by (simp_all add: office_unfold core_def request_votes_calls)
    moreover have "vote_calls n' = vote_calls n @ map (\<lambda>p. (p, vote_request (ctx_address n) (m_term n') i j)) ?ps"
      using asked(2) n2 n1 c(3) up by (simp add: office_unfold request_votes_calls)
    ultimately show ?thesis by (rule candidate) (use n2 n1 in \<open>simp_all add: distinct_ServerAddresses wf [unfolded conf_wf_def] office_unfold\<close>)
  qed
qed

lemma restart_office:
  assumes "restart_node pb max_size now n = Inr n'"
  shows "ctx_address n' = ctx_address n" and "m_state n' = CANDIDATE" and "m_votes_received n' = 0"
    and "vote_calls n' = []"
proof -
  obtain l where n': "n' = StateMachineInit (ConsensusModule_new (ctx_address n) l now)"
    using assms by (auto simp: restart_node_def)
  have "office (StateMachineInit k) = (ctx_address k, m_state k, m_term (StateMachineInit k), m_votes_received k, vote_calls k)" for k
    by (cases "Metadata (m_log k)")
      (simp add: StateMachineInit_def Let_def CreateConnections_def office_def vote_calls_def split: option.split prod.split)
  from this [of "ConsensusModule_new (ctx_address n) l now"]
  show "ctx_address n' = ctx_address n" "m_state n' = CANDIDATE" "m_votes_received n' = 0" "vote_calls n' = []"
    unfolding n' office_def by (simp_all add: ConsensusModule_new_def vote_calls_def)
qed

text \<open>The outcomes of a reply to a vote request.\<close>

lemma RequestVoteReply_office:
  assumes res: "ProcessRequestVoteServerResponse pb e req rep a n = Inr n'" and votes: "0 \<le> m_votes_received n"
  obtains (kept) "keeps_office n n'"
  | (counted) "m_state n = CANDIDATE" and "rvr_voteGranted rep"
      and "office n' = (ctx_address n, CANDIDATE, m_term n, m_votes_received n + 1, vote_calls n)"
  | (won) "m_state n = CANDIDATE" and "rvr_voteGranted rep" and "m_state n' = LEADER"
      and "ctx_address n' = ctx_address n" and "m_term n' = m_term n" and "vote_calls n' = vote_calls n"
      and "2 * (m_votes_received n + 1) > int (length (ServerAddresses (m_configuration n)))"
proof -
  define n1 where "n1 = n\<lparr>m_votes_received := m_votes_received n + 1\<rparr>"
  have n1: "office n1 = (ctx_address n, m_state n, m_term n, m_votes_received n + 1, vote_calls n)"
    "m_configuration n1 = m_configuration n"
    by (simp_all add: n1_def office_def vote_calls_def)
  have le: "size_t_of_int (m_votes_received n1 * 2) \<le> 2 * (m_votes_received n + 1)"
    using votes zmod_le_nonneg_dividend [of "(m_votes_received n + 1) * 2" "2 ^ 64"]
    by (simp add: size_t_of_int_def n1_def)
  consider "n' = n" | "ResetToFollower pb (draw e 0) (to_int (rvr_term rep)) n = Inr n'"
    | "m_state n = CANDIDATE" "rvr_voteGranted rep" "n' = n1"
    | "m_state n = CANDIDATE" "rvr_voteGranted rep" "PromoteToLeader pb n1 = Inr n'"
      "size_t_of_int (m_votes_received n1 * 2) > int (length (ServerAddresses (m_configuration n1)))"
    using res unfolding ProcessRequestVoteServerResponse_def Let_def n1_def [symmetric]
    by (metis sum.inject(2))
  then show ?thesis
  proof cases
    case 4
    with PromoteToLeader_office [OF 4(3)] n1 le show ?thesis by (intro won) (simp_all add: office_def)
  qed (use n1 kept counted in \<open>auto simp: office_keeps ResetToFollower_keeps_office\<close>)
qed

subsection \<open>The cluster\<close>

text \<open>
  A vote request under way, with its answer once the voter has handled it. \<open>cast\<close>,
  \<open>counted\<close> and \<open>led\<close> are history: the votes cast (voter, term, candidate), the members whose
  votes each member has counted in its present candidacy, and the leaders there were. No step
  reads them.
\<close>

record vote_mail =
  caller :: string
  voter :: string
  ballot :: RequestVote_Request
  answer :: "RequestVote_Response option"

record cluster =
  nodes :: "string \<Rightarrow> ConsensusModule"
  mail :: "vote_mail list"
  cast :: "(string \<times> int \<times> string) list"
  counted :: "string \<Rightarrow> string list"
  led :: "(int \<times> string) list"

datatype cluster_event =
    Member_event string Event
  | Mail_arrives nat env
  | Mail_lost nat

text \<open>
  The members produce every event of a node but those that the network brings and the bootstrap
  of a first node.
\<close>

fun own_event :: "Event \<Rightarrow> bool" where
  "own_event (Vote_request e req) = False"
| "own_event (Vote_reply e req rep a) = False"
| "own_event Initialize_configuration = False"
| "own_event _ = True"

fun count_votes_of :: "string \<Rightarrow> Event \<Rightarrow> ConsensusModule \<Rightarrow> ConsensusModule \<Rightarrow> string list \<Rightarrow> string list" where
  "count_votes_of a (Crash_restart s t) n n' vs = []"
| "count_votes_of a (Timer_fires e (ElectionCallback_at t)) n n' vs = (if m_term n' \<noteq> m_term n then [a] else vs)"
| "count_votes_of a (Vote_reply e req rep b) n n' vs =
     (if m_votes_received n' = m_votes_received n + 1 then vs @ [b] else vs)"
| "count_votes_of a ev n n' vs = vs"

text \<open>Member \<open>a\<close> has handled \<open>ev\<close> and is now in state \<open>n'\<close>.\<close>

definition advance :: "protobuf \<Rightarrow> string \<Rightarrow> Event \<Rightarrow> ConsensusModule \<Rightarrow> cluster \<Rightarrow> cluster" where
  "advance pb a ev n' c =
     (let n = nodes c a in
      c\<lparr>nodes := (nodes c)(a := n'), cast := cast c @ map (Pair a) (votes_of pb ev n),
        counted := (counted c)(a := count_votes_of a ev n n' (counted c a)),
        led := led c @ (if m_state n' = LEADER \<and> m_state n \<noteq> LEADER then [(m_term n', a)] else [])\<rparr>)"

definition drop_mail :: "nat \<Rightarrow> cluster \<Rightarrow> cluster" where
  "drop_mail i c = c\<lparr>mail := take i (mail c) @ drop (Suc i) (mail c)\<rparr>"

text \<open>
  A restart ends the calls of the process; the others keep the calls they have started. A
  reply that is not OK is not processed by the caller.
\<close>

definition send_calls :: "string \<Rightarrow> Event \<Rightarrow> ConsensusModule \<Rightarrow> ConsensusModule \<Rightarrow> vote_mail list \<Rightarrow> vote_mail list" where
  "send_calls a ev n n' ms =
     (case ev of Crash_restart s t \<Rightarrow> filter (\<lambda>m. caller m \<noteq> a) ms
      | _ \<Rightarrow> ms @ map (\<lambda>(p, req). \<lparr>caller = a, voter = p, ballot = req, answer = None\<rparr>)
               (drop (length (vote_calls n)) (vote_calls n')))"

fun cluster_step :: "protobuf \<Rightarrow> string list \<Rightarrow> cluster_event \<Rightarrow> cluster \<Rightarrow> cluster result" where
  "cluster_step pb M (Member_event a ev) c =
     (if a \<in> set M \<and> own_event ev then
        rbind (handle pb ev (nodes c a)) (\<lambda>n'.
          Inr ((advance pb a ev n' c)\<lparr>mail := send_calls a ev (nodes c a) n' (mail c)\<rparr>))
      else Inr c)"
| "cluster_step pb M (Mail_arrives i e) c =
     (if i < length (mail c) then
        let m = mail c ! i in
        case answer m of
          None \<Rightarrow>
            if voter m \<in> set M then
              rbind (ProcessRequestVoteClientRequest pb e (ballot m) (nodes c (voter m))) (\<lambda>((rep, st), n').
                let c1 = advance pb (voter m) (Vote_request e (ballot m)) n' c in
                Inr (if st = Status_OK then c1\<lparr>mail := (mail c)[i := m\<lparr>answer := Some rep\<rparr>]\<rparr> else drop_mail i c1))
            else Inr (drop_mail i c)
        | Some rep \<Rightarrow>
            rbind (ProcessRequestVoteServerResponse pb e (ballot m) rep (voter m) (nodes c (caller m))) (\<lambda>n'.
              Inr (drop_mail i (advance pb (caller m) (Vote_reply e (ballot m) rep (voter m)) n' c)))
      else Inr c)"
| "cluster_step pb M (Mail_lost i) c = Inr (drop_mail i c)"

fun cluster_run :: "protobuf \<Rightarrow> string list \<Rightarrow> cluster_event list \<Rightarrow> cluster \<Rightarrow> cluster result" where
  "cluster_run pb M [] c = Inr c"
| "cluster_run pb M (ev # evs) c = rbind (cluster_step pb M ev c) (cluster_run pb M evs)"

text \<open>
  The runs in which elections are orderly. A step is steady if it takes no member's term back; a
  member that starts an election or receives a reply to one knows exactly the members; and a
  member forgets a vote only in the ordinary way: it is a candidate that has voted for itself,
  or a leader, and the append request of its own term comes from another member that has led
  this term. What is excluded is the append request that finds a voter restarted, as candidate
  but with a vote for another. An answer is fresh if it answers a request of the caller's present
  term, which the code does not check.
\<close>

definition knows_members :: "string list \<Rightarrow> ConsensusModule \<Rightarrow> bool" where
  "knows_members M n \<longleftrightarrow> set (ServerAddresses (m_configuration n)) = set M"

fun from_leader :: "string \<Rightarrow> Event \<Rightarrow> cluster \<Rightarrow> bool" where
  "from_leader a (Append_request e req) c \<longleftrightarrow>
     (ae_term req, ae_leaderId req) \<in> set (led c) \<and> ae_leaderId req \<noteq> a \<and>
     (m_state (nodes c a) = CANDIDATE \<longrightarrow> m_vote (nodes c a) = a)"
| "from_leader a ev c \<longleftrightarrow> False"

fun steady :: "string list \<Rightarrow> cluster_event \<Rightarrow> cluster \<Rightarrow> bool" where
  "steady M (Member_event a ev) c \<longleftrightarrow>
     event_in_int ev \<and> no_regress ev (nodes c a) \<and> (forgets_vote ev (nodes c a) \<longrightarrow> from_leader a ev c) \<and>
     (elects ev \<longrightarrow> knows_members M (nodes c a))"
| "steady M (Mail_arrives i e) c \<longleftrightarrow>
     (i < length (mail c) \<longrightarrow>
        (let m = mail c ! i; n = nodes c (caller m) in
         case answer m of
           Some rep \<Rightarrow> no_regress (Vote_reply e (ballot m) rep (voter m)) n \<and> knows_members M n
         | None \<Rightarrow> True))"
| "steady M (Mail_lost i) c \<longleftrightarrow> True"

fun fresh :: "cluster_event \<Rightarrow> cluster \<Rightarrow> bool" where
  "fresh (Mail_arrives i e) c \<longleftrightarrow>
     (i < length (mail c) \<and> answer (mail c ! i) \<noteq> None \<longrightarrow>
        rv_term (ballot (mail c ! i)) = m_term (nodes c (caller (mail c ! i))))"
| "fresh ev c \<longleftrightarrow> True"

definition orderly :: "string list \<Rightarrow> cluster_event \<Rightarrow> cluster \<Rightarrow> bool" where
  "orderly M ev c \<longleftrightarrow> steady M ev c \<and> fresh ev c"

fun orderly_run :: "protobuf \<Rightarrow> string list \<Rightarrow> cluster_event list \<Rightarrow> cluster \<Rightarrow> bool" where
  "orderly_run pb M [] c \<longleftrightarrow> True"
| "orderly_run pb M (ev # evs) c \<longleftrightarrow>
     orderly M ev c \<and> (case cluster_step pb M ev c of Inr c1 \<Rightarrow> orderly_run pb M evs c1 | Inl x \<Rightarrow> True)"

text \<open>A cluster at rest: reachable members, none of them leader, no votes received, and no message under way.\<close>

definition cluster_start :: "protobuf \<Rightarrow> string list \<Rightarrow> cluster \<Rightarrow> bool" where
  "cluster_start pb M c \<longleftrightarrow>
     distinct M \<and> [] \<notin> set M \<and> mail c = [] \<and> cast c = [] \<and> led c = [] \<and>
     (\<forall>a \<in> set M. node_reachable pb (nodes c a) \<and> ctx_address (nodes c a) = a \<and> counted c a = [] \<and>
        m_state (nodes c a) \<noteq> LEADER \<and> m_votes_received (nodes c a) = 0)"

end
