(* ===== verification/Cluster_Elections.thy ===== *)
theory Cluster_Elections
  imports Cluster_Runs
begin

section \<open>Elections in a cluster\<close>

text \<open>
  The invariant of orderly runs of a cluster: every vote that a candidate counts was cast for it
  in its term by a member it has not counted before, so that whoever becomes leader is backed by
  a majority of the votes cast in its term.
\<close>

subsection \<open>The invariant of elections\<close>

definition members_ok :: "protobuf \<Rightarrow> string list \<Rightarrow> cluster \<Rightarrow> bool" where
  "members_ok pb M c \<longleftrightarrow>
     (\<forall>a \<in> set M. persisted pb (nodes c a) \<and> conf_wf (nodes c a) \<and> ctx_address (nodes c a) = a)"

text \<open>
  A vote stands if it is the only one of the voter in its term and has not been forgotten. Until a
  term has a leader all votes of the term stand; then those that elected the leader do, while
  the losing candidates of the term may forget theirs. The leaders \<open>L\<close> are a parameter, since
  a step first casts votes and then may make a leader.
\<close>

definition stands :: "cluster \<Rightarrow> string \<Rightarrow> int \<Rightarrow> string \<Rightarrow> bool" where
  "stands c v t x \<longleftrightarrow> (v, t, x) \<in> set (cast c) \<and> (\<forall>y. (v, t, y) \<in> set (cast c) \<longrightarrow> y = x) \<and>
     (t = m_term (nodes c v) \<longrightarrow> m_vote (nodes c v) = x)"

definition majority_of :: "string list \<Rightarrow> string list \<Rightarrow> bool" where
  "majority_of M V \<longleftrightarrow> distinct V \<and> set V \<subseteq> set M \<and> 2 * length V > length M"

definition votes_ok :: "string list \<Rightarrow> (int \<times> string) list \<Rightarrow> cluster \<Rightarrow> bool" where
  "votes_ok M L c \<longleftrightarrow>
     (\<forall>v t x. (v, t, x) \<in> set (cast c) \<longrightarrow> v \<in> set M \<and> t \<le> m_term (nodes c v) \<and> x \<noteq> '''' \<and>
        ((\<forall>y. (t, y) \<notin> set L) \<longrightarrow> stands c v t x)) \<and>
     (\<forall>(t, x) \<in> set L. \<exists>V. majority_of M V \<and> (\<forall>v \<in> set V. stands c v t x))"

definition letter_ok :: "string list \<Rightarrow> cluster \<Rightarrow> vote_mail \<Rightarrow> bool" where
  "letter_ok M c m \<longleftrightarrow> caller m \<in> set M \<and> rv_candidateId (ballot m) = caller m \<and> in_int (rv_term (ballot m)) \<and>
     rv_term (ballot m) \<le> m_term (nodes c (caller m)) \<and>
     (\<forall>rep. answer m = Some rep \<longrightarrow> voter m \<in> set M \<and> in_int (rvr_term rep) \<and>
        (rvr_voteGranted rep \<longrightarrow> (voter m, rv_term (ballot m), caller m) \<in> set (cast c)))"

definition mail_ok :: "string list \<Rightarrow> cluster \<Rightarrow> bool" where
  "mail_ok M c \<longleftrightarrow> (\<forall>m \<in> set (mail c). letter_ok M c m)"

text \<open>The voters from which a member expects an answer in a term.\<close>

definition awaited :: "vote_mail list \<Rightarrow> string \<Rightarrow> int \<Rightarrow> string list" where
  "awaited ms a t = map voter (filter (\<lambda>m. caller m = a \<and> rv_term (ballot m) = t) ms)"

definition count_ok :: "string list \<Rightarrow> cluster \<Rightarrow> bool" where
  "count_ok M c \<longleftrightarrow>
     (\<forall>a \<in> set M. m_state (nodes c a) = CANDIDATE \<longrightarrow>
        m_votes_received (nodes c a) = int (length (counted c a)) \<and> set (counted c a) \<subseteq> set M \<and>
        distinct (counted c a @ awaited (mail c) a (m_term (nodes c a))) \<and>
        (\<forall>v \<in> set (counted c a). (v, m_term (nodes c a), a) \<in> set (cast c)))"

definition backed :: "string list \<Rightarrow> cluster \<Rightarrow> int \<Rightarrow> string \<Rightarrow> bool" where
  "backed M c t a \<longleftrightarrow> (\<exists>V. majority_of M V \<and> (\<forall>v \<in> set V. (v, t, a) \<in> set (cast c)))"

definition led_ok :: "string list \<Rightarrow> cluster \<Rightarrow> bool" where
  "led_ok M c \<longleftrightarrow> (\<forall>(t, a) \<in> set (led c). backed M c t a) \<and>
     (\<forall>a \<in> set M. m_state (nodes c a) = LEADER \<longrightarrow> (m_term (nodes c a), a) \<in> set (led c))"

definition election_inv :: "protobuf \<Rightarrow> string list \<Rightarrow> cluster \<Rightarrow> bool" where
  "election_inv pb M c \<longleftrightarrow> members_ok pb M c \<and> votes_ok M (led c) c \<and> mail_ok M c \<and> count_ok M c \<and> led_ok M c"

lemmas election_inv_defs = election_inv_def members_ok_def votes_ok_def mail_ok_def count_ok_def led_ok_def

lemma advance_fields [simp]:
  "nodes (advance pb a ev n' c) = (nodes c)(a := n')" "mail (advance pb a ev n' c) = mail c"
  "cast (advance pb a ev n' c) = cast c @ map (Pair a) (votes_of pb ev (nodes c a))"
  "counted (advance pb a ev n' c) = (counted c)(a := count_votes_of a ev (nodes c a) n' (counted c a))"
  "led (advance pb a ev n' c) = led c @
     (if m_state n' = LEADER \<and> m_state (nodes c a) \<noteq> LEADER then [(m_term n', a)] else [])"
  by (simp_all add: advance_def Let_def)

lemma drop_mail_fields [simp]:
  "nodes (drop_mail i c) = nodes c" "cast (drop_mail i c) = cast c" "counted (drop_mail i c) = counted c"
  "led (drop_mail i c) = led c" "mail (drop_mail i c) = take i (mail c) @ drop (Suc i) (mail c)"
  by (simp_all add: drop_mail_def)

lemma backed_mono: "backed M c t a \<Longrightarrow> set (cast c) \<subseteq> set (cast c') \<Longrightarrow> backed M c' t a"
  unfolding backed_def by blast

text \<open>The test of an election is a quorum system: more than half of the members.\<close>

interpretation election: quorum_system "\<lambda>M V. 2 * length V > length M" set "\<lambda>M. True"
  by unfold_locales (rule majorities_meet)

lemma majorities_share:
  assumes "majority_of M V" and "majority_of M W"
  obtains v where "v \<in> set V" and "v \<in> set W"
  using assms election.quorums_meet [OF TrueI, of M V W] unfolding majority_of_def by blast

text \<open>Whoever is backed by a majority in a term that has a leader is this leader.\<close>

lemma backed_leader:
  assumes ok: "votes_ok M L c" and "(t, x) \<in> set L" and "backed M c t a"
  shows "a = x"
proof -
  obtain V where V: "majority_of M V" "\<forall>v \<in> set V. stands c v t x" using ok assms(2) by (auto simp: votes_ok_def)
  obtain W where W: "majority_of M W" "\<forall>v \<in> set W. (v, t, a) \<in> set (cast c)" using assms(3) by (auto simp: backed_def)
  obtain v where "v \<in> set V" "v \<in> set W" by (rule majorities_share [OF V(1) W(1)])
  with V(2) W(2) show ?thesis by (auto simp: stands_def)
qed

lemma led_backed:
  assumes "votes_ok M L c" and "(t, x) \<in> set L"
  shows "backed M c t x"
  using assms by (fastforce simp: votes_ok_def backed_def stands_def)

lemmas led_unique = backed_leader [OF _ _ led_backed]

text \<open>New leaders, backed by majorities.\<close>

lemma votes_ok_led:
  assumes ok: "votes_ok M L c" and sub: "set L \<subseteq> set L'" and new: "\<forall>(t, x) \<in> set L'. backed M c t x"
  shows "votes_ok M L' c"
proof -
  have "\<exists>V. majority_of M V \<and> (\<forall>v \<in> set V. stands c v t x)" if "(t, x) \<in> set L'" for t x
  proof (cases "\<exists>y. (t, y) \<in> set L")
    case True
    then obtain y where y: "(t, y) \<in> set L" by blast
    with backed_leader [OF ok y] new that have "x = y" by blast
    with ok y show ?thesis by (auto simp: votes_ok_def)
  next
    case False
    from new that obtain V where V: "majority_of M V" "\<forall>v \<in> set V. (v, t, x) \<in> set (cast c)" by (auto simp: backed_def)
    with ok False have "\<forall>v \<in> set V. stands c v t x" by (auto simp: votes_ok_def)
    with V(1) show ?thesis by blast
  qed
  then show ?thesis using ok sub unfolding votes_ok_def by blast
qed

lemma election_inv_start:
  assumes "codec_ok default_metadata (metadata_codec pb)" and "cluster_start pb M c"
  shows "election_inv pb M c"
  using assms reachable_persisted [OF assms(1)] reachable_conf
  by (auto simp: election_inv_defs cluster_start_def awaited_def)

lemma count_okD:
  assumes "count_ok M c" and "x \<in> set M" and "m_state (nodes c x) = CANDIDATE"
  shows "m_votes_received (nodes c x) = int (length (counted c x))" and "set (counted c x) \<subseteq> set M"
    and "distinct (counted c x @ awaited (mail c) x (m_term (nodes c x)))"
    and "\<forall>v \<in> set (counted c x). (v, m_term (nodes c x), x) \<in> set (cast c)"
  using assms unfolding count_ok_def by blast+

text \<open>What every handled event keeps: the members' own invariants, and one vote per term.\<close>

lemma vote_stable_le: "vote_stable n n' \<Longrightarrow> m_term n \<le> m_term n'"
  by (auto simp: vote_stable_def)

text \<open>
  A member that forgets its vote is a candidate that voted for itself, or a leader; the leader of
  its term is another member, so that the forgotten vote is not one that elected it.
\<close>

lemma forgets_by_leader:
  assumes ok: "votes_ok M (led c) c" "led_ok M c" and a: "a \<in> set M"
    and f: "forgets_vote ev (nodes c a)" and from_leader: "from_leader a ev c"
  shows "\<exists>y. (m_term (nodes c a), y) \<in> set (led c)"
    and "\<not> stands c a (m_term (nodes c a)) x \<or> (m_term (nodes c a), x) \<notin> set (led c)"
proof -
  let ?t = "m_term (nodes c a)"
  obtain e req where ev: "ev = Append_request e req" using f by (cases "(ev, nodes c a)" rule: forgets_vote.cases) auto
  let ?l = "ae_leaderId req"
  have l: "(?t, ?l) \<in> set (led c)" "?l \<noteq> a" "m_state (nodes c a) = CANDIDATE \<longrightarrow> m_vote (nodes c a) = a"
    "m_state (nodes c a) = CANDIDATE \<or> m_state (nodes c a) = LEADER"
    using f from_leader by (auto simp: ev)
  then show "\<exists>y. (?t, y) \<in> set (led c)" by blast
  show "\<not> stands c a ?t x \<or> (?t, x) \<notin> set (led c)"
  proof (rule ccontr)
    assume "\<not> (\<not> stands c a ?t x \<or> (?t, x) \<notin> set (led c))"
    then have x: "(?t, x) \<in> set (led c)" "m_vote (nodes c a) = x" by (auto simp: stands_def)
    have "x = ?l" by (rule led_unique [OF ok(1) l(1) ok(1) x(1)])
    moreover have "m_state (nodes c a) = LEADER \<Longrightarrow> a = ?l"
      by (rule led_unique [OF ok(1) l(1) ok(1)]) (use ok(2) a in \<open>auto simp: led_ok_def\<close>)
    ultimately show False using l x(2) by auto
  qed
qed

lemma stands_step:
  assumes nodes: "nodes c' = (nodes c)(a := n')" and cast: "cast c' = cast c @ map (Pair a) vs"
    and new: "\<And>t x. (t, x) \<in> set vs \<Longrightarrow> t = m_term n' \<and> m_vote n' = x" and le: "m_term (nodes c a) \<le> m_term n'"
    and old: "\<And>v t x. (v, t, x) \<in> set (cast c) \<Longrightarrow> t \<le> m_term (nodes c v)"
    and keep: "v = a \<Longrightarrow> t = m_term (nodes c a) \<Longrightarrow> m_term n' = t \<Longrightarrow> m_vote n' = m_vote (nodes c a)"
    and st: "stands c v t x"
  shows "stands c' v t x"
proof (cases "v = a")
  case True
  have t: "t \<le> m_term (nodes c a)" using old [of a t x] st True by (simp add: stands_def)
  have vote: "m_vote n' = x" if "t = m_term n'"
    using that t le keep True st by (simp add: stands_def)
  have "y = x" if "(t, y) \<in> set vs" for y using new [OF that] vote by simp
  with True st vote show ?thesis by (auto simp: stands_def cast nodes)
qed (use st in \<open>auto simp: stands_def cast nodes\<close>)

lemma step_stands:
  assumes inv: "persisted pb (nodes c a)" "votes_ok M L c" and ok: "no_regress ev (nodes c a)"
    and res: "handle pb ev (nodes c a) = Inr n'" and nodes: "nodes c' = (nodes c)(a := n')"
    and cast: "cast c' = cast c @ map (Pair a) (votes_of pb ev (nodes c a))"
    and f: "v = a \<and> t = m_term (nodes c a) \<Longrightarrow> \<not> forgets_vote ev (nodes c a)" and s: "stands c v t x"
  shows "stands c' v t x"
proof (rule stands_step [OF nodes cast _ _ _ _ s])
  let ?n = "nodes c a"
  have st: "vote_stable ?n n'" if "\<not> forgets_vote ev ?n" by (rule handle_stable [OF inv(1) ok that res])
  show "m_term ?n \<le> m_term n'"
    using st handle_forgets(1) [OF inv(1) _ res] vote_stable_le by (cases "forgets_vote ev ?n") auto
  have old: "t \<le> m_term (nodes c v) \<and> x \<noteq> ''''" if "(v, t, x) \<in> set (cast c)" for v t x
    using inv(2) that by (auto simp: votes_ok_def)
  then show "t \<le> m_term (nodes c v)" if "(v, t, x) \<in> set (cast c)" for v t x using that by blast
  show "u = m_term n' \<and> m_vote n' = y" if "(u, y) \<in> set (votes_of pb ev ?n)" for u y
    using votes_of_cast [OF inv(1) ok res that] by blast
  show "m_vote n' = m_vote ?n" if "v = a" "t = m_term ?n" "m_term n' = t"
    using st [OF f] that s old [of v t x] by (auto simp: vote_stable_def stands_def)
qed

text \<open>In a term without a leader no vote is forgotten, so all votes of the term still stand.\<close>

lemma open_term_stands:
  assumes inv: "persisted pb (nodes c a)" "votes_ok M (led c) c" and ok: "no_regress ev (nodes c a)"
    and res: "handle pb ev (nodes c a) = Inr n'" and nodes: "nodes c' = (nodes c)(a := n')"
    and cast: "cast c' = cast c @ map (Pair a) (votes_of pb ev (nodes c a))"
    and f: "forgets_vote ev (nodes c a) \<Longrightarrow> \<exists>y. (m_term (nodes c a), y) \<in> set (led c)"
    and v: "(v, t, x) \<in> set (cast c')" and free: "\<forall>y. (t, y) \<notin> set (led c)"
  shows "stands c' v t x"
proof -
  have kept: "stands c' v t y" if "(v, t, y) \<in> set (cast c)" for y
    by (rule step_stands [OF inv ok res nodes cast]) (use that inv(2) free f in \<open>auto simp: votes_ok_def\<close>)
  show ?thesis
  proof (cases "(v, t, x) \<in> set (cast c)")
    case False
    with v have a: "v = a" "(t, x) \<in> set (votes_of pb ev (nodes c a))" by (auto simp: cast)
    have new: "u = m_term n' \<and> m_vote n' = y" if "(u, y) \<in> set (votes_of pb ev (nodes c a))" for u y
      using votes_of_cast [OF inv(1) ok res that] by blast
    have "y = x" if "(a, t, y) \<in> set (cast c')" for y
    proof (cases "(a, t, y) \<in> set (cast c)")
      case True
      with kept [of y] a v show ?thesis by (auto simp: stands_def)
    next
      case False
      with that have "(t, y) \<in> set (votes_of pb ev (nodes c a))" by (auto simp: cast)
      with new [OF this] new [OF a(2)] show ?thesis by simp
    qed
    moreover have "m_vote (nodes c' a) = x" using new [OF a(2)] by (simp add: nodes)
    ultimately show ?thesis using v unfolding stands_def a(1) by blast
  qed (rule kept)
qed

lemma member_step:
  assumes codec: "codec_ok default_metadata (metadata_codec pb)"
    and inv: "election_inv pb M c" and a: "a \<in> set M"
    and ev: "event_in_int ev" "no_regress ev (nodes c a)" "forgets_vote ev (nodes c a) \<longrightarrow> from_leader a ev c"
    and res: "handle pb ev (nodes c a) = Inr n'"
    and ctx: "ctx_address n' = a" and nodes: "nodes c' = (nodes c)(a := n')"
    and cast: "cast c' = cast c @ map (Pair a) (votes_of pb ev (nodes c a))"
  shows "members_ok pb M c'" and "votes_ok M (led c) c'" and "m_term (nodes c a) \<le> m_term n'"
proof -
  let ?n = "nodes c a"
  have ok: "members_ok pb M c" "votes_ok M (led c) c" "led_ok M c" using inv by (simp_all add: election_inv_def)
  have p: "persisted pb ?n" "conf_wf ?n" using ok(1) a by (simp_all add: members_ok_def)
  show "members_ok pb M c'"
    using ok(1) handle_persisted [OF codec p(1) ev(1) res] handle_conf [OF p(2) res] ctx
    by (simp add: members_ok_def nodes)
  show le: "m_term ?n \<le> m_term n'"
    using handle_stable [OF p(1) ev(2) _ res] handle_forgets(1) [OF p(1) _ res] vote_stable_le
    by (cases "forgets_vote ev ?n") auto
  note F = forgets_by_leader [OF ok(2,3) a]
  note step = p(1) ok(2) ev(2) res nodes cast
  have "v \<in> set M \<and> t \<le> m_term (nodes c' v) \<and> x \<noteq> ''''" if "(v, t, x) \<in> set (cast c')" for v t x
  proof (cases "(v, t, x) \<in> set (cast c)")
    case True
    then have "v \<in> set M \<and> t \<le> m_term (nodes c v) \<and> x \<noteq> ''''" using ok(2) by (auto simp: votes_ok_def)
    then show ?thesis using le by (auto simp: nodes)
  next
    case False
    with that have v: "v = a" "(t, x) \<in> set (votes_of pb ev ?n)" by (auto simp: cast)
    with votes_of_cast [OF p(1) ev(2) res v(2)] a show ?thesis by (simp add: nodes)
  qed
  moreover have "stands c' v t x" if "(v, t, x) \<in> set (cast c')" "\<forall>y. (t, y) \<notin> set (led c)" for v t x
    by (rule open_term_stands [OF step _ that]) (use F(1) ev(3) in blast)
  moreover have "\<exists>V. majority_of M V \<and> (\<forall>v \<in> set V. stands c' v t x)" if led: "(t, x) \<in> set (led c)" for t x
  proof -
    obtain V where V: "majority_of M V" "\<forall>v \<in> set V. stands c v t x" using ok(2) led by (auto simp: votes_ok_def)
    have "stands c' v t x" if "v \<in> set V" for v
      by (rule step_stands [OF step]) (use V(2) that led F(2) ev(3) in blast)+
    with V(1) show ?thesis by blast
  qed
  ultimately show "votes_ok M (led c) c'" unfolding votes_ok_def by blast
qed

lemma election_invI:
  assumes "members_ok pb M c'" and "votes_ok M L c'" and "mail_ok M c' \<and> count_ok M c' \<and> led_ok M c'"
    and "set L \<subseteq> set (led c')"
  shows "election_inv pb M c'"
  using assms votes_ok_led [of M L c' "led c'"] by (auto simp: election_inv_def led_ok_def)

text \<open>A step that keeps the office of the member and sends no request.\<close>

lemma kept_office_step:
  assumes inv: "election_inv pb M c" and a: "a \<in> set M" and keep: "keeps_office (nodes c a) n'"
    and nodes: "nodes c' = (nodes c)(a := n')" and cast: "set (cast c) \<subseteq> set (cast c')" and led: "led c' = led c"
    and count: "\<And>x. x \<noteq> a \<or> m_state n' = CANDIDATE \<Longrightarrow> counted c' x = counted c x"
    and mail: "\<And>vs x t. distinct (vs @ awaited (mail c) x t) \<Longrightarrow> distinct (vs @ awaited (mail c') x t)"
  shows "count_ok M c'" and "led_ok M c'"
proof -
  have same: "m_state (nodes c x) = m_state (nodes c' x) \<and> m_term (nodes c x) = m_term (nodes c' x) \<and>
      m_votes_received (nodes c x) = m_votes_received (nodes c' x)"
    if "m_state (nodes c' x) = CANDIDATE \<or> m_state (nodes c' x) = LEADER" for x
    using that keep by (auto simp: keeps_office_def nodes)
  have "m_votes_received (nodes c' x) = int (length (counted c' x)) \<and> set (counted c' x) \<subseteq> set M \<and>
      distinct (counted c' x @ awaited (mail c') x (m_term (nodes c' x))) \<and>
      (\<forall>v \<in> set (counted c' x). (v, m_term (nodes c' x), x) \<in> set (cast c'))"
    if x: "x \<in> set M" "m_state (nodes c' x) = CANDIDATE" for x
  proof -
    have e: "counted c' x = counted c x" by (rule count) (use x(2) nodes in auto)
    have k: "m_votes_received (nodes c x) = int (length (counted c x))" "set (counted c x) \<subseteq> set M"
      "distinct (counted c x @ awaited (mail c) x (m_term (nodes c x)))"
      "\<forall>v \<in> set (counted c x). (v, m_term (nodes c x), x) \<in> set (cast c)"
      using count_okD [of M c x] inv x same [of x] unfolding election_inv_def by simp_all
    with same [of x] x(2) mail [OF k(3)] cast show ?thesis unfolding e by auto
  qed
  then show "count_ok M c'" unfolding count_ok_def by blast
  have "(m_term (nodes c' x), x) \<in> set (led c')" if "x \<in> set M" "m_state (nodes c' x) = LEADER" for x
    using inv that same [of x] led by (auto simp: election_inv_def led_ok_def)
  with inv show "led_ok M c'"
    using backed_mono [OF _ cast] by (auto simp: election_inv_def led_ok_def led)
qed

lemma awaited_append: "awaited (ms @ ms') a t = awaited ms a t @ awaited ms' a t"
  by (simp add: awaited_def)

lemma awaited_drop:
  assumes "distinct (vs @ awaited ms a t)"
  shows "distinct (vs @ awaited (take i ms @ drop (Suc i) ms) a t)"
proof (cases "i < length ms")
  case True
  have "awaited ms a t = awaited (take i ms) a t @ awaited [ms ! i] a t @ awaited (drop (Suc i) ms) a t"
    by (subst id_take_nth_drop [OF True]) (simp add: awaited_def)
  with assms show ?thesis by (auto simp: awaited_append)
qed (use assms in simp)

lemma awaited_update:
  assumes "i < length ms" and "caller m = caller (ms ! i)" and "voter m = voter (ms ! i)" and "ballot m = ballot (ms ! i)"
  shows "awaited (ms[i := m]) a t = awaited ms a t"
  by (subst (2) id_take_nth_drop [OF assms(1)], subst upd_conv_take_nth_drop [OF assms(1)])
    (simp add: awaited_def assms(2-4))

lemma awaited_none: "(\<And>m. m \<in> set ms \<Longrightarrow> caller m = a \<Longrightarrow> rv_term (ballot m) \<noteq> t) \<Longrightarrow> awaited ms a t = []"
  by (auto simp: awaited_def filter_empty_conv)

lemma letter_ok_mono:
  assumes "letter_ok M c m" and "set (cast c) \<subseteq> set (cast c')"
    and "\<And>x. x \<in> set M \<Longrightarrow> m_term (nodes c x) \<le> m_term (nodes c' x)"
  shows "letter_ok M c' m"
  using assms unfolding letter_ok_def by (meson order_trans subset_eq)

lemma mail_ok_mono:
  assumes "mail_ok M c" and "set (mail c') \<subseteq> set (mail c)" and "set (cast c) \<subseteq> set (cast c')"
    and "\<And>x. x \<in> set M \<Longrightarrow> m_term (nodes c x) \<le> m_term (nodes c' x)"
  shows "mail_ok M c'"
  using assms letter_ok_mono [of M c _ c'] unfolding mail_ok_def by blast

text \<open>An event that is not part of an election.\<close>

lemma plain_event_inv:
  assumes codec: "codec_ok default_metadata (metadata_codec pb)" and inv: "election_inv pb M c" and a: "a \<in> set M"
    and ev: "event_in_int ev" "no_regress ev (nodes c a)" "forgets_vote ev (nodes c a) \<longrightarrow> from_leader a ev c" "\<not> elects ev" and res: "handle pb ev (nodes c a) = Inr n'"
    and c': "c' = (advance pb a ev n' c)\<lparr>mail := send_calls a ev (nodes c a) n' (mail c)\<rparr>"
  shows "election_inv pb M c'"
proof -
  have keep: "keeps_office (nodes c a) n'" by (rule handle_keeps_office [OF ev(4) res])
  have ctx: "ctx_address n' = a" using keep inv a by (simp add: keeps_office_def election_inv_def members_ok_def)
  have mail: "mail c' = mail c" using keep ev(4) by (cases ev) (simp_all add: c' send_calls_def keeps_office_def)
  have count: "counted c' = counted c"
    using ev(4) by (cases "(a, ev, nodes c a, n', counted c a)" rule: count_votes_of.cases) (auto simp: c')
  have led: "led c' = led c" using keep by (auto simp: c' keeps_office_def)
  have "mail_ok M c" using inv by (simp add: election_inv_def)
  note S = member_step [OF codec inv a ev(1-3) res ctx, of c']
  have "mail_ok M c'" by (rule mail_ok_mono [OF \<open>mail_ok M c\<close>]) (use mail S(3) in \<open>auto simp: c'\<close>)
  moreover have "count_ok M c'" "led_ok M c'"
    by (rule kept_office_step [OF inv a keep]; use mail count led in \<open>simp add: c'\<close>)+
  ultimately show ?thesis using S led by (intro election_invI [of pb M c' "led c"]) (simp_all add: c')
qed

text \<open>A member other than the one that moved: nothing it counts or expects has changed.\<close>

lemma others_kept:
  assumes inv: "count_ok M c" "led_ok M c" and nodes: "nodes c' = (nodes c)(a := n')"
    and cast: "set (cast c) \<subseteq> set (cast c')" and led: "set (led c) \<subseteq> set (led c')"
    and count: "\<And>x. x \<noteq> a \<Longrightarrow> counted c' x = counted c x"
    and mail: "\<And>x t. x \<noteq> a \<Longrightarrow> awaited (mail c') x t = awaited (mail c) x t"
    and own_count: "m_state n' = CANDIDATE \<Longrightarrow> m_votes_received n' = int (length (counted c' a)) \<and>
      set (counted c' a) \<subseteq> set M \<and> distinct (counted c' a @ awaited (mail c') a (m_term n')) \<and>
      (\<forall>v \<in> set (counted c' a). (v, m_term n', a) \<in> set (cast c'))"
    and own_led: "m_state n' = LEADER \<Longrightarrow> (m_term n', a) \<in> set (led c')"
    and new_led: "\<And>t x. (t, x) \<in> set (led c') \<Longrightarrow> (t, x) \<in> set (led c) \<or> backed M c' t x"
  shows "count_ok M c'" and "led_ok M c'"
proof -
  have "m_votes_received (nodes c' x) = int (length (counted c' x)) \<and> set (counted c' x) \<subseteq> set M \<and>
      distinct (counted c' x @ awaited (mail c') x (m_term (nodes c' x))) \<and>
      (\<forall>v \<in> set (counted c' x). (v, m_term (nodes c' x), x) \<in> set (cast c'))"
    if x: "x \<in> set M" "m_state (nodes c' x) = CANDIDATE" for x
  proof (cases "x = a")
    case False
    then have n: "nodes c' x = nodes c x" by (simp add: nodes)
    with x have "m_state (nodes c x) = CANDIDATE" by simp
    from count_okD [OF inv(1) x(1) this] cast show ?thesis unfolding n count [OF False] mail [OF False] by blast
  qed (use own_count x nodes in simp)
  then show "count_ok M c'" unfolding count_ok_def by blast
  have "(m_term (nodes c' x), x) \<in> set (led c')" if "x \<in> set M" "m_state (nodes c' x) = LEADER" for x
    using that inv(2) led own_led by (cases "x = a") (auto simp: nodes led_ok_def)
  moreover have "backed M c' t x" if "(t, x) \<in> set (led c')" for t x
    using new_led [OF that] inv(2) backed_mono [OF _ cast] by (auto simp: led_ok_def)
  ultimately show "led_ok M c'" unfolding led_ok_def by blast
qed

text \<open>
  The election callback. A new candidacy: the new term is greater than that of every request the
  member has sent before, so it expects answers from the voters it asks now and from no other.
\<close>

lemma candidacy_step:
  assumes inv: "election_inv pb M c" and a: "a \<in> set M" and S: "members_ok pb M c'" "m_term (nodes c a) < m_term n'"
    and cand: "m_state n' = CANDIDATE" "m_votes_received n' = 1" and ps: "distinct ps" "a \<notin> set ps"
    and f: "nodes c' = (nodes c)(a := n')" "cast c' = cast c @ [(a, m_term n', a)]"
      "counted c' = (counted c)(a := [a])" "led c' = led c"
      "mail c' = mail c @ map (\<lambda>p. \<lparr>caller = a, voter = p, ballot = vote_request a (m_term n') i j, answer = None\<rparr>) ps"
  shows "mail_ok M c' \<and> count_ok M c' \<and> led_ok M c'"
proof -
  let ?new = "map (\<lambda>p. \<lparr>caller = a, voter = p, ballot = vote_request a (m_term n') i j, answer = None\<rparr>) ps"
  have inv': "mail_ok M c" "count_ok M c" "led_ok M c" using inv by (simp_all add: election_inv_def)
  have old: "rv_term (ballot m) \<le> m_term (nodes c a)" if "m \<in> set (mail c)" "caller m = a" for m
    using inv'(1) that by (auto simp: mail_ok_def letter_ok_def)
  have new: "awaited ?new x u = (if x = a \<and> u = m_term n' then ps else [])" for x u
    by (auto simp: awaited_def vote_request_def comp_def filter_map)
  have "awaited (mail c) a (m_term n') = []" by (rule awaited_none) (use old S(2) in force)
  then have own: "awaited (mail c') a (m_term n') = ps" by (simp add: f(5) awaited_append new)
  have oth: "awaited (mail c') x u = awaited (mail c) x u" if "x \<noteq> a" for x u
    using that by (simp add: f(5) awaited_append new)
  have "in_int (m_term n')" using S(1) a by (auto simp: members_ok_def persisted_def f dest: bspec [of _ _ a])
  then have "letter_ok M c' k" if "k \<in> set ?new" for k
    using that a by (auto simp: letter_ok_def vote_request_def f)
  moreover have "letter_ok M c' k" if "k \<in> set (mail c)" for k
    using that inv'(1) S(2) by - (rule letter_ok_mono [of M c], auto simp: mail_ok_def f)
  ultimately have "mail_ok M c'" unfolding mail_ok_def f(5) by auto
  moreover have "count_ok M c'" "led_ok M c'"
    by (rule others_kept [OF inv'(2,3) f(1)]; use cand ps a own oth in \<open>auto simp: f(2-4)\<close>)+
  ultimately show ?thesis by blast
qed

lemma election_event_inv:
  assumes codec: "codec_ok default_metadata (metadata_codec pb)" and inv: "election_inv pb M c" and a: "a \<in> set M"
    and ev: "ev = Timer_fires e (ElectionCallback_at t)" and ok: "no_regress ev (nodes c a)"
    and members: "distinct M" "knows_members M (nodes c a)" and res: "handle pb ev (nodes c a) = Inr n'"
    and c': "c' = (advance pb a ev n' c)\<lparr>mail := send_calls a ev (nodes c a) n' (mail c)\<rparr>"
  shows "election_inv pb M c'"
proof -
  let ?n = "nodes c a"
  have inv': "members_ok pb M c" "votes_ok M (led c) c" "mail_ok M c" "count_ok M c" "led_ok M c"
    using inv by (simp_all add: election_inv_def)
  have p: "persisted pb ?n" "conf_wf ?n" "ctx_address ?n = a" using inv'(1) a by (simp_all add: members_ok_def)
  have cb: "ElectionCallback pb e t ?n = Inr n'" "m_term ?n < 2 ^ 31 - 1" "in_int (m_term ?n)"
    using res ok p(1) by (simp_all add: ev run_callback_def persisted_def)
  have ctx: "ctx_address n' = a" using ElectionCallback_office [OF cb p(2)] p(3) by (metis office_unfold)
  have int: "event_in_int ev" by (simp add: ev)
  have "forgets_vote ev ?n \<longrightarrow> from_leader a ev c" by (simp add: ev)
  note S = member_step [OF codec inv a int ok this res ctx, of c']
  have cast: "cast c' = cast c @ (if m_term n' \<noteq> m_term ?n then [(a, m_term n', a)] else [])"
    using cb(1) p(3) by (simp add: c' ev)
  have "mail_ok M c' \<and> count_ok M c' \<and> led_ok M c'"
    using cb p(2)
  proof (cases rule: ElectionCallback_office)
    case idle
    then have m: "mail c' = mail c" and led: "led c' = led c" by (simp_all add: c' ev send_calls_def office_unfold)
    have "mail_ok M c'" by (rule mail_ok_mono [OF inv'(3)]) (use m S(3) in \<open>auto simp: c'\<close>)
    moreover have "count_ok M c'" "led_ok M c'"
      by (rule kept_office_step [OF inv a office_keeps [OF idle]];
          use m led idle in \<open>auto simp: c' ev office_unfold\<close>)+
    ultimately show ?thesis by blast
  next
    case (candidate ps i j)
    have "nodes c' = (nodes c)(a := n')" "cast c' = cast c @ [(a, m_term n', a)]"
      "counted c' = (counted c)(a := [a])" "led c' = led c"
      "mail c' = mail c @ map (\<lambda>p. \<lparr>caller = a, voter = p, ballot = vote_request a (m_term n') i j, answer = None\<rparr>) ps"
      using candidate(2,3,5) p(3) cast by (simp_all add: c' ev send_calls_def)
    note f = this
    have "members_ok pb M c'" using S(1) by (simp add: c')
    then show ?thesis
      by (rule candidacy_step [OF inv a _ _ candidate(2,4,6) _ f]) (use candidate(3,7) p(3) in simp_all)
  next
    case alone
    then have m: "mail c' = mail c" and led: "led c' = led c @ [(m_term n', a)]" by (simp_all add: c' ev send_calls_def)
    have "set M = {a}" using alone(5) members(2) p(3) by (simp add: knows_members_def)
    then have "length M = 1" using members(1) distinct_card [of M] by simp
    then have "backed M c' (m_term n') a"
      unfolding backed_def using alone(3) a cast by (intro exI [of _ "[a]"]) (simp add: majority_of_def)
    moreover have "mail_ok M c'" by (rule mail_ok_mono [OF inv'(3)]) (use m S(3) in \<open>auto simp: c'\<close>)
    ultimately show ?thesis
      using others_kept [OF inv'(4,5), of c' a n'] alone m led by (auto simp: c' ev)
  qed
  with S show ?thesis by (intro election_invI [of pb M c' "led c"]) (simp_all add: c')
qed

text \<open>A restart.\<close>

lemma restart_inv:
  assumes codec: "codec_ok default_metadata (metadata_codec pb)" and inv: "election_inv pb M c" and a: "a \<in> set M"
    and ev: "ev = Crash_restart max_size now" and res: "handle pb ev (nodes c a) = Inr n'"
    and c': "c' = (advance pb a ev n' c)\<lparr>mail := send_calls a ev (nodes c a) n' (mail c)\<rparr>"
  shows "election_inv pb M c'"
proof -
  have inv': "members_ok pb M c" "votes_ok M (led c) c" "mail_ok M c" "count_ok M c" "led_ok M c"
    using inv by (simp_all add: election_inv_def)
  have r: "restart_node pb max_size now (nodes c a) = Inr n'" using res by (simp add: ev)
  note R = restart_office [OF r]
  have ctx: "ctx_address n' = a" using R(1) inv'(1) a by (simp add: members_ok_def)
  have ok: "event_in_int ev" "no_regress ev (nodes c a)" "forgets_vote ev (nodes c a) \<longrightarrow> from_leader a ev c"
    by (simp_all add: ev)
  note S = member_step [OF codec inv a ok res ctx, of c']
  have m: "mail c' = filter (\<lambda>m. caller m \<noteq> a) (mail c)" by (simp add: c' ev send_calls_def)
  have own: "awaited (mail c') a t = []" for t by (rule awaited_none) (simp add: m)
  have oth: "awaited (mail c') x t = awaited (mail c) x t" if "x \<noteq> a" for x t
    unfolding m awaited_def filter_filter using that by (intro arg_cong [of _ _ "map voter"] filter_cong) auto
  have "count_ok M c'" "led_ok M c'"
    by (rule others_kept [OF inv'(4,5), where a = a and n' = n']; use R own oth in \<open>auto simp: c' ev\<close>)+
  moreover have "mail_ok M c'" by (rule mail_ok_mono [OF inv'(3)]) (use m S(3) in \<open>auto simp: c'\<close>)
  ultimately show ?thesis using S by (intro election_invI [of pb M c' "led c"]) (simp_all add: c')
qed

text \<open>A vote request reaches a voter.\<close>

lemma RequestVote_term:
  assumes "ProcessRequestVoteClientRequest pb e req n = Inr ((rep, st), n')"
  shows "rvr_term rep = 0 \<or> rvr_term rep = m_term n \<or> rvr_term rep = m_term n'"
  using assms by (auto simp: ProcessRequestVoteClientRequest_def Let_def split: if_splits)

lemma vote_request_inv:
  assumes codec: "codec_ok default_metadata (metadata_codec pb)" and inv: "election_inv pb M c" and M: "[] \<notin> set M"
    and i: "i < length (mail c)" and m: "m = mail c ! i" "answer m = None" "voter m \<in> set M"
    and res: "ProcessRequestVoteClientRequest pb e (ballot m) (nodes c (voter m)) = Inr ((rep, st), n')"
    and c1: "c1 = advance pb (voter m) (Vote_request e (ballot m)) n' c"
    and c': "c' = (if st = Status_OK then c1\<lparr>mail := (mail c)[i := m\<lparr>answer := Some rep\<rparr>]\<rparr> else drop_mail i c1)"
  shows "election_inv pb M c'"
proof -
  let ?b = "voter m" and ?ev = "Vote_request e (ballot m)"
  have inv': "members_ok pb M c" "votes_ok M (led c) c" "mail_ok M c" using inv by (simp_all add: election_inv_def)
  have mm: "m \<in> set (mail c)" using i m(1) by simp
  then have mo: "caller m \<in> set M" "rv_candidateId (ballot m) = caller m" "in_int (rv_term (ballot m))"
    using inv'(3) by (auto simp: mail_ok_def letter_ok_def)
  then have ok: "event_in_int ?ev" "no_regress ?ev (nodes c ?b)" "forgets_vote ?ev (nodes c ?b) \<longrightarrow> from_leader ?b ?ev c"
    using M by auto
  have h: "handle pb ?ev (nodes c ?b) = Inr n'" using res by simp
  have keep: "keeps_office (nodes c ?b) n'" by (rule RequestVote_keeps_office [OF res])
  have ctx: "ctx_address n' = ?b" using keep inv'(1) m(3) by (simp add: keeps_office_def members_ok_def)
  have f: "nodes c' = (nodes c)(?b := n')" "cast c' = cast c @ map (Pair ?b) (votes_of pb ?ev (nodes c ?b))"
    "counted c' = counted c" "led c' = led c"
    using keep by (auto simp: c' c1 keeps_office_def)
  note S = member_step [OF codec inv m(3) ok h ctx f(1,2)]
  have ask: "distinct (vs @ awaited (mail c') x t)" if "distinct (vs @ awaited (mail c) x t)" for vs x t
    using that awaited_drop [OF that] awaited_update [OF i, of "m\<lparr>answer := Some rep\<rparr>"] m(1) by (simp add: c' c1)
  have "count_ok M c'" "led_ok M c'"
    by (rule kept_office_step [OF inv m(3) keep f(1) _ f(4) _ ask]; simp add: f)+
  moreover have "mail_ok M c'"
  proof (cases "st = Status_OK")
    case False
    then have "set (mail c') \<subseteq> set (mail c)" using set_take_subset set_drop_subset by (fastforce simp: c' c1)
    then show ?thesis by (rule mail_ok_mono [OF inv'(3)]) (use f S(3) in auto)
  next
    case True
    have granted: "rvr_voteGranted rep \<Longrightarrow> (?b, rv_term (ballot m), caller m) \<in> set (cast c')"
      using res RequestVote_stable(2) [OF res mo(3)] mo(2) by (simp add: f(2))
    have "persisted pb n'" using S(1) m(3) f(1) by (auto simp: members_ok_def dest: bspec [of _ _ ?b])
    moreover have "persisted pb (nodes c ?b)" using inv'(1) m(3) by (simp add: members_ok_def)
    ultimately have "in_int (rvr_term rep)" using RequestVote_term [OF res] by (auto simp: persisted_def in_int_def)
    moreover have old: "letter_ok M c' k" if "k \<in> set (mail c)" for k
      using that inv'(3) S(3) by - (rule letter_ok_mono [of M c], auto simp: mail_ok_def f)
    ultimately have "letter_ok M c' (m\<lparr>answer := Some rep\<rparr>)"
      using granted m(3) old [OF mm] by (simp add: letter_ok_def)
    then show ?thesis
      using old set_update_subset_insert [of "mail c" i "m\<lparr>answer := Some rep\<rparr>"] True
      by (auto simp: mail_ok_def c')
  qed
  ultimately show ?thesis using S f(4) by (intro election_invI [of pb M c' "led c"]) simp_all
qed

text \<open>The answer reaches the caller.\<close>

lemma awaited_nth:
  assumes "i < length ms" and "m = ms ! i" and "distinct (vs @ awaited ms (caller m) (rv_term (ballot m)))"
  shows "distinct ((vs @ [voter m]) @ awaited (take i ms @ drop (Suc i) ms) (caller m) (rv_term (ballot m)))"
proof -
  have "awaited ms (caller m) (rv_term (ballot m)) = awaited (take i ms) (caller m) (rv_term (ballot m)) @ voter m #
      awaited (drop (Suc i) ms) (caller m) (rv_term (ballot m))"
    by (subst id_take_nth_drop [OF assms(1)]) (simp add: awaited_def assms(2))
  with assms(3) show ?thesis by (auto simp: awaited_append)
qed

lemma awaited_other: "x \<noteq> caller (ms ! i) \<Longrightarrow> awaited (take i ms @ drop (Suc i) ms) x t = awaited ms x t"
proof (cases "i < length ms")
  case True
  then show "x \<noteq> caller (ms ! i) \<Longrightarrow> ?thesis"
    by (subst (3) id_take_nth_drop [OF True]) (simp add: awaited_def)
qed simp

text \<open>
  What the caller makes of the answer, if it is a candidate: it keeps or loses its candidacy,
  counts the voter, or has a majority of the members.
\<close>

lemma candidate_reply:
  assumes inv: "election_inv pb M c" and a: "a \<in> set M" and b: "b \<in> set M" and cand: "m_state (nodes c a) = CANDIDATE"
    and ok: "knows_members M (nodes c a)" "distinct M"
    and res: "ProcessRequestVoteServerResponse pb e req rep b (nodes c a) = Inr n'"
    and granted: "rvr_voteGranted rep \<Longrightarrow> (b, m_term (nodes c a), a) \<in> set (cast c)"
    and f: "nodes c' = (nodes c)(a := n')" "cast c' = cast c"
      "counted c' = (counted c)(a := count_votes_of a (Vote_reply e req rep b) (nodes c a) n' (counted c a))"
      "led c' = led c @ (if m_state n' = LEADER \<and> m_state (nodes c a) \<noteq> LEADER then [(m_term n', a)] else [])"
    and mail: "\<And>vs x t. distinct (vs @ awaited (mail c) x t) \<Longrightarrow> distinct (vs @ awaited (mail c') x t)"
    and oth: "\<And>x t. x \<noteq> a \<Longrightarrow> awaited (mail c') x t = awaited (mail c) x t"
    and d: "distinct ((counted c a @ [b]) @ awaited (mail c') a (m_term (nodes c a)))"
  shows "ctx_address n' = a \<and> count_ok M c' \<and> led_ok M c'"
proof -
  let ?n = "nodes c a" and ?V = "counted c a @ [b]"
  have inv': "members_ok pb M c" "count_ok M c" "led_ok M c" using inv by (simp_all add: election_inv_def)
  note C = count_okD [OF inv'(2) a cand]
  have ctx: "ctx_address ?n = a" "conf_wf ?n" using inv'(1) a by (simp_all add: members_ok_def)
  have "0 \<le> m_votes_received ?n" using C(1) by simp
  with res show ?thesis
  proof (cases rule: RequestVoteReply_office)
    case kept
    then have "count_ok M c'" "led_ok M c'"
      by (rule kept_office_step [OF inv a _ f(1) _ _ _ mail]; use kept in \<open>auto simp: f keeps_office_def\<close>)+
    with kept ctx show ?thesis by (simp add: keeps_office_def)
  next
    case counted
    then have g: "ctx_address n' = a" "m_state n' = CANDIDATE" "m_term n' = m_term ?n"
      "m_votes_received n' = m_votes_received ?n + 1" using ctx by (simp_all add: office_def)
    then have k: "counted c' = (counted c)(a := ?V)" "led c' = led c" by (simp_all add: f)
    have "count_ok M c'" "led_ok M c'"
      by (rule others_kept [OF inv'(2,3) f(1)]; use g k C d oth b granted [OF counted(2)] in \<open>simp add: f(2)\<close>)+
    with g show ?thesis by blast
  next
    case won
    have "length (ServerAddresses (m_configuration ?n)) = length M"
      using ok distinct_ServerAddresses [of "m_configuration ?n"] ctx(2)
      by (metis conf_wf_def distinct_card knows_members_def)
    then have "2 * length ?V > length M" using won(7) C(1) by simp
    moreover have "distinct ?V" "set ?V \<subseteq> set M" "\<forall>v \<in> set ?V. (v, m_term ?n, a) \<in> set (cast c')"
      using d C(2,4) b granted [OF won(2)] f(2) by auto
    ultimately have "backed M c' (m_term n') a" unfolding backed_def majority_of_def won(5) by blast
    moreover have led: "led c' = led c @ [(m_term n', a)]" using won(3) cand by (simp add: f(4))
    ultimately have "count_ok M c'" "led_ok M c'"
      by - (rule others_kept [OF inv'(2,3) f(1)]; use won(3) oth in \<open>auto simp: f(2,3)\<close>)+
    with won(4) ctx show ?thesis by simp
  qed
qed

lemma vote_reply_inv:
  assumes codec: "codec_ok default_metadata (metadata_codec pb)" and inv: "election_inv pb M c"
    and i: "i < length (mail c)" and m: "m = mail c ! i" "answer m = Some rep"
    and ok: "rv_term (ballot m) = m_term (nodes c (caller m))" "knows_members M (nodes c (caller m))" "distinct M"
    and res: "ProcessRequestVoteServerResponse pb e (ballot m) rep (voter m) (nodes c (caller m)) = Inr n'"
    and c': "c' = drop_mail i (advance pb (caller m) (Vote_reply e (ballot m) rep (voter m)) n' c)"
  shows "election_inv pb M c'"
proof -
  let ?a = "caller m" and ?b = "voter m" and ?ev = "Vote_reply e (ballot m) rep (voter m)"
  let ?n = "nodes c ?a"
  have inv': "members_ok pb M c" "votes_ok M (led c) c" "mail_ok M c" "count_ok M c" "led_ok M c"
    using inv by (simp_all add: election_inv_def)
  have "m \<in> set (mail c)" using i m(1) by simp
  then have mo: "?a \<in> set M" "?b \<in> set M" "in_int (rvr_term rep)"
    "rvr_voteGranted rep \<Longrightarrow> (?b, m_term ?n, ?a) \<in> set (cast c)"
    using inv'(3) m(2) ok(1) by (auto simp: mail_ok_def letter_ok_def)
  have ev: "event_in_int ?ev" "no_regress ?ev ?n" "forgets_vote ?ev ?n \<longrightarrow> from_leader ?a ?ev c" "handle pb ?ev ?n = Inr n'"
    using mo(3) ok(1) res by simp_all
  have f: "nodes c' = (nodes c)(?a := n')" "cast c' = cast c" by (simp_all add: c')
  have "ctx_address n' = ?a \<and> count_ok M c' \<and> led_ok M c'"
  proof (cases "m_state ?n = CANDIDATE")
    case False
    then have "n' = ?n" using res by (simp add: ProcessRequestVoteServerResponse_def)
    moreover have "count_ok M c'" "led_ok M c'"
      by (rule kept_office_step [OF inv mo(1) _ f(1)];
          use \<open>n' = ?n\<close> awaited_drop in \<open>auto simp: c' office_keeps\<close>)+
    ultimately show ?thesis using inv'(1) mo(1) by (simp add: members_ok_def)
  next
    case True
    have d: "distinct ((counted c ?a @ [?b]) @ awaited (mail c') ?a (m_term ?n))"
      using awaited_nth [OF i m(1), of "counted c ?a"] count_okD(3) [OF inv'(4) mo(1) True] ok(1) by (simp add: c')
    have mail: "mail c' = take i (mail c) @ drop (Suc i) (mail c)" by (simp add: c')
    show ?thesis
      by (rule candidate_reply [OF inv mo(1,2) True ok(2,3) res mo(4) f _ _ _ _ d])
        (simp_all only: mail awaited_drop, simp_all add: awaited_other c' m(1))
  qed
  moreover from this have "ctx_address n' = ?a" by blast
  note S = member_step [OF codec inv mo(1) ev this f(1)]
  have "set (mail c') \<subseteq> set (mail c)" using set_take_subset set_drop_subset by (fastforce simp: c')
  then have "mail_ok M c'" by (rule mail_ok_mono [OF inv'(3)]) (use S(3) f in simp_all)
  ultimately show ?thesis using S(1,2) f(2) by (intro election_invI [of pb M c' "led c"]) (simp_all add: c')
qed

subsection \<open>Runs\<close>

lemma mail_lost_inv:
  assumes "election_inv pb M c"
  shows "election_inv pb M (drop_mail i c)"
proof -
  have "set (mail (drop_mail i c)) \<subseteq> set (mail c)" using set_take_subset set_drop_subset by fastforce
  then have "mail_ok M (drop_mail i c)"
    by (rule mail_ok_mono [of M c, rotated]) (use assms in \<open>simp_all add: election_inv_def\<close>)
  moreover have "count_ok M (drop_mail i c)"
    using assms awaited_drop unfolding election_inv_def count_ok_def drop_mail_fields by blast
  moreover have "led_ok M (drop_mail i c)"
    using assms by (simp add: election_inv_def led_ok_def backed_def)
  ultimately show ?thesis using assms by (simp add: election_inv_def members_ok_def votes_ok_def stands_def)
qed

lemma member_event_inv:
  assumes codec: "codec_ok default_metadata (metadata_codec pb)" and M: "distinct M"
    and inv: "election_inv pb M c" and ok: "orderly M (Member_event a x) c"
    and res: "cluster_step pb M (Member_event a x) c = Inr c'"
  shows "election_inv pb M c'"
proof (cases "a \<in> set M \<and> own_event x")
  case True
  then obtain n' where h: "handle pb x (nodes c a) = Inr n'"
    and c': "c' = (advance pb a x n' c)\<lparr>mail := send_calls a x (nodes c a) n' (mail c)\<rparr>"
    using res by auto
  from True consider "\<not> elects x" | e t where "x = Timer_fires e (ElectionCallback_at t)"
    | s t where "x = Crash_restart s t" by (cases x rule: elects.cases) auto
  then show ?thesis
  proof cases
    case 1
    then show ?thesis using plain_event_inv [OF codec inv _ _ _ _ _ h c'] True ok by (simp add: orderly_def)
  next
    case 2
    then show ?thesis using election_event_inv [OF codec inv _ _ _ M _ h c'] True ok by (simp add: orderly_def)
  next
    case 3
    then show ?thesis using restart_inv [OF codec inv _ _ h c'] True by simp
  qed
qed (use res inv in auto)

lemma mail_arrives_inv:
  assumes codec: "codec_ok default_metadata (metadata_codec pb)" and M: "distinct M" "[] \<notin> set M"
    and inv: "election_inv pb M c" and ok: "orderly M (Mail_arrives i e) c"
    and i: "i < length (mail c)" and res: "cluster_step pb M (Mail_arrives i e) c = Inr c'"
  shows "election_inv pb M c'"
proof (cases "answer (mail c ! i)")
  case None
  show ?thesis
  proof (cases "voter (mail c ! i) \<in> set M")
    case True
    with res i None obtain rep st n' where
      r: "ProcessRequestVoteClientRequest pb e (ballot (mail c ! i)) (nodes c (voter (mail c ! i))) = Inr ((rep, st), n')"
      and "c' = (let c1 = advance pb (voter (mail c ! i)) (Vote_request e (ballot (mail c ! i))) n' c in
        if st = Status_OK then c1\<lparr>mail := (mail c)[i := (mail c ! i)\<lparr>answer := Some rep\<rparr>]\<rparr> else drop_mail i c1)"
      by (auto simp: Let_def)
    then show ?thesis by (intro vote_request_inv [OF codec inv M(2) i refl None True r refl]) (simp add: Let_def)
  qed (use res i None mail_lost_inv [OF inv] in \<open>auto simp: Let_def\<close>)
next
  case (Some rep)
  with res i obtain n' where
    "ProcessRequestVoteServerResponse pb e (ballot (mail c ! i)) rep (voter (mail c ! i))
      (nodes c (caller (mail c ! i))) = Inr n'"
    "c' = drop_mail i (advance pb (caller (mail c ! i)) (Vote_reply e (ballot (mail c ! i)) rep (voter (mail c ! i))) n' c)"
    by (auto simp: Let_def)
  then show ?thesis
    using vote_reply_inv [OF codec inv i refl Some _ _ M(1)] ok i Some by (simp add: orderly_def Let_def)
qed

lemma cluster_step_inv:
  assumes codec: "codec_ok default_metadata (metadata_codec pb)" and M: "distinct M" "[] \<notin> set M"
    and inv: "election_inv pb M c" and ok: "orderly M ev c" and res: "cluster_step pb M ev c = Inr c'"
  shows "election_inv pb M c'"
proof (cases ev)
  case (Member_event a x)
  then show ?thesis using member_event_inv [OF codec M(1) inv] ok res by blast
next
  case (Mail_arrives i e)
  with ok res inv mail_arrives_inv [OF codec M inv] show ?thesis by (cases "i < length (mail c)") auto
next
  case (Mail_lost i)
  then show ?thesis using res mail_lost_inv [OF inv] by auto
qed

lemma cluster_run_inv:
  assumes codec: "codec_ok default_metadata (metadata_codec pb)" and M: "distinct M" "[] \<notin> set M"
  shows "\<lbrakk> election_inv pb M c; orderly_run pb M evs c; cluster_run pb M evs c = Inr c' \<rbrakk> \<Longrightarrow> election_inv pb M c'"
proof (induction evs arbitrary: c)
  case (Cons ev evs)
  from Cons.prems(3) obtain c1 where c1: "cluster_step pb M ev c = Inr c1" "cluster_run pb M evs c1 = Inr c'" by auto
  with Cons.prems(2) have "orderly M ev c" "orderly_run pb M evs c1" by auto
  with c1 show ?case using Cons.IH [OF cluster_step_inv [OF codec M Cons.prems(1)]] by blast
qed simp

end
