(* ===== verification/Component_Properties.thy ===== *)
theory Component_Properties
  imports Cluster_Configuration State_Machine
begin

section \<open>Properties of configurations, sessions and the state machine\<close>

text \<open>
  Quorum intersection within and across configurations, well-formedness of the configuration
  record, the session cache as a bounded list with the most recently used session in front, and
  what the key-value store holds after a run of committed entries.
\<close>

subsection \<open>Quorums\<close>

definition servers_of :: "string list \<Rightarrow> Server list" where
  "servers_of as = map (\<lambda>a. \<lparr>address = a\<rparr>) as"

definition stable_conf :: "string list \<Rightarrow> ClusterConfiguration" where
  "stable_conf as = SetConfiguration 0 \<lparr>prev_configuration = servers_of as, next_configuration = []\<rparr>
     ClusterConfiguration_new"

definition joint_conf :: "string list \<Rightarrow> string list \<Rightarrow> ClusterConfiguration" where
  "joint_conf as bs = SetConfiguration 1 \<lparr>prev_configuration = servers_of as, next_configuration = servers_of bs\<rparr>
     ClusterConfiguration_new"

text \<open>
  C7. Two sets of members that both pass \<open>CheckQuorum\<close> in the same stable or joint
  configuration share a member.
\<close>

theorem quorums_intersect:
  assumes "stable_or_joint c" and "CheckQuorum V c" and "CheckQuorum W c" and "distinct V" and "distinct W"
    and "set V \<subseteq> config_addresses (m_current_configuration c)"
    and "set W \<subseteq> config_addresses (m_current_configuration c)"
  shows "set V \<inter> set W \<noteq> {}"
  by (rule cq.quorums_meet [OF assms])

theorem quorums_intersect_witness:
  "set [''a'', ''b''] \<inter> set [''b'', ''c''] \<noteq> {}"
  by (rule quorums_intersect [of "stable_conf [''a'', ''b'', ''c'']"])
    (simp_all add: stable_conf_def servers_of_def SetConfiguration_def SetState_def Let_def stable_or_joint_def
      CheckQuorum_def config_addresses_def ClusterConfiguration_new_def)

text \<open>
  C8. Membership changes. A quorum of a joint configuration meets every quorum of the stable
  configuration it leaves and every quorum of the stable configuration it leads to, so neither
  side can decide alone while the change is in progress.
\<close>

theorem joint_quorum_meets_both_sides:
  assumes joint: "cc_state c = CONF_JOINT" and V: "CheckQuorum V c"
    and d: "distinct (map address (prev_configuration (m_current_configuration c)))"
      "distinct (map address (next_configuration (m_current_configuration c)))"
    and stable: "cc_state s = CONF_STABLE" and W: "CheckQuorum W s" "distinct W"
    and side: "prev_configuration (m_current_configuration s) \<in>
      {prev_configuration (m_current_configuration c), next_configuration (m_current_configuration c)}"
    and members: "set W \<subseteq> address ` set (prev_configuration (m_current_configuration s))"
  shows "set V \<inter> set W \<noteq> {}"
proof -
  let ?S = "prev_configuration (m_current_configuration s)"
  have d': "distinct (map address ?S)" using side d by auto
  have "count_votes ?S V * 2 > length ?S"
    using side V joint by (auto simp: CheckQuorum_def Let_def)
  moreover have "count_votes ?S W * 2 > length ?S"
  proof -
    have "count_votes ?S W = length W"
      using members W(2) by (simp add: count_votes_filter [OF d'] distinct_card Int_absorb2)
    then show ?thesis using W(1) stable by (simp add: CheckQuorum_def Let_def)
  qed
  ultimately show ?thesis using counted_majorities_meet [OF d'] by blast
qed

theorem joint_quorum_meets_both_sides_witness:
  "set [''a'', ''b'', ''d''] \<inter> set [''b'', ''c''] \<noteq> {}"
  by (rule joint_quorum_meets_both_sides [of "joint_conf [''a'', ''b'', ''c''] [''b'', ''d'']" _ "stable_conf [''a'', ''b'', ''c'']"])
    (simp_all add: stable_conf_def joint_conf_def servers_of_def SetConfiguration_def SetState_def Let_def
      CheckQuorum_def count_votes_def ClusterConfiguration_new_def)

text \<open>
  While new servers catch up, \<open>CheckQuorum\<close> counts them although they are no members:
  two disjoint sets of known servers can both pass the test.
\<close>

lemma sync_quorums_can_be_disjoint:
  "\<exists>c V W. config_wf c \<and> cc_state c = CONF_SYNC \<and> CheckQuorum V c \<and> CheckQuorum W c \<and>
     distinct V \<and> distinct W \<and> set V \<subseteq> set (ServerAddresses c) \<and> set W \<subseteq> set (ServerAddresses c) \<and>
     set V \<inter> set W = {}"
proof -
  define c where "c = StartLogSync 0 [''d'', ''e''] (stable_conf [''a'', ''b'', ''c''])"
  have wf: "config_wf c"
    unfolding c_def stable_conf_def
    by (intro config_wf_StartLogSync config_wf_SetConfiguration) (simp add: ClusterConfiguration_new_def)
  have sync: "cc_state c = CONF_SYNC" by (simp add: c_def StartLogSync_def SetState_def Let_def)
  have addr: "ServerAddresses c = [''a'', ''b'', ''c'', ''d'', ''e'']" unfolding c_def by code_simp
  have V: "CheckQuorum [''a'', ''d''] c" unfolding c_def by code_simp
  have W: "CheckQuorum [''b'', ''e''] c" unfolding c_def by code_simp
  show ?thesis
    by (rule exI [of _ c], rule exI [of _ "[''a'', ''d'']"], rule exI [of _ "[''b'', ''e'']"])
      (simp add: wf sync addr V W)
qed

subsection \<open>The configuration record\<close>

text \<open>
  The log position at which a conflict was found is removed from the log but its
  configuration is not removed here: after \<open>TruncateSuffix(i)\<close> a configuration stored at
  index \<open>i\<close> is still stored, and it is the one in force.
\<close>

lemma truncated_configuration_stays_in_force:
  assumes wf: "config_wf c" and stored: "map_of (m_configurations c) i = Some conf"
    and res: "Config_TruncateSuffix i c = Inr c'"
  shows "map_of (m_configurations c') i = Some conf \<and> m_id c' = i"
proof -
  have sorted: "omap_sorted (m_configurations c)" using wf by (simp add: config_wf_def)
  let ?m = "omap_erase_above i (m_configurations c)"
  have mem: "(i, conf) \<in> set ?m" using map_of_SomeD [OF stored] by (simp add: omap_erase_above_def)
  have sorted': "omap_sorted ?m"
    using sorted sorted_wrt_filter [of "\<lambda>p q. fst p < fst q" "m_configurations c"]
    by (simp add: omap_erase_above_def sorted_wrt_map)
  have below: "\<forall>p \<in> set ?m. fst p \<le> i" by (simp add: omap_erase_above_def)
  from mem obtain m x where snoc: "?m = m @ [x]" by (cases ?m rule: rev_cases) auto
  have "x = (i, conf)"
    using mem below sorted' unfolding snoc by (auto simp: sorted_wrt_append)
  with snoc have last: "?m = m @ [(i, conf)]" by simp
  have "distinct (map fst ?m)" using sorted' by (simp add: strict_sorted_iff)
  then have "map_of ?m i = Some conf" using mem by simp
  moreover have "m_configurations c' = ?m" "m_id c' = i"
    using res last by (auto simp: Config_TruncateSuffix_def omap_rbegin_def Let_def SetConfiguration_def SetState_def
        split: if_splits)
  ultimately show ?thesis by simp
qed

subsection \<open>Sessions\<close>

text \<open>The calls to the session cache, with what they return.\<close>

datatype session_op =
    Op_AddSession int
  | Op_CacheResponse int int ClientRequest_Response
  | Op_GetCachedResponse int int
  | Op_SessionExists int

datatype session_result = Threw | Found bool | Got "ClientRequest_Response option"

fun run_session_op :: "session_op \<Rightarrow> SessionCache \<Rightarrow> (session_result \<times> SessionCache) result" where
  "run_session_op (Op_AddSession k) c =
     (case AddSession k c of Inr c' \<Rightarrow> Inr (Found True, c') | Inl e \<Rightarrow> if e = Out_of_range then Inr (Threw, c) else Inl e)"
| "run_session_op (Op_CacheResponse k n r) c =
     (case CacheResponse k n r c of Inr c' \<Rightarrow> Inr (Found True, c') | Inl e \<Rightarrow> if e = Out_of_range then Inr (Threw, c) else Inl e)"
| "run_session_op (Op_GetCachedResponse k n) c =
     rbind (GetCachedResponse k n \<lparr>crr_status = False, crr_response = [], crr_leaderHint = []\<rparr> c)
       (\<lambda>(b, r, c'). Inr (Got (if b then Some r else None), c'))"
| "run_session_op (Op_SessionExists k) c = Inr (Found (SessionExists k c), c)"

text \<open>The same calls on a list of sessions, most recently used first, at most \<open>cap\<close> long.\<close>

fun spec_session_op :: "nat \<Rightarrow> session_op \<Rightarrow> lru \<Rightarrow> session_result \<times> lru" where
  "spec_session_op cap (Op_AddSession k) xs =
     (if map_of xs k = None then (Found True, take cap ((k, []) # xs)) else (Threw, xs))"
| "spec_session_op cap (Op_CacheResponse k n r) xs =
     (case map_of xs k of
        None \<Rightarrow> (Threw, xs)
      | Some v \<Rightarrow> (Found True, (k, AList.update n r v) # AList.delete k xs))"
| "spec_session_op cap (Op_GetCachedResponse k n) xs =
     (case map_of xs k of
        None \<Rightarrow> (Got None, xs)
      | Some v \<Rightarrow> if map_of v n = None then (Got None, xs) else (Got (map_of v n), (k, v) # AList.delete k xs))"
| "spec_session_op cap (Op_SessionExists k) xs = (Found (map_of xs k \<noteq> None), xs)"

fun run_sessions :: "session_op list \<Rightarrow> SessionCache \<Rightarrow> (session_result list \<times> SessionCache) result" where
  "run_sessions [] c = Inr ([], c)"
| "run_sessions (x # xs) c =
     rbind (run_session_op x c) (\<lambda>(r, c1). rbind (run_sessions xs c1) (\<lambda>(rs, c2). Inr (r # rs, c2)))"

fun spec_sessions :: "nat \<Rightarrow> session_op list \<Rightarrow> lru \<Rightarrow> session_result list \<times> lru" where
  "spec_sessions cap [] xs = ([], xs)"
| "spec_sessions cap (y # ys) xs =
     (let (r, xs1) = spec_session_op cap y xs; (rs, xs2) = spec_sessions cap ys xs1 in (r # rs, xs2))"

lemma CreateNode_taken: "lru_rep c xs \<Longrightarrow> map_of xs k \<noteq> None \<Longrightarrow> CreateNode k c = Inl Out_of_range"
  using NodeExists_rep [of c xs k] by (simp add: CreateNode_def NodeExists_def)

lemma run_session_op_refines:
  assumes "lru_rep c xs"
  shows "\<exists>c'. run_session_op x c = Inr (fst (spec_session_op (nat (m_capacity c)) x xs), c') \<and>
     m_capacity c' = m_capacity c \<and> lru_rep c' (snd (spec_session_op (nat (m_capacity c)) x xs))"
proof (cases x)
  case (Op_AddSession k)
  then show ?thesis
    using CreateNode_rep [OF assms, of k] CreateNode_taken [OF assms, of k] assms
    by (cases "map_of xs k") (auto simp: AddSession_def lru_add_def)
next
  case (Op_CacheResponse k n r)
  then show ?thesis
    using UpdateNode_rep [OF assms, of k n r] assms
    by (auto simp: CacheResponse_def lru_touch_def split: option.splits)
next
  case (Op_GetCachedResponse k n)
  note N = NodeValue_rep [OF assms, of k n]
  show ?thesis
  proof (cases "\<exists>v r. map_of xs k = Some v \<and> map_of v n = Some r")
    case True
    then obtain v r where v: "map_of xs k = Some v" "map_of v n = Some r" by blast
    with N obtain c' where "NodeValue k n c = Inr (r, c')" "m_capacity c' = m_capacity c"
      "lru_rep c' (lru_touch k v xs)" by auto
    with v Op_GetCachedResponse show ?thesis
      by (intro exI [of _ c']) (simp add: GetCachedResponse_def lru_touch_def)
  next
    case False
    then have "NodeValue k n c = Inl Out_of_range" using N by (auto split: option.splits)
    with False Op_GetCachedResponse assms show ?thesis
      by (intro exI [of _ c]) (auto simp: GetCachedResponse_def split: option.splits)
  qed

next
  case (Op_SessionExists k)
  then show ?thesis using NodeExists_rep [OF assms] assms by (simp add: SessionExists_def)
qed

lemma run_sessions_refines:
  "lru_rep c xs \<Longrightarrow>
     \<exists>c'. run_sessions ys c = Inr (fst (spec_sessions (nat (m_capacity c)) ys xs), c') \<and>
       m_capacity c' = m_capacity c \<and> lru_rep c' (snd (spec_sessions (nat (m_capacity c)) ys xs))"
proof (induction ys arbitrary: c xs)
  case (Cons y ys)
  obtain r xs1 where s: "spec_session_op (nat (m_capacity c)) y xs = (r, xs1)" by fastforce
  from run_session_op_refines [OF Cons.prems, of y] s obtain c1 where
    c1: "run_session_op y c = Inr (r, c1)" "m_capacity c1 = m_capacity c" "lru_rep c1 xs1" by auto
  from Cons.IH [OF c1(3)] c1 s show ?case by (auto simp: Let_def split: prod.splits)
qed simp

text \<open>
  C9. The session cache, with its hash map, its doubly linked list and its sentinels, behaves on
  every sequence of calls like a list with the most recently used session in front that is cut
  to the capacity: it never dereferences a null pointer, returns the same results, and keeps at
  most that many sessions.
\<close>

theorem session_cache_refines_list:
  assumes "0 \<le> cap"
  shows "\<exists>c'. run_sessions ys (LRUCache_new cap) = Inr (fst (spec_sessions (nat cap) ys []), c') \<and>
     lru_rep c' (snd (spec_sessions (nat cap) ys [])) \<and> m_size c' \<le> cap \<and>
     m_size c' = int (length (snd (spec_sessions (nat cap) ys [])))"
proof -
  have "m_capacity (LRUCache_new cap) = cap" by (simp add: LRUCache_new_def)
  with run_sessions_refines [OF LRUCache_new_rep [OF assms], of ys] obtain c' where
    c': "run_sessions ys (LRUCache_new cap) = Inr (fst (spec_sessions (nat cap) ys []), c')"
    "m_capacity c' = cap" "lru_rep c' (snd (spec_sessions (nat cap) ys []))" by auto
  then show ?thesis by (auto simp: lru_rep_def lru_nodes_def lru_abs_def)
qed

theorem session_cache_refines_list_witness:
  "\<exists>c'. run_sessions [Op_AddSession 1, Op_AddSession 2, Op_AddSession 3, Op_SessionExists 1] (LRUCache_new 2) =
     Inr ([Found True, Found True, Found True, Found False], c')"
  using session_cache_refines_list [of 2 "[Op_AddSession 1, Op_AddSession 2, Op_AddSession 3, Op_SessionExists 1]"]
  by (auto simp: Let_def numeral_2_eq_2)

subsection \<open>The key-value store\<close>

text \<open>
  C11. After a run of committed entries has been applied, reading a key gives the value of the
  last \<open>key:value\<close> command for it in the run, the value it had before if there was none, and
  \<open>out_of_range\<close> if it never had one; a command is split at its first colon.
\<close>

theorem store_holds_last_write:
  assumes "apply_loop i es sm = Inr sm'"
  shows "Store_Read k (sm_store sm') =
     (case last_write k es of Some v \<Rightarrow> Inr v | None \<Rightarrow> Store_Read k (sm_store sm)) \<and>
     (CHR '':'' \<notin> set k \<longrightarrow> last_write k (es @ [e\<lparr>entry_type := DATA, entry_data := BytesData (k @ CHR '':'' # v)\<rparr>]) = Some v)"
proof
  show "Store_Read k (sm_store sm') = (case last_write k es of Some v \<Rightarrow> Inr v | None \<Rightarrow> Store_Read k (sm_store sm))"
    using apply_loop_store [OF assms, of k] by (simp add: Store_Read_def split: option.splits)
  have "last_write k (es @ [x]) = Some v" if "last_write k [x] = Some v" for x
    using that by (induction es) (auto split: option.splits)
  then show "CHR '':'' \<notin> set k \<longrightarrow>
      last_write k (es @ [e\<lparr>entry_type := DATA, entry_data := BytesData (k @ CHR '':'' # v)\<rparr>]) = Some v"
    by (simp add: entry_bytes_def command_roundtrip)
qed

theorem store_holds_last_write_witness:
  "Store_Read ''x'' (sm_store (projr (apply_loop 0
      [\<lparr>entry_term = 1, entry_type = DATA, entry_data = BytesData ''x:1''\<rparr>,
       \<lparr>entry_term = 1, entry_type = DATA, entry_data = BytesData ''x:2''\<rparr>]
      (StateMachine_new (LRUCache_new 10) [])))) = Inr ''2''"
proof -
  let ?es = "[\<lparr>entry_term = 1, entry_type = DATA, entry_data = BytesData ''x:1''\<rparr>,
       \<lparr>entry_term = 1, entry_type = DATA, entry_data = BytesData ''x:2''\<rparr>]"
  let ?r = "apply_loop 0 ?es (StateMachine_new (LRUCache_new 10) [])"
  have "\<exists>sm. ?r = Inr sm" by (simp add: ApplyCommand_def Let_def)
  then have 1: "?r = Inr (projr ?r)" by auto
  have "last_write ''x'' ?es = Some ''2''" by code_simp
  with store_holds_last_write [OF 1, of "''x''"] show ?thesis by simp
qed


end
