(* ===== verification/Cluster_Properties.thy ===== *)
theory Cluster_Properties
  imports Cluster_Elections Component_Properties
begin

section \<open>Properties of a cluster\<close>

text \<open>One leader per term, and the run in which the missing check of an answer's term gives two.\<close>

definition conf_entry :: LogEntry where
  "conf_entry = default_entry\<lparr>entry_term := 1, entry_type := CONFIGURATION,
     entry_data := ConfigurationData \<lparr>prev_configuration = servers_of [''n1'', ''n2'', ''n3''], next_configuration = []\<rparr>\<rparr>"

definition cluster_pb :: protobuf where
  "cluster_pb =
     \<lparr>entry_codec = table_codec [conf_entry, default_entry\<lparr>entry_term := 2, entry_type := NO_OP\<rparr>,
        default_entry\<lparr>entry_term := 3, entry_type := NO_OP\<rparr>],
      metadata_codec = table_codec
        [\<lparr>md_version = 1, md_term = 1, md_vote = ''''\<rparr>, \<lparr>md_version = 2, md_term = 2, md_vote = ''''\<rparr>,
         \<lparr>md_version = 2, md_term = 2, md_vote = ''n1''\<rparr>, \<lparr>md_version = 2, md_term = 2, md_vote = ''n3''\<rparr>,
         \<lparr>md_version = 3, md_term = 2, md_vote = ''n1''\<rparr>, \<lparr>md_version = 3, md_term = 3, md_vote = ''n1''\<rparr>,
         \<lparr>md_version = 3, md_term = 3, md_vote = ''n3''\<rparr>, \<lparr>md_version = 4, md_term = 3, md_vote = ''''\<rparr>,
         \<lparr>md_version = 5, md_term = 3, md_vote = ''n3''\<rparr>, \<lparr>md_version = 3, md_term = 2, md_vote = ''''\<rparr>]\<rparr>"

definition join_request :: AppendEntries_Request where
  "join_request = \<lparr>ae_term = 1, ae_leaderId = ''n0'', ae_prevLogIndex = -1, ae_prevLogTerm = -1,
     ae_entries = [conf_entry], ae_leaderCommit = -1\<rparr>"

definition joined_node :: "string \<Rightarrow> ConsensusModule" where
  "joined_node a = projr (handle cluster_pb (Append_request sample_env join_request)
     (StateMachineInit (ConsensusModule_new a (fresh_log ''d/'' 100 []) 0)))"

definition three_nodes :: cluster where
  "three_nodes = \<lparr>nodes = joined_node, mail = [], cast = [], counted = (\<lambda>a. []), led = []\<rparr>"

definition late_env :: env where
  "late_env = \<lparr>clock = (\<lambda>_. 5000), draw = (\<lambda>_. 1000)\<rparr>"

definition election_of :: "string \<Rightarrow> int \<Rightarrow> cluster_event" where
  "election_of a t = Member_event a (Timer_fires late_env (ElectionCallback_at t))"



definition stale_run :: "cluster_event list" where
  "stale_run = [election_of ''n1'' 1, Mail_arrives 0 late_env, election_of ''n1'' 2,
     election_of ''n3'' 1, election_of ''n3'' 2, Mail_arrives 7 late_env, Mail_arrives 7 late_env]"

abbreviation "three \<equiv> [''n1'', ''n2'', ''n3'']"

lemma cluster_codec: "codec_ok default_metadata (metadata_codec cluster_pb)"
  by (simp add: cluster_pb_def codec_ok_table)

lemma three_nodes_start: "cluster_start cluster_pb three three_nodes"
proof -
  let ?boot = "\<lambda>a. StateMachineInit (ConsensusModule_new a (fresh_log ''d/'' 100 []) 0)"
  have "\<forall>a \<in> set three. \<not> isl (handle cluster_pb (Append_request sample_env join_request) (?boot a)) \<and>
      ctx_address (joined_node a) = a \<and> m_state (joined_node a) \<noteq> LEADER \<and> m_votes_received (joined_node a) = 0"
    by code_simp
  moreover have "node_reachable cluster_pb (joined_node a)"
    if "\<not> isl (handle cluster_pb (Append_request sample_env join_request) (?boot a))" for a
    by (rule node_reachable.event [of _ "?boot a" "Append_request sample_env join_request"])
      (use that in \<open>auto intro: node_reachable.boot simp: joined_node_def\<close>)
  ultimately show ?thesis by (simp add: cluster_start_def three_nodes_def)
qed



text \<open>The steps of an election: an election timer fires, or a vote request or its answer arrives.\<close>

fun election_step :: "cluster_event \<Rightarrow> bool" where
  "election_step (Member_event a (Timer_fires e (ElectionCallback_at t))) = True"
| "election_step (Mail_arrives i e) = True"
| "election_step _ = False"

text \<open>
  C13. The code counts a granted vote whatever term the node is in by then, and this alone is
  enough for two leaders in one term. There is a run of three members in which nothing happens
  but election timers firing and vote requests and answers arriving, each of them once: no crash,
  no append request, no term that goes back, every member knows the three. All steps but the last
  are orderly; the last is steady too, and its only fault is that the answer belongs to an
  election of an earlier term. It makes its receiver leader of a term that already has one.
\<close>

theorem stale_vote_elects_second_leader:
  "\<exists>pb M c pre i e c1 c2 a b. codec_ok default_metadata (metadata_codec pb) \<and> cluster_start pb M c \<and> length M = 3 \<and>
     list_all election_step pre \<and> orderly_run pb M pre c \<and> cluster_run pb M pre c = Inr c1 \<and>
     steady M (Mail_arrives i e) c1 \<and> \<not> fresh (Mail_arrives i e) c1 \<and>
     cluster_step pb M (Mail_arrives i e) c1 = Inr c2 \<and> a \<in> set M \<and> b \<in> set M \<and> a \<noteq> b \<and>
     m_state (nodes c2 a) = LEADER \<and> m_state (nodes c2 b) = LEADER \<and> m_term (nodes c2 a) = m_term (nodes c2 b)"
proof -
  let ?last = "Mail_arrives 0 late_env" and ?r = "cluster_run cluster_pb three stale_run three_nodes"
  have run: "case ?r of Inl x \<Rightarrow> False | Inr c \<Rightarrow> steady three ?last c \<and> \<not> fresh ?last c \<and>
      (case cluster_step cluster_pb three ?last c of Inl x \<Rightarrow> False
       | Inr d \<Rightarrow> m_state (nodes d ''n1'') = LEADER \<and> m_state (nodes d ''n3'') = LEADER \<and>
           m_term (nodes d ''n1'') = m_term (nodes d ''n3''))"
    by code_simp
  then obtain c1 c2 where "?r = Inr c1" "steady three ?last c1" "\<not> fresh ?last c1"
    "cluster_step cluster_pb three ?last c1 = Inr c2" "m_state (nodes c2 ''n1'') = LEADER"
    "m_state (nodes c2 ''n3'') = LEADER" "m_term (nodes c2 ''n1'') = m_term (nodes c2 ''n3'')"
    by (auto split: sum.splits)
  moreover have "orderly_run cluster_pb three stale_run three_nodes" "list_all election_step stale_run" by code_simp+
  moreover have "''n1'' \<in> set three" "''n3'' \<in> set three" "''n1'' \<noteq> ''n3''" "length three = 3" by simp_all
  ultimately show ?thesis using cluster_codec three_nodes_start by blast
qed

end
