(* ===== verification/Async_Executor.thy ===== *)
theory Async_Executor
  imports Raft_Prelude "HOL-Library.Sublist"
begin

section \<open>Executors\<close>

text \<open>
  \<open>src/core/async_executor.h\<close> and \<open>.cpp\<close>: the strand, which runs callbacks one after
  the other on a thread of its own, and the thread pool. A mutex makes each critical section
  atomic; what the worker thread does between two of them is a step of its own, so that calls of
  other threads can come in between. Callbacks are values of a type variable, and a history
  variable records the ones that ran. Moving from a queue leaves it empty.
\<close>

subsection \<open>What a client may rely on\<close>

text \<open>
  An executor accepts callbacks while it is not shut down, and keeps the accepted ones in the
  order of acceptance: those that ran, followed by those to come.
\<close>

locale executor =
  fixes enqueue :: "'c \<Rightarrow> 's \<Rightarrow> 's result" and accepted :: "'s \<Rightarrow> 'c list" and accepting :: "'s \<Rightarrow> bool"
  assumes enqueue_law: "accepting s \<Longrightarrow>
      \<exists>s'. enqueue c s = Inr s' \<and> accepted s' = accepted s @ [c] \<and> accepting s'"
    and enqueue_closed: "\<not> accepting s \<Longrightarrow> \<exists>e. enqueue c s = Inl e"
begin

fun enqueue_all :: "'c list \<Rightarrow> 's \<Rightarrow> 's result" where
  "enqueue_all [] s = Inr s"
| "enqueue_all (c # cs) s = rbind (enqueue c s) (enqueue_all cs)"

lemma enqueue_all_accepted:
  "accepting s \<Longrightarrow> \<exists>s'. enqueue_all cs s = Inr s' \<and> accepted s' = accepted s @ cs \<and> accepting s'"
proof (induction cs arbitrary: s)
  case (Cons c cs)
  obtain s1 where "enqueue c s = Inr s1" "accepted s1 = accepted s @ [c]" "accepting s1"
    using enqueue_law [OF Cons.prems] by blast
  with Cons.IH [of s1] show ?case by auto
qed simp

end

subsection \<open>The strand\<close>

text \<open>Where the worker thread is: at the head of its loop, in \<open>ProcessEvents\<close>, or gone.\<close>

datatype strand_phase = Waiting | Running | Stopped

record 'c Strand =
  st_abort :: bool
  st_requests :: "'c list"
  st_processing :: "'c list"
  st_phase :: strand_phase
  st_ran :: "'c list"

definition Strand_new :: "'c Strand" where
  "Strand_new = \<lparr>st_abort = False, st_requests = [], st_processing = [], st_phase = Waiting, st_ran = []\<rparr>"

definition Strand_Enqueue :: "'c \<Rightarrow> 'c Strand \<Rightarrow> 'c Strand result" where
  "Strand_Enqueue callback s =
     (if st_abort s then Inl Runtime_error else Inr (s\<lparr>st_requests := st_requests s @ [callback]\<rparr>))"

text \<open>
  \<open>Shutdown\<close> sets the flag, then, in a critical section, takes both queues away, and then
  waits for the worker to be gone.
\<close>

definition Strand_abort :: "'c Strand \<Rightarrow> 'c Strand" where
  "Strand_abort s = s\<lparr>st_abort := True\<rparr>"

definition Strand_clear :: "'c Strand \<Rightarrow> 'c Strand" where
  "Strand_clear s = s\<lparr>st_requests := [], st_processing := []\<rparr>"

text \<open>One round of \<open>EventLoop\<close> up to \<open>ProcessEvents\<close>; \<open>None\<close> while the wait lasts.\<close>

definition Strand_EventLoop :: "'c Strand \<Rightarrow> 'c Strand option" where
  "Strand_EventLoop s =
     (if st_requests s = [] \<and> \<not> st_abort s then None
      else if st_abort s then Some (s\<lparr>st_phase := Stopped\<rparr>)
      else Some (s\<lparr>st_processing := st_requests s, st_requests := [], st_phase := Running\<rparr>))"

text \<open>One round of the loop of \<open>ProcessEvents\<close>, or its end.\<close>

definition Strand_ProcessEvents :: "'c Strand \<Rightarrow> 'c Strand" where
  "Strand_ProcessEvents s =
     (case st_processing s of
        [] \<Rightarrow> s\<lparr>st_phase := Waiting\<rparr>
      | callback # rest \<Rightarrow>
          (let s1 = s\<lparr>st_processing := rest\<rparr> in
           if st_abort s1 then s1\<lparr>st_phase := Waiting\<rparr>
           else s1\<lparr>st_ran := st_ran s1 @ [callback]\<rparr>))"

text \<open>The next step of the worker thread, if it can take one.\<close>

fun worker_step :: "'c Strand \<Rightarrow> 'c Strand option" where
  "worker_step s =
     (case st_phase s of
        Waiting \<Rightarrow> Strand_EventLoop s
      | Running \<Rightarrow> Some (Strand_ProcessEvents s)
      | Stopped \<Rightarrow> None)"

text \<open>Up to \<open>k\<close> steps of the worker with no other thread in between.\<close>

fun worker_steps :: "nat \<Rightarrow> 'c Strand \<Rightarrow> 'c Strand" where
  "worker_steps 0 s = s"
| "worker_steps (Suc k) s = (case worker_step s of None \<Rightarrow> s | Some s' \<Rightarrow> worker_steps k s')"

text \<open>All interleavings of clients and worker, with the callbacks accepted so far.\<close>

inductive strand_run :: "'c list \<Rightarrow> 'c Strand \<Rightarrow> bool" where
  start: "strand_run [] Strand_new"
| enqueue: "strand_run cs s \<Longrightarrow> Strand_Enqueue c s = Inr s' \<Longrightarrow> strand_run (cs @ [c]) s'"
| abort: "strand_run cs s \<Longrightarrow> strand_run cs (Strand_abort s)"
| clear: "strand_run cs s \<Longrightarrow> st_abort s \<Longrightarrow> strand_run cs (Strand_clear s)"
| worker: "strand_run cs s \<Longrightarrow> worker_step s = Some s' \<Longrightarrow> strand_run cs s'"

definition strand_accepted :: "'c Strand \<Rightarrow> 'c list" where
  "strand_accepted s = st_ran s @ st_processing s @ st_requests s"

interpretation st: executor Strand_Enqueue strand_accepted "\<lambda>s. \<not> st_abort s"
  by unfold_locales (auto simp: Strand_Enqueue_def strand_accepted_def)

lemma worker_step_cases:
  assumes "worker_step s = Some s'"
  obtains (stop) "st_abort s" "s' = s\<lparr>st_phase := Stopped\<rparr>"
  | (take) "\<not> st_abort s" "st_phase s = Waiting"
      "s' = s\<lparr>st_processing := st_requests s, st_requests := [], st_phase := Running\<rparr>"
  | (finish) "st_phase s = Running" "st_processing s = []" "s' = s\<lparr>st_phase := Waiting\<rparr>"
  | (discard) c rest where "st_abort s" "st_processing s = c # rest"
      "s' = s\<lparr>st_processing := rest, st_phase := Waiting\<rparr>"
  | (run) c rest where "\<not> st_abort s" "st_phase s = Running" "st_processing s = c # rest"
      "s' = s\<lparr>st_processing := rest, st_ran := st_ran s @ [c]\<rparr>"
  using assms
  by (auto simp: Strand_EventLoop_def Strand_ProcessEvents_def Let_def split: strand_phase.splits list.splits if_splits)

text \<open>
  The worker enters \<open>ProcessEvents\<close> only from an emptied queue, so nothing is overwritten;
  what ran is what was accepted first.
\<close>

lemma strand_run_inv:
  "strand_run cs s \<Longrightarrow>
     prefix (st_ran s) cs \<and>
     (\<not> st_abort s \<longrightarrow> cs = strand_accepted s \<and> st_phase s \<noteq> Stopped \<and> (st_phase s = Waiting \<longrightarrow> st_processing s = []))"
proof (induction rule: strand_run.induct)
  case (enqueue cs s c s')
  then show ?case by (auto simp: Strand_Enqueue_def strand_accepted_def split: if_splits)
next
  case (worker cs s s')
  from worker.hyps(2) worker.IH show ?case
    by (cases rule: worker_step_cases) (auto simp: strand_accepted_def)
qed (auto simp: Strand_new_def strand_accepted_def Strand_abort_def Strand_clear_def)

lemma worker_runs_batch:
  assumes "\<not> st_abort s" and "st_phase s = Running"
  shows "worker_steps (Suc (length (st_processing s))) s =
     s\<lparr>st_processing := [], st_ran := st_ran s @ st_processing s, st_phase := Waiting\<rparr>"
  using assms
proof (induction "st_processing s" arbitrary: s)
  case Nil
  then show ?case by (simp add: Strand_ProcessEvents_def)
next
  case (Cons c cs)
  let ?s1 = "s\<lparr>st_processing := cs, st_ran := st_ran s @ [c]\<rparr>"
  from Cons.hyps(2) [symmetric] Cons.prems have "worker_step s = Some ?s1"
    by (simp add: Strand_ProcessEvents_def)
  moreover have "worker_steps (Suc (length cs)) ?s1 =
      ?s1\<lparr>st_processing := [], st_ran := st_ran ?s1 @ cs, st_phase := Waiting\<rparr>"
    using Cons.hyps(1) [of ?s1] Cons.prems by simp
  ultimately show ?case by (simp add: Cons.hyps(2) [symmetric])
qed

lemma worker_steps_add: "worker_steps (j + k) s = worker_steps k (worker_steps j s)"
proof (induction j arbitrary: s)
  case (Suc j)
  show ?case
  proof (cases "worker_step s")
    case None
    have "worker_steps k s = s" using None by (cases k) simp_all
    with None show ?thesis by simp
  qed (use Suc in simp)
qed simp

lemma worker_takes_and_runs:
  assumes "\<not> st_abort s" and "st_phase s = Waiting" and "st_requests s \<noteq> []"
  shows "worker_steps (length (st_requests s) + 2) s =
     s\<lparr>st_processing := [], st_requests := [], st_ran := st_ran s @ st_requests s\<rparr>"
proof -
  let ?s1 = "s\<lparr>st_processing := st_requests s, st_requests := [], st_phase := Running\<rparr>"
  have "worker_step s = Some ?s1" using assms by (simp add: Strand_EventLoop_def)
  moreover have "worker_steps (Suc (length (st_processing ?s1))) ?s1 =
      ?s1\<lparr>st_processing := [], st_ran := st_ran ?s1 @ st_processing ?s1, st_phase := Waiting\<rparr>"
    by (rule worker_runs_batch) (use assms in simp_all)
  ultimately show ?thesis using assms by simp
qed

lemma worker_drains:
  assumes "\<not> st_abort s" and "st_phase s \<noteq> Stopped" and "st_phase s = Waiting \<longrightarrow> st_processing s = []"
  shows "worker_steps (length (st_processing s) + length (st_requests s) + 3) s =
     s\<lparr>st_processing := [], st_requests := [], st_ran := strand_accepted s, st_phase := Waiting\<rparr>"
proof -
  have drain: "worker_steps (length (st_requests t) + 2) t =
      t\<lparr>st_processing := [], st_requests := [], st_ran := st_ran t @ st_requests t\<rparr>"
    if "\<not> st_abort t" "st_phase t = Waiting" "st_processing t = []" for t :: "'a Strand"
  proof (cases "st_requests t = []")
    case True
    then have "worker_step t = None" using that by (simp add: Strand_EventLoop_def)
    then show ?thesis using True that by simp
  qed (use worker_takes_and_runs that in blast)
  consider "st_phase s = Running" | "st_phase s = Waiting" using assms(2) by (cases "st_phase s") auto
  then show ?thesis
  proof cases
    case 1
    let ?t = "s\<lparr>st_processing := [], st_ran := st_ran s @ st_processing s, st_phase := Waiting\<rparr>"
    have "worker_steps (Suc (length (st_processing s)) + (length (st_requests ?t) + 2)) s =
        worker_steps (length (st_requests ?t) + 2) ?t"
      unfolding worker_steps_add worker_runs_batch [OF assms(1) 1] ..
    also have "\<dots> = ?t\<lparr>st_processing := [], st_requests := [], st_ran := st_ran ?t @ st_requests ?t\<rparr>"
      by (rule drain) (use assms in simp_all)
    finally show ?thesis by (simp add: strand_accepted_def add.commute add.left_commute eval_nat_numeral)
  next
    case 2
    let ?t = "s\<lparr>st_processing := [], st_requests := [], st_ran := strand_accepted s, st_phase := Waiting\<rparr>"
    have p: "st_processing s = []" using assms(3) 2 by simp
    have "worker_steps (length (st_requests s) + 2) s = ?t"
      unfolding drain [OF assms(1) 2 p] using 2 p by (cases s) (simp add: strand_accepted_def)
    then have "worker_steps (length (st_requests s) + 2 + 1) s = worker_steps 1 ?t"
      by (subst worker_steps_add) simp
    also have "\<dots> = ?t" using assms(1) by (simp add: Strand_EventLoop_def)
    finally have "worker_steps (length (st_requests s) + 2 + 1) s = ?t" .
    moreover have "length (st_processing s) + length (st_requests s) + 3 = length (st_requests s) + 2 + 1"
      by (simp add: p)
    ultimately show ?thesis by (simp only:)
  qed
qed

lemma worker_stops:
  assumes "st_abort s"
  shows "st_phase (worker_steps 2 s) = Stopped \<and> st_ran (worker_steps 2 s) = st_ran s"
  using assms
  by (cases "st_phase s")
    (auto simp: numeral_2_eq_2 Strand_EventLoop_def Strand_ProcessEvents_def Let_def split: list.splits)

subsection \<open>The thread pool\<close>

text \<open>
  A worker of the pool. \<open>w_thread\<close> tells whether it owns a thread that can be joined. An
  operation that throws after it changed the worker returns both the exception and the worker.
\<close>

record 'c ThreadPoolWorker =
  w_abort :: bool
  w_requests :: "'c list"
  w_processing :: "'c list"
  w_idle :: bool
  w_thread :: bool
  w_index :: int

definition ThreadPoolWorker_new :: "int \<Rightarrow> 'c ThreadPoolWorker" where
  "ThreadPoolWorker_new index =
     \<lparr>w_abort = False, w_requests = [], w_processing = [], w_idle = True, w_thread = False, w_index = index\<rparr>"

text \<open>Moving a worker keeps neither its thread nor its queues.\<close>

definition ThreadPoolWorker_move :: "'c ThreadPoolWorker \<Rightarrow> 'c ThreadPoolWorker" where
  "ThreadPoolWorker_move worker = (ThreadPoolWorker_new (w_index worker))\<lparr>w_idle := w_idle worker\<rparr>"

definition SetWorkerActivity :: "bool \<Rightarrow> 'c ThreadPoolWorker \<Rightarrow> 'c ThreadPoolWorker" where
  "SetWorkerActivity is_active w = w\<lparr>w_idle := \<not> is_active\<rparr>"

text \<open>
  \<open>UpdateWorkerThread\<close> gives back whether it left the lock locked: starting a thread
  unlocks it.
\<close>

definition Worker_UpdateWorkerThread :: "'c ThreadPoolWorker \<Rightarrow> bool \<times> 'c ThreadPoolWorker" where
  "Worker_UpdateWorkerThread w =
     (if \<not> w_idle w then (True, w) else (False, w\<lparr>w_thread := True, w_idle := False\<rparr>))"

text \<open>The second \<open>lock.unlock()\<close> throws if the lock is not held any more.\<close>

definition Worker_Enqueue :: "'c \<Rightarrow> 'c ThreadPoolWorker \<Rightarrow> exn option \<times> 'c ThreadPoolWorker" where
  "Worker_Enqueue callback w =
     (if w_abort w then (Some Runtime_error, w)
      else
        let (locked, w1) = Worker_UpdateWorkerThread w;
            w2 = w1\<lparr>w_requests := w_requests w1 @ [callback]\<rparr>
        in (if locked then None else Some System_error, w2))"

text \<open>Locking a \<open>std::mutex\<close> that the thread already holds is undefined.\<close>

definition Worker_Shutdown :: "'c ThreadPoolWorker \<Rightarrow> 'c ThreadPoolWorker result" where
  "Worker_Shutdown w =
     (if w_abort w then Inr w
      else
        let w1 = w\<lparr>w_abort := True\<rparr> in
        if \<not> w_thread w1 then Inr w1 else Inl Undefined_behaviour)"

text \<open>
  One round of \<open>EventLoop\<close> up to \<open>ProcessEvents\<close>; \<open>notified\<close> is the result of the
  wait, which takes place only if the request queue is empty. The flag of the result tells
  whether the loop goes on.
\<close>

definition Worker_EventLoop :: "bool \<Rightarrow> 'c ThreadPoolWorker \<Rightarrow> bool \<times> 'c ThreadPoolWorker" where
  "Worker_EventLoop notified w =
     (let result = (if w_requests w = [] then notified else False) in
      if w_abort w \<or> \<not> result then (False, SetWorkerActivity False (w\<lparr>w_idle := True\<rparr>))
      else (True, SetWorkerActivity True (w\<lparr>w_processing := w_requests w, w_requests := []\<rparr>)))"

record 'c ThreadPoolExecutor =
  m_pool_size :: int
  m_round_robin_index :: int
  m_workers :: "'c ThreadPoolWorker list"
  pool_abort :: bool

text \<open>
  \<open>shared_from_this\<close> in the constructor, before any \<open>shared_ptr\<close> owns the pool, throws.
  A negative size throws in \<open>reserve\<close>.
\<close>

definition ThreadPoolExecutor_new :: "int \<Rightarrow> 'c ThreadPoolExecutor result" where
  "ThreadPoolExecutor_new pool_size =
     (if pool_size < 0 then Inl Invalid_argument
      else if pool_size > 0 then Inl Bad_weak_ptr
      else Inr \<lparr>m_pool_size = pool_size, m_round_robin_index = 0, m_workers = [], pool_abort = False\<rparr>)"

fun find_idle :: "int \<Rightarrow> 'c ThreadPoolWorker list \<Rightarrow> int" where
  "find_idle i [] = -1"
| "find_idle i (w # ws) = (if w_idle w then i else find_idle (i + 1) ws)"

definition FindIdleWorker :: "'c ThreadPoolExecutor \<Rightarrow> int" where
  "FindIdleWorker p = find_idle 0 (m_workers p)"

fun find_idle_workers :: "nat \<Rightarrow> int \<Rightarrow> 'c ThreadPoolWorker list \<Rightarrow> int list" where
  "find_idle_workers k i [] = []"
| "find_idle_workers 0 i (w # ws) = []"
| "find_idle_workers (Suc k) i (w # ws) =
     (if w_idle w then i # find_idle_workers k (i + 1) ws else find_idle_workers (Suc k) (i + 1) ws)"

text \<open>\<open>thread_count\<close> is compared with a \<open>size_t\<close>, so a negative one means no limit.\<close>

definition FindIdleWorkers :: "int \<Rightarrow> 'c ThreadPoolExecutor \<Rightarrow> int list" where
  "FindIdleWorkers thread_count p =
     find_idle_workers (if thread_count < 0 then length (m_workers p) else nat thread_count) 0 (m_workers p)"

text \<open>The remainder of C++ has the sign of the dividend; the atomic counter wraps around.\<close>

definition cpp_mod :: "int \<Rightarrow> int \<Rightarrow> int" where
  "cpp_mod a b = (if a \<ge> 0 then a mod \<bar>b\<bar> else - ((- a) mod \<bar>b\<bar>))"

definition RoundRobinNext :: "'c ThreadPoolExecutor \<Rightarrow> (int \<times> 'c ThreadPoolExecutor) result" where
  "RoundRobinNext p =
     (let p1 = p\<lparr>m_round_robin_index := to_int (m_round_robin_index p + 1)\<rparr> in
      if m_pool_size p1 = 0 then Inl Undefined_behaviour
      else Inr (cpp_mod (m_round_robin_index p) (m_pool_size p1), p1))"

definition Pool_Enqueue :: "'c \<Rightarrow> 'c ThreadPoolExecutor \<Rightarrow> (exn option \<times> 'c ThreadPoolExecutor) result" where
  "Pool_Enqueue callback p =
     (let on = (\<lambda>i p. if 0 \<le> i \<and> i < int (length (m_workers p))
        then let (e, w) = Worker_Enqueue callback (m_workers p ! nat i)
             in Inr (e, p\<lparr>m_workers := (m_workers p)[nat i := w]\<rparr>)
        else Inl Undefined_behaviour);
          idle_worker_index = FindIdleWorker p
      in if idle_worker_index \<noteq> -1 then on idle_worker_index p
         else rbind (RoundRobinNext p) (\<lambda>(next_worker_index, p1). on next_worker_index p1))"

fun shutdown_workers :: "'c ThreadPoolWorker list \<Rightarrow> 'c ThreadPoolWorker list result" where
  "shutdown_workers [] = Inr []"
| "shutdown_workers (w # ws) =
     rbind (Worker_Shutdown w) (\<lambda>w'. rbind (shutdown_workers ws) (\<lambda>ws'. Inr (w' # ws')))"

definition Pool_Shutdown :: "'c ThreadPoolExecutor \<Rightarrow> 'c ThreadPoolExecutor result" where
  "Pool_Shutdown p =
     (if pool_abort p then Inr p
      else rbind (shutdown_workers (m_workers p)) (\<lambda>ws. Inr (p\<lparr>pool_abort := True, m_workers := ws\<rparr>)))"

text \<open>
  Handing \<open>k\<close> tasks from the front of the worker's own queue to worker \<open>i\<close>. An exception
  of \<open>Enqueue\<close> leaves the loop before the task is popped.
\<close>

fun move_tasks ::
  "nat \<Rightarrow> int \<Rightarrow> 'c list \<Rightarrow> 'c ThreadPoolExecutor \<Rightarrow> (exn option \<times> 'c list \<times> 'c ThreadPoolExecutor) result" where
  "move_tasks 0 i q p = Inr (None, q, p)"
| "move_tasks (Suc k) i q p =
     (if i \<ge> m_pool_size p then Inr (Some Out_of_range, q, p)
      else if i < 0 \<or> int (length (m_workers p)) \<le> i then Inl Undefined_behaviour
      else case q of
        [] \<Rightarrow> Inl Undefined_behaviour
      | task # rest \<Rightarrow>
          (let (e, w) = Worker_Enqueue task (m_workers p ! nat i);
               p1 = p\<lparr>m_workers := (m_workers p)[nat i := w]\<rparr>
           in if e \<noteq> None then Inr (e, q, p1) else move_tasks k i rest p1))"

fun balance_loop ::
  "nat \<Rightarrow> int list \<Rightarrow> 'c list \<Rightarrow> 'c ThreadPoolExecutor \<Rightarrow> (exn option \<times> 'c list \<times> 'c ThreadPoolExecutor) result" where
  "balance_loop k [] q p = Inr (None, q, p)"
| "balance_loop k (i # is) q p =
     rbind (move_tasks k i q p) (\<lambda>(e, q1, p1). if e \<noteq> None then Inr (e, q1, p1) else balance_loop k is q1 p1)"

definition BalanceWork ::
  "'c list \<Rightarrow> 'c ThreadPoolExecutor \<Rightarrow> (exn option \<times> 'c list \<times> 'c ThreadPoolExecutor) result" where
  "BalanceWork process_queue p =
     (let task_count = int (length process_queue) in
      if task_count \<le> 1 then Inr (None, process_queue, p)
      else
        let max_idle_workers = min (m_pool_size p - 1) (task_count - 1);
            idle_markers = FindIdleWorkers max_idle_workers p
        in if length idle_markers = 0 then Inr (None, process_queue, p)
           else balance_loop (length process_queue div (length idle_markers + 1)) idle_markers process_queue p)"

text \<open>
  \<open>ProcessEvents\<close> of worker \<open>i\<close>: first \<open>BalanceWork\<close>, then one round of its loop at a time,
  with the callback that is run, if any.
\<close>

definition Worker_ProcessEvents_begin :: "nat \<Rightarrow> 'c ThreadPoolExecutor \<Rightarrow> (exn option \<times> 'c ThreadPoolExecutor) result" where
  "Worker_ProcessEvents_begin i p =
     rbind (BalanceWork (w_processing (m_workers p ! i)) p) (\<lambda>(e, q1, p1).
       Inr (e, p1\<lparr>m_workers := (m_workers p1)[i := (m_workers p1 ! i)\<lparr>w_processing := q1\<rparr>]\<rparr>))"

definition Worker_ProcessEvents_round :: "'c ThreadPoolWorker \<Rightarrow> 'c option \<times> 'c ThreadPoolWorker" where
  "Worker_ProcessEvents_round w =
     (case w_processing w of
        [] \<Rightarrow> (None, SetWorkerActivity False w)
      | callback # rest \<Rightarrow>
          (let w1 = w\<lparr>w_processing := rest\<rparr> in
           if w_abort w1 then (None, w1\<lparr>w_idle := True\<rparr>) else (Some callback, w1)))"

lemma find_idle_Some:
  "find_idle i ws \<noteq> -1 \<Longrightarrow> 0 \<le> i \<Longrightarrow>
     i \<le> find_idle i ws \<and> find_idle i ws < i + int (length ws) \<and> w_idle (ws ! nat (find_idle i ws - i))"
proof (induction i ws rule: find_idle.induct)
  case (2 i w ws)
  show ?case
  proof (cases "w_idle w")
    case False
    let ?f = "find_idle (i + 1) ws"
    have IH: "i + 1 \<le> ?f \<and> ?f < i + 1 + int (length ws) \<and> w_idle (ws ! nat (?f - (i + 1)))"
      using 2 False by simp
    then have "nat (?f - i) = Suc (nat (?f - (i + 1)))" by (simp add: Suc_nat_eq_nat_zadd1)
    with IH False show ?thesis by simp
  qed simp
qed simp

end
