(* ===== verification/Executor_Properties.thy ===== *)
theory Executor_Properties
  imports Async_Executor
begin

section \<open>Properties of the executors\<close>

text \<open>
  The strand runs what it accepted, once and in order, and gets to the end of it; shutting it
  down stops the worker. The index arithmetic of the thread pool, and why the pool as written
  cannot be used.
\<close>

subsection \<open>The strand\<close>

text \<open>
  C28. Whatever the interleaving of clients, worker and shutdown, the callbacks that have run are
  a prefix of the accepted ones, each once and in the order of acceptance; and as long as the
  strand is not shut down, nothing accepted is lost: what did not run yet is still queued.
\<close>

theorem strand_runs_in_order:
  assumes "strand_run cs s"
  shows "prefix (st_ran s) cs \<and> (\<not> st_abort s \<longrightarrow> cs = st_ran s @ st_processing s @ st_requests s)"
  using strand_run_inv [OF assms] by (auto simp: strand_accepted_def)

definition sample_strand :: "nat Strand" where
  "sample_strand = worker_steps 2 (projr (Strand_Enqueue 8 (projr (Strand_Enqueue 7 Strand_new))))"

lemma sample_strand_run: "strand_run [7, 8] sample_strand"
proof -
  have e: "strand_run ([] @ [7 :: nat]) (projr (Strand_Enqueue 7 Strand_new))"
    by (rule strand_run.enqueue [OF strand_run.start]) (simp add: Strand_Enqueue_def Strand_new_def)
  have "strand_run (([] @ [7]) @ [8 :: nat]) (projr (Strand_Enqueue 8 (projr (Strand_Enqueue 7 Strand_new))))"
    by (rule strand_run.enqueue [OF e]) (simp add: Strand_Enqueue_def Strand_new_def)
  moreover have "strand_run cs s \<Longrightarrow> strand_run cs (worker_steps k s)" for cs and s :: "nat Strand" and k
    by (induction k arbitrary: s) (auto split: option.splits intro: strand_run.worker simp del: worker_step.simps)
  ultimately show ?thesis by (simp add: sample_strand_def)
qed

theorem strand_runs_in_order_witness:
  "st_ran sample_strand = [7] \<and> [7, 8] = st_ran sample_strand @ st_processing sample_strand @ st_requests sample_strand"
proof -
  have "\<not> st_abort sample_strand" "st_ran sample_strand = [7]" by code_simp+
  with strand_runs_in_order [OF sample_strand_run] show ?thesis by simp
qed

text \<open>
  C29. The strand makes progress. If no client interferes, the worker of a strand that is not
  shut down has, after a number of steps bounded by the number of queued callbacks, run every
  accepted callback and waits with empty queues; and after a shutdown it is gone within two
  steps without running anything more, so that the \<open>join\<close> of \<open>Shutdown\<close> returns.
\<close>

theorem strand_drains_and_stops:
  assumes "strand_run cs s"
  shows "(\<not> st_abort s \<longrightarrow>
       (let s' = worker_steps (length (st_processing s) + length (st_requests s) + 3) s
        in st_ran s' = cs \<and> st_processing s' = [] \<and> st_requests s' = [] \<and> worker_step s' = None)) \<and>
     (st_abort s \<longrightarrow> st_phase (worker_steps 2 s) = Stopped \<and> st_ran (worker_steps 2 s) = st_ran s)"
proof (cases "st_abort s")
  case False
  with strand_run_inv [OF assms] have "cs = strand_accepted s" "st_phase s \<noteq> Stopped"
    "st_phase s = Waiting \<longrightarrow> st_processing s = []" by auto
  with False worker_drains [of s] show ?thesis by (simp add: Let_def Strand_EventLoop_def)
qed (use worker_stops in simp)

theorem strand_drains_and_stops_witness:
  "st_ran (worker_steps 4 sample_strand) = [7, 8]"
proof -
  have "\<not> st_abort sample_strand" "length (st_processing sample_strand) = 1" "length (st_requests sample_strand) = 0"
    by code_simp+
  with strand_drains_and_stops [OF sample_strand_run] show ?thesis by (simp add: Let_def)
qed

subsection \<open>The thread pool\<close>

text \<open>
  Round robin. The index that the pool computes for its workers lies in range exactly as
  long as its counter is not negative or a multiple of the pool size: the counter is an
  \<open>int\<close> that wraps around after \<open>2 ^ 31\<close> calls, and then the remainder is negative and the
  access to the vector of workers undefined.
\<close>

lemma round_robin_in_range:
  assumes "0 < m_pool_size p" and "in_int (m_round_robin_index p)"
    and "RoundRobinNext p = Inr (i, p')"
  shows "(0 \<le> i \<and> i < m_pool_size p \<longleftrightarrow>
       0 \<le> m_round_robin_index p \<or> m_pool_size p dvd m_round_robin_index p) \<and>
     m_round_robin_index p' =
       (if m_round_robin_index p = 2 ^ 31 - 1 then - (2 ^ 31) else m_round_robin_index p + 1)"
proof -
  let ?c = "m_round_robin_index p" and ?k = "m_pool_size p"
  have i: "i = cpp_mod ?c ?k" and p': "m_round_robin_index p' = to_int (?c + 1)"
    using assms(1,3) by (auto simp: RoundRobinNext_def Let_def)
  have "0 \<le> i \<and> i < ?k \<longleftrightarrow> 0 \<le> ?c \<or> ?k dvd ?c"
  proof (cases "0 \<le> ?c")
    case False
    have "i = - ((- ?c) mod ?k)" using False assms(1) by (simp add: i cpp_mod_def)
    moreover have "0 \<le> (- ?c) mod ?k" "(- ?c) mod ?k < ?k" using assms(1) by simp_all
    ultimately have "0 \<le> i \<and> i < ?k \<longleftrightarrow> (- ?c) mod ?k = 0" by linarith
    then show ?thesis using False by (simp add: mod_eq_0_iff_dvd)
  qed (use assms(1) in \<open>simp add: i cpp_mod_def\<close>)
  moreover have "to_int (?c + 1) = (if ?c = 2 ^ 31 - 1 then - (2 ^ 31) else ?c + 1)"
    using assms(2) by (auto simp: in_int_def) (simp add: to_int_def)
  ultimately show ?thesis using p' by simp
qed

text \<open>
  The thread pool cannot be used as written. A pool with at least one worker is not
  constructed, because its constructor asks for a shared pointer to itself before one exists;
  and in a pool assembled otherwise, handing a callback to an idle worker queues it but throws,
  since the worker's lock has already been released when it is unlocked.
\<close>

lemma pool_rejects_work:
  assumes "0 < n" and "\<forall>w \<in> set (m_workers p). \<not> w_abort w" and "FindIdleWorker p \<noteq> -1"
  shows "ThreadPoolExecutor_new n = (Inl Bad_weak_ptr :: 'c ThreadPoolExecutor result) \<and>
     (\<exists>p' i. Pool_Enqueue c p = Inr (Some System_error, p') \<and> i < length (m_workers p) \<and>
        w_idle (m_workers p ! i) \<and> w_requests (m_workers p' ! i) = w_requests (m_workers p ! i) @ [c])"
proof -
  let ?i = "find_idle 0 (m_workers p)"
  have i: "0 \<le> ?i" "?i < int (length (m_workers p))" "w_idle (m_workers p ! nat ?i)"
    using find_idle_Some [of 0 "m_workers p"] assms(3) by (auto simp: FindIdleWorker_def)
  then have n: "nat ?i < length (m_workers p)" by simp
  with assms(2) have "\<not> w_abort (m_workers p ! nat ?i)" by simp
  then have "Worker_Enqueue c (m_workers p ! nat ?i) = (Some System_error, (m_workers p ! nat ?i)
      \<lparr>w_thread := True, w_idle := False, w_requests := w_requests (m_workers p ! nat ?i) @ [c]\<rparr>)"
    using i(3) by (simp add: Worker_Enqueue_def Worker_UpdateWorkerThread_def)
  then have "Pool_Enqueue c p = Inr (Some System_error, p\<lparr>m_workers := (m_workers p)[nat ?i := (m_workers p ! nat ?i)
      \<lparr>w_thread := True, w_idle := False, w_requests := w_requests (m_workers p ! nat ?i) @ [c]\<rparr>]\<rparr>)"
    using assms(3) i(1,2) by (simp add: Pool_Enqueue_def FindIdleWorker_def Let_def)
  moreover have "ThreadPoolExecutor_new n = Inl Bad_weak_ptr" using assms(1) by (simp add: ThreadPoolExecutor_new_def)
  ultimately show ?thesis using i(3) n by force
qed

end
