(* ===== verification/Timer_Queue.thy ===== *)
theory Timer_Queue
  imports Async_Executor
begin

section \<open>Timers\<close>

text \<open>
  \<open>src/core/timer.h\<close> and \<open>.cpp\<close>. Timer events live in a heap and are named by their
  position, as the code shares them by pointer: the deadline of an event can change while the
  event is in the worker's ordered queue. The queue is a \<open>std::multiset\<close> compared by
  deadline; it is modelled by its elements in iteration order. Its operations are defined as
  long as the order is that of the current deadlines, and are undefined behaviour otherwise,
  as for any container whose keys were changed in place. A new element goes behind those with
  an equal deadline, and a search yields the first of them. Times are milliseconds. The
  executor's \<open>Enqueue\<close> is a parameter with its state.
\<close>

subsection \<open>Timer events\<close>

record 'c TimerEvent =
  te_cancelled :: bool
  te_deadline :: int
  te_delay :: int
  te_callback :: 'c

datatype TimerEventType = ADD | REMOVE

record 'c TimerQueue =
  timers :: "'c TimerEvent list"
  tq_requests :: "(nat \<times> TimerEventType) list"
  tq_process :: "nat list"
  tq_abort :: bool
  tq_idle :: bool
  tq_worker :: bool
  tq_running :: bool

definition TimerQueue_new :: "'c TimerQueue" where
  "TimerQueue_new = \<lparr>timers = [], tq_requests = [], tq_process = [], tq_abort = False, tq_idle = True,
     tq_worker = False, tq_running = False\<rparr>"

abbreviation event_at :: "'c TimerQueue \<Rightarrow> nat \<Rightarrow> 'c TimerEvent" where
  "event_at q t \<equiv> timers q ! t"

definition upd_event :: "nat \<Rightarrow> ('c TimerEvent \<Rightarrow> 'c TimerEvent) \<Rightarrow> 'c TimerQueue \<Rightarrow> 'c TimerQueue" where
  "upd_event t f q = q\<lparr>timers := (timers q)[t := f (timers q ! t)]\<rparr>"

definition TimerEvent_new :: "int \<Rightarrow> int \<Rightarrow> 'c \<Rightarrow> 'c TimerEvent" where
  "TimerEvent_new now delay callback =
     \<lparr>te_cancelled = False, te_deadline = now + delay, te_delay = delay, te_callback = callback\<rparr>"

definition Deadline :: "'c TimerQueue \<Rightarrow> nat \<Rightarrow> int" where
  "Deadline q t = te_deadline (event_at q t)"

definition SetDeadline :: "int \<Rightarrow> int \<Rightarrow> nat \<Rightarrow> 'c TimerQueue \<Rightarrow> 'c TimerQueue" where
  "SetDeadline now delay t = upd_event t (\<lambda>e. e\<lparr>te_deadline := now + delay\<rparr>)"

definition Event_Cancel :: "nat \<Rightarrow> 'c TimerQueue \<Rightarrow> 'c TimerQueue" where
  "Event_Cancel t = upd_event t (\<lambda>e. e\<lparr>te_cancelled := True\<rparr>)"

definition Event_Reset :: "nat \<Rightarrow> 'c TimerQueue \<Rightarrow> 'c TimerQueue" where
  "Event_Reset t = upd_event t (\<lambda>e. e\<lparr>te_cancelled := False\<rparr>)"

definition SetDelay :: "int \<Rightarrow> nat \<Rightarrow> 'c TimerQueue \<Rightarrow> 'c TimerQueue" where
  "SetDelay delay t = upd_event t (\<lambda>e. e\<lparr>te_delay := delay\<rparr>)"

definition SetCallback :: "'c \<Rightarrow> nat \<Rightarrow> 'c TimerQueue \<Rightarrow> 'c TimerQueue" where
  "SetCallback callback t = upd_event t (\<lambda>e. e\<lparr>te_callback := callback\<rparr>)"

definition Expired :: "'c TimerQueue \<Rightarrow> int \<Rightarrow> nat \<Rightarrow> bool" where
  "Expired q time t \<longleftrightarrow> Deadline q t \<le> time"

definition Execute :: "('c \<Rightarrow> 's \<Rightarrow> 's result) \<Rightarrow> 'c TimerQueue \<Rightarrow> nat \<Rightarrow> 's \<Rightarrow> 's result" where
  "Execute enqueue q t ex =
     (if te_cancelled (event_at q t) then Inr ex else enqueue (te_callback (event_at q t)) ex)"

subsection \<open>Requests to the queue\<close>

definition UpdateWorkerThread :: "'c TimerQueue \<Rightarrow> 'c TimerQueue" where
  "UpdateWorkerThread q =
     (if \<not> tq_idle q then q else q\<lparr>tq_worker := True, tq_running := True, tq_idle := False\<rparr>)"

definition AddTimer :: "nat \<Rightarrow> 'c TimerQueue \<Rightarrow> 'c TimerQueue result" where
  "AddTimer t q =
     (if tq_abort q then Inl Runtime_error
      else let q1 = UpdateWorkerThread q in Inr (q1\<lparr>tq_requests := tq_requests q1 @ [(t, ADD)]\<rparr>))"

definition RemoveTimer :: "nat \<Rightarrow> 'c TimerQueue \<Rightarrow> 'c TimerQueue" where
  "RemoveTimer t q = q\<lparr>tq_requests := tq_requests q @ [(t, REMOVE)]\<rparr>"

definition TimerQueue_Shutdown :: "'c TimerQueue \<Rightarrow> 'c TimerQueue" where
  "TimerQueue_Shutdown q =
     (if tq_abort q then q
      else let q1 = q\<lparr>tq_abort := True\<rparr> in
        if \<not> tq_worker q1 then q1 else q1\<lparr>tq_requests := []\<rparr>)"

definition TimerQueue_Empty :: "'c TimerQueue \<Rightarrow> bool" where
  "TimerQueue_Empty q \<longleftrightarrow> tq_requests q = []"

definition TimerQueue_CreateTimer :: "int \<Rightarrow> int \<Rightarrow> 'c \<Rightarrow> 'c TimerQueue \<Rightarrow> nat \<times> 'c TimerQueue" where
  "TimerQueue_CreateTimer now delay callback q =
     (length (timers q), q\<lparr>timers := timers q @ [TimerEvent_new now delay callback]\<rparr>)"

subsection \<open>Deadline timers\<close>

definition DeadlineTimer_Cancel :: "nat \<Rightarrow> 'c TimerQueue \<Rightarrow> 'c TimerQueue" where
  "DeadlineTimer_Cancel t q = RemoveTimer t (Event_Cancel t q)"

definition DeadlineTimer_Reset :: "int \<Rightarrow> nat \<Rightarrow> 'c TimerQueue \<Rightarrow> 'c TimerQueue result" where
  "DeadlineTimer_Reset now t q =
     (let q1 = RemoveTimer t q;
          q2 = SetDeadline now (te_delay (event_at q1 t)) t q1
      in AddTimer t (Event_Reset t q2))"

definition DeadlineTimer_Reset_delay :: "int \<Rightarrow> int \<Rightarrow> nat \<Rightarrow> 'c TimerQueue \<Rightarrow> 'c TimerQueue result" where
  "DeadlineTimer_Reset_delay now delay t q = DeadlineTimer_Reset now t (SetDelay delay t q)"

definition DeadlineTimer_Reset_callback ::
  "int \<Rightarrow> 'c \<Rightarrow> int \<Rightarrow> nat \<Rightarrow> 'c TimerQueue \<Rightarrow> 'c TimerQueue result" where
  "DeadlineTimer_Reset_callback now callback delay t q =
     DeadlineTimer_Reset_delay now delay t (SetCallback callback t q)"

subsection \<open>The worker\<close>

definition in_order :: "'c TimerQueue \<Rightarrow> bool" where
  "in_order q \<longleftrightarrow> sorted (map (Deadline q) (tq_process q))"

definition AddTimerInternal :: "nat \<Rightarrow> 'c TimerQueue \<Rightarrow> 'c TimerQueue result" where
  "AddTimerInternal t q =
     (if \<not> in_order q then Inl Undefined_behaviour
      else Inr (q\<lparr>tq_process := takeWhile (\<lambda>u. Deadline q u \<le> Deadline q t) (tq_process q) @
                  t # dropWhile (\<lambda>u. Deadline q u \<le> Deadline q t) (tq_process q)\<rparr>))"

definition RemoveTimerInternal :: "nat \<Rightarrow> 'c TimerQueue \<Rightarrow> 'c TimerQueue result" where
  "RemoveTimerInternal t q =
     (if \<not> in_order q then Inl Undefined_behaviour
      else case find (\<lambda>u. Deadline q u = Deadline q t) (tq_process q) of
        None \<Rightarrow> Inr q
      | Some u \<Rightarrow> Inr (q\<lparr>tq_process := remove1 u (tq_process q)\<rparr>))"

fun process_requests :: "(nat \<times> TimerEventType) list \<Rightarrow> 'c TimerQueue \<Rightarrow> 'c TimerQueue result" where
  "process_requests [] q = Inr q"
| "process_requests ((t, event_type) # es) q =
     rbind (if event_type = ADD then AddTimerInternal t q else RemoveTimerInternal t q) (process_requests es)"

text \<open>The loop over the expired timers: what is left in the queue, and the executor.\<close>

fun expire_loop ::
  "('c \<Rightarrow> 's \<Rightarrow> 's result) \<Rightarrow> 'c TimerQueue \<Rightarrow> int \<Rightarrow> nat list \<Rightarrow> 's \<Rightarrow> (nat list \<times> 's) result" where
  "expire_loop enqueue q curr_time [] ex = Inr ([], ex)"
| "expire_loop enqueue q curr_time (t # ts) ex =
     (if \<not> Expired q curr_time t then Inr (t # ts, ex)
      else if te_cancelled (event_at q t) then expire_loop enqueue q curr_time ts ex
      else rbind (Execute enqueue q t ex) (expire_loop enqueue q curr_time ts))"

definition ProcessTimers ::
  "('c \<Rightarrow> 's \<Rightarrow> 's result) \<Rightarrow> int \<Rightarrow> (nat \<times> TimerEventType) list \<Rightarrow> 'c TimerQueue \<Rightarrow> 's \<Rightarrow>
   (int \<times> 'c TimerQueue \<times> 's) result" where
  "ProcessTimers enqueue curr_time events q ex =
     rbind (process_requests events q) (\<lambda>q1.
     rbind (expire_loop enqueue q1 curr_time (tq_process q1) ex) (\<lambda>(ts, ex1).
       let q2 = q1\<lparr>tq_process := ts\<rparr> in
       Inr (if ts = [] then curr_time + 5000 else Deadline q2 (hd ts), q2, ex1)))"

text \<open>
  One round of \<open>EventLoop\<close>: \<open>None\<close> while the wait lasts; \<open>timed_out\<close> tells whether the
  time of the wait has passed. The result carries the next deadline, if the loop goes on.
\<close>

definition TimerQueue_EventLoop ::
  "('c \<Rightarrow> 's \<Rightarrow> 's result) \<Rightarrow> bool \<Rightarrow> int \<Rightarrow> 'c TimerQueue \<Rightarrow> 's \<Rightarrow>
   (int option \<times> 'c TimerQueue \<times> 's) result option" where
  "TimerQueue_EventLoop enqueue timed_out now q ex =
     (let ready = (tq_requests q \<noteq> [] \<or> tq_abort q) in
      if \<not> ready \<and> \<not> timed_out then None
      else if tq_process q = [] \<and> \<not> ready
      then Some (Inr (None, q\<lparr>tq_idle := True, tq_running := False\<rparr>, ex))
      else if tq_abort q then Some (Inr (None, q\<lparr>tq_running := False\<rparr>, ex))
      else Some (rbind (ProcessTimers enqueue now (tq_requests q) (q\<lparr>tq_requests := []\<rparr>) ex)
        (\<lambda>(next_deadline, q1, ex1). Inr (Some next_deadline, q1, ex1))))"

subsection \<open>The order of the queue\<close>

lemma sorted_insert_upper:
  fixes f :: "'a \<Rightarrow> 'b :: linorder"
  assumes "sorted (map f xs)"
  shows "sorted (map f (takeWhile (\<lambda>u. f u \<le> f t) xs @ t # dropWhile (\<lambda>u. f u \<le> f t) xs))"
  using assms
proof (induction xs)
  case (Cons x xs)
  show ?case
  proof (cases "f x \<le> f t")
    case True
    with Cons show ?thesis by (auto dest: set_takeWhileD set_dropWhileD)
  next
    case False
    with Cons.prems show ?thesis by force
  qed
qed simp

lemma sorted_hd_Min:
  fixes f :: "'a \<Rightarrow> 'b :: linorder"
  shows "sorted (map f xs) \<Longrightarrow> xs \<noteq> [] \<Longrightarrow> f (hd xs) = Min (f ` set xs)"
  by (cases xs) (auto intro!: Min_eqI [symmetric])

lemma set_insert_upper: "set (takeWhile P xs @ t # dropWhile P xs) = insert t (set xs)"
  by (induction xs) auto

lemma Deadline_frame [simp]:
  "Deadline (q\<lparr>tq_process := p\<rparr>) = Deadline q" "Deadline (q\<lparr>tq_requests := r\<rparr>) = Deadline q"
  by (simp_all add: Deadline_def fun_eq_iff)

lemma Expired_frame [simp]: "Expired (q\<lparr>tq_process := p\<rparr>) = Expired q"
  by (simp add: Expired_def fun_eq_iff)

lemma requests_frame:
  assumes "process_requests es q = Inr q'"
  shows "\<exists>p. q' = q\<lparr>tq_process := p\<rparr>" and "in_order q \<Longrightarrow> in_order q'"
    and "set (tq_process q') \<subseteq> set (tq_process q) \<union> {t. (t, ADD) \<in> set es}"
proof -
  have "(\<exists>p. q' = q\<lparr>tq_process := p\<rparr>) \<and> (in_order q \<longrightarrow> in_order q') \<and>
      set (tq_process q') \<subseteq> set (tq_process q) \<union> {t. (t, ADD) \<in> set es}"
    using assms
  proof (induction es arbitrary: q)
    case Nil
    then show ?case by (auto intro: exI [of _ "tq_process q"])
  next
    case (Cons e es)
    obtain t k where e: "e = (t, k)" by fastforce
    obtain q1 where q1: "(if k = ADD then AddTimerInternal t q else RemoveTimerInternal t q) = Inr q1"
      and r: "process_requests es q1 = Inr q'" using Cons.prems e by auto
    have "(\<exists>p. q1 = q\<lparr>tq_process := p\<rparr>) \<and> (in_order q \<longrightarrow> in_order q1) \<and>
        set (tq_process q1) \<subseteq> set (tq_process q) \<union> {t. (t, ADD) \<in> set (e # es)}"
    proof (cases "k = ADD")
      case True
      then have "q1 = q\<lparr>tq_process := takeWhile (\<lambda>u. Deadline q u \<le> Deadline q t) (tq_process q) @
          t # dropWhile (\<lambda>u. Deadline q u \<le> Deadline q t) (tq_process q)\<rparr>"
        using q1 by (auto simp: AddTimerInternal_def split: if_splits)
      then show ?thesis
        using sorted_insert_upper [of "Deadline q" "tq_process q" t] True e
        by (auto simp: in_order_def dest: set_takeWhileD set_dropWhileD)
    next
      case False
      then have "q1 = q \<or> (\<exists>u. q1 = q\<lparr>tq_process := remove1 u (tq_process q)\<rparr>)"
        using q1 by (auto simp: RemoveTimerInternal_def split: if_splits option.splits)
      then show ?thesis
        using sorted_map_remove1 [of "Deadline q"] by (auto simp: in_order_def dest: notin_set_remove1
            intro: exI [of _ "tq_process q"] set_remove1_subset [THEN subsetD])
    qed
    with Cons.IH [OF r] show ?case by auto
  qed
  then show "\<exists>p. q' = q\<lparr>tq_process := p\<rparr>" "in_order q \<Longrightarrow> in_order q'"
    "set (tq_process q') \<subseteq> set (tq_process q) \<union> {t. (t, ADD) \<in> set es}" by auto
qed

text \<open>The requests are carried out as long as the queue is in the order of the current deadlines.\<close>

lemma requests_defined:
  "in_order q \<Longrightarrow> \<exists>q'. process_requests es q = Inr q'"
proof (induction es arbitrary: q)
  case (Cons e es)
  obtain t k where e: "e = (t, k)" by fastforce
  have "\<exists>q1. (if k = ADD then AddTimerInternal t q else RemoveTimerInternal t q) = Inr q1"
    using Cons.prems by (auto simp: AddTimerInternal_def RemoveTimerInternal_def split: option.split)
  then obtain q1 where q1: "(if k = ADD then AddTimerInternal t q else RemoveTimerInternal t q) = Inr q1" by blast
  have "process_requests [(t, k)] q = Inr q1" using q1 by simp
  from Cons.IH [OF requests_frame(2) [OF this Cons.prems]] q1 show ?case by (simp add: e)
qed simp

lemma requests_undefined: "\<not> in_order q \<Longrightarrow> es \<noteq> [] \<Longrightarrow> process_requests es q = Inl Undefined_behaviour"
  by (cases es) (auto simp: AddTimerInternal_def RemoveTimerInternal_def)

subsection \<open>What the requests ask for\<close>

text \<open>
  The timers that the pending requests leave in the queue, if each removes and adds the timer it
  names; and requests that add no timer twice. A removal finds its timer by the deadline, so it
  finds the right one if different timers have different deadlines.
\<close>

fun wanted :: "(nat \<times> TimerEventType) list \<Rightarrow> nat set \<Rightarrow> nat set" where
  "wanted [] A = A"
| "wanted ((t, ADD) # rs) A = wanted rs (insert t A)"
| "wanted ((t, REMOVE) # rs) A = wanted rs (A - {t})"

fun addable :: "(nat \<times> TimerEventType) list \<Rightarrow> nat set \<Rightarrow> bool" where
  "addable [] A \<longleftrightarrow> True"
| "addable ((t, ADD) # rs) A \<longleftrightarrow> t \<notin> A \<and> addable rs (insert t A)"
| "addable ((t, REMOVE) # rs) A \<longleftrightarrow> addable rs (A - {t})"

definition separate :: "'c TimerQueue \<Rightarrow> bool" where
  "separate q \<longleftrightarrow> in_order q \<and> distinct (tq_process q) \<and> addable (tq_requests q) (set (tq_process q)) \<and>
     inj_on (Deadline q) (set (tq_process q) \<union> fst ` set (tq_requests q))"

definition scheduled :: "'c TimerQueue \<Rightarrow> nat \<Rightarrow> bool" where
  "scheduled q t \<longleftrightarrow> t \<in> wanted (tq_requests q) (set (tq_process q))"

definition armed_at :: "'c TimerQueue \<Rightarrow> nat \<Rightarrow> int option" where
  "armed_at q t = (if scheduled q t \<and> \<not> te_cancelled (event_at q t) then Some (Deadline q t) else None)"

lemma wanted_append: "wanted (rs @ rs') A = wanted rs' (wanted rs A)"
  by (induction rs A rule: wanted.induct) simp_all

lemma addable_append: "addable (rs @ rs') A \<longleftrightarrow> addable rs A \<and> addable rs' (wanted rs A)"
  by (induction rs A rule: addable.induct) auto

lemma wanted_subset: "wanted rs A \<subseteq> A \<union> fst ` set rs"
  by (induction rs A rule: wanted.induct) auto

lemma find_unique:
  "inj_on f (insert t (set xs)) \<Longrightarrow> find (\<lambda>u. f u = f t) xs = (if t \<in> set xs then Some t else None)"
  by (induction xs) (auto simp: inj_on_def)

lemma requests_wanted:
  assumes "in_order q" and "distinct (tq_process q)" and "addable rs (set (tq_process q))"
    and "inj_on (Deadline q) (set (tq_process q) \<union> fst ` set rs)"
  shows "\<exists>p. process_requests rs q = Inr (q\<lparr>tq_process := p\<rparr>) \<and> distinct p \<and> set p = wanted rs (set (tq_process q))"
  using assms
proof (induction rs arbitrary: q)
  case Nil
  then show ?case by (intro exI [of _ "tq_process q"]) simp
next
  case (Cons r rs)
  obtain t k where r: "r = (t, k)" by fastforce
  let ?ts = "tq_process q" and ?le = "\<lambda>u. Deadline q u \<le> Deadline q t"
  define p where "p = (if k = ADD then takeWhile ?le ?ts @ t # dropWhile ?le ?ts else remove1 t ?ts)"
  have A: "addable rs (if k = ADD then insert t (set ?ts) else set ?ts - {t})" "k = ADD \<Longrightarrow> t \<notin> set ?ts"
    using Cons.prems(3) by (cases k; simp add: r)+
  have set_p: "set p = (if k = ADD then insert t (set ?ts) else set ?ts - {t})"
    using Cons.prems(2) set_insert_upper [of ?le ?ts t] by (simp add: p_def set_remove1_eq)
  have split: "distinct (takeWhile ?le ?ts @ dropWhile ?le ?ts)" using Cons.prems(2) by simp
  have "distinct p"
    using split A(2) Cons.prems(2) by (auto simp: p_def simp del: takeWhile_dropWhile_id dest: set_takeWhileD set_dropWhileD)
  have one: "process_requests [(t, k)] q = Inr (q\<lparr>tq_process := p\<rparr>)"
  proof (cases k)
    case ADD
    then show ?thesis using Cons.prems(1) by (simp add: AddTimerInternal_def p_def)
  next
    case REMOVE
    have "inj_on (Deadline q) (insert t (set ?ts))" by (rule inj_on_subset [OF Cons.prems(4)]) (auto simp: r)
    from find_unique [OF this] REMOVE Cons.prems(1) show ?thesis
      by (auto simp: RemoveTimerInternal_def p_def remove1_idem)
  qed
  let ?q1 = "q\<lparr>tq_process := p\<rparr>"
  have "inj_on (Deadline ?q1) (set (tq_process ?q1) \<union> fst ` set rs)"
    unfolding Deadline_frame by (rule inj_on_subset [OF Cons.prems(4)]) (use set_p in \<open>auto simp: r split: if_splits\<close>)
  moreover have "addable rs (set (tq_process ?q1))" using A(1) set_p by simp
  ultimately obtain p' where "process_requests rs ?q1 = Inr (?q1\<lparr>tq_process := p'\<rparr>)" "distinct p'" "set p' = wanted rs (set p)"
    using Cons.IH [OF requests_frame(2) [OF one Cons.prems(1)]] \<open>distinct p\<close> by auto
  moreover have "wanted (r # rs) (set ?ts) = wanted rs (set p)" using set_p by (cases k) (simp_all add: r)
  moreover have "process_requests (r # rs) q = process_requests rs ?q1" using one by (cases k) (auto simp: r)
  ultimately show ?case by auto
qed

subsection \<open>Firing, over any executor\<close>

definition due :: "'c TimerQueue \<Rightarrow> int \<Rightarrow> 'c list" where
  "due q now = map (\<lambda>t. te_callback (event_at q t))
     (filter (\<lambda>t. Expired q now t \<and> \<not> te_cancelled (event_at q t)) (tq_process q))"

definition left :: "'c TimerQueue \<Rightarrow> int \<Rightarrow> nat list" where
  "left q now = filter (\<lambda>t. \<not> Expired q now t) (tq_process q)"

context executor
begin

lemma expire_loop_spec:
  assumes "accepting ex" and "sorted (map (Deadline q) ts)"
  shows "\<exists>ex'. expire_loop enqueue q now ts ex = Inr (filter (\<lambda>t. \<not> Expired q now t) ts, ex') \<and> accepting ex' \<and>
     accepted ex' = accepted ex @ map (\<lambda>t. te_callback (event_at q t))
       (filter (\<lambda>t. Expired q now t \<and> \<not> te_cancelled (event_at q t)) ts)"
  using assms
proof (induction ts arbitrary: ex)
  case (Cons t ts)
  show ?case
  proof (cases "Expired q now t")
    case False
    then have "\<forall>u \<in> set ts. \<not> Expired q now u" using Cons.prems(2) by (auto simp: Expired_def)
    with False Cons.prems(1) show ?thesis by (simp cong: filter_cong)
  next
    case True
    show ?thesis
    proof (cases "te_cancelled (event_at q t)")
      case False
      obtain ex1 where "enqueue (te_callback (event_at q t)) ex = Inr ex1" "accepting ex1"
        "accepted ex1 = accepted ex @ [te_callback (event_at q t)]"
        using enqueue_law [OF Cons.prems(1)] by blast
      with True False Cons.IH [of ex1] Cons.prems(2) show ?thesis by (auto simp: Execute_def)
    qed (use True Cons in simp)
  qed
qed simp

lemma ProcessTimers_spec:
  assumes "accepting ex" and "in_order q" and "process_requests es q = Inr q1"
  shows "\<exists>ex'. ProcessTimers enqueue now es q ex =
       Inr (if left q1 now = [] then now + 5000 else Deadline q1 (hd (left q1 now)), q1\<lparr>tq_process := left q1 now\<rparr>, ex') \<and>
     accepting ex' \<and> accepted ex' = accepted ex @ due q1 now"
proof -
  have "sorted (map (Deadline q1) (tq_process q1))"
    using requests_frame(2) [OF assms(3,2)] by (simp add: in_order_def)
  from expire_loop_spec [OF assms(1) this, of now] show ?thesis
    using assms(3) by (auto simp: ProcessTimers_def left_def due_def)
qed

end

lemma round_undefined:
  "\<lbrakk> \<not> in_order q; \<not> tq_abort q; tq_requests q \<noteq> [] \<rbrakk> \<Longrightarrow>
     TimerQueue_EventLoop enqueue timed_out now q ex = Some (Inl Undefined_behaviour)"
  using requests_undefined [of "q\<lparr>tq_requests := []\<rparr>" "tq_requests q"]
  by (simp add: TimerQueue_EventLoop_def ProcessTimers_def in_order_def)

lemma left_in_order: "in_order q \<Longrightarrow> in_order (q\<lparr>tq_process := left q now\<rparr>)"
  by (simp add: in_order_def left_def sorted_filter)

subsection \<open>Resetting a timer\<close>

lemma DeadlineTimer_Reset_eq:
  assumes "\<not> tq_abort q"
  shows "\<exists>q'. DeadlineTimer_Reset now t q = Inr q' \<and>
     timers q' = (timers (Event_Reset t (SetDeadline now (te_delay (event_at q t)) t q))) \<and>
     tq_requests q' = tq_requests q @ [(t, REMOVE), (t, ADD)] \<and> tq_process q' = tq_process q \<and>
     \<not> tq_abort q' \<and> \<not> tq_idle q'"
  using assms
  by (simp add: DeadlineTimer_Reset_def Let_def AddTimer_def RemoveTimer_def UpdateWorkerThread_def
      Event_Reset_def SetDeadline_def upd_event_def)

lemma Deadline_reset:
  assumes "t < length (timers q)"
    and "timers q' = timers (Event_Reset t (SetDeadline now (te_delay (event_at q t)) t q))"
  shows "Deadline q' t = now + te_delay (event_at q t)" and "u \<noteq> t \<Longrightarrow> Deadline q' u = Deadline q u"
    and "event_at q' t = (event_at q t)\<lparr>te_deadline := now + te_delay (event_at q t), te_cancelled := False\<rparr>"
  using assms by (simp_all add: Deadline_def Event_Reset_def SetDeadline_def upd_event_def)

context executor
begin

text \<open>A round of the worker that has something to do.\<close>

lemma EventLoop_round:
  assumes "accepting ex" and "in_order q" and "\<not> tq_abort q"
    and "tq_requests q \<noteq> [] \<or> timed_out \<and> tq_process q \<noteq> []"
    and "process_requests (tq_requests q) (q\<lparr>tq_requests := []\<rparr>) = Inr q1"
  shows "\<exists>ex'. TimerQueue_EventLoop enqueue timed_out now q ex = Some (Inr
       (Some (if left q1 now = [] then now + 5000 else Deadline q1 (hd (left q1 now))),
        q1\<lparr>tq_process := left q1 now\<rparr>, ex')) \<and>
     accepting ex' \<and> accepted ex' = accepted ex @ due q1 now"
proof -
  have "in_order (q\<lparr>tq_requests := []\<rparr>)" using assms(2) by (simp add: in_order_def)
  from ProcessTimers_spec [OF assms(1) this assms(5), of now] show ?thesis
    using assms(3,4) by (auto simp: TimerQueue_EventLoop_def Let_def)
qed

text \<open>
  A round from a state in which the timers are separate: it fires those that are armed and due,
  which are then no longer armed, and leaves the others as they are.
\<close>

lemma EventLoop_separate:
  assumes ex: "accepting ex" and sep: "separate q" and run: "\<not> tq_abort q"
    and "tq_requests q \<noteq> [] \<or> timed_out \<and> tq_process q \<noteq> []"
  shows "\<exists>nxt ts p ex'. TimerQueue_EventLoop enqueue timed_out now q ex =
       Some (Inr (Some nxt, q\<lparr>tq_requests := [], tq_process := p\<rparr>, ex')) \<and> accepting ex' \<and>
     distinct ts \<and> sorted (map (Deadline q) ts) \<and> set ts = {t. \<exists>d. armed_at q t = Some d \<and> d \<le> now} \<and>
     accepted ex' = accepted ex @ map (\<lambda>t. te_callback (event_at q t)) ts \<and>
     set p = {t. scheduled q t \<and> now < Deadline q t} \<and> 
     nxt = (if p = [] then now + 5000 else Min (Deadline q ` set p)) \<and>
     separate (q\<lparr>tq_requests := [], tq_process := p\<rparr>)"
proof -
  let ?q0 = "q\<lparr>tq_requests := []\<rparr>"
  have ord: "in_order ?q0" and dist: "distinct (tq_process ?q0)" and add: "addable (tq_requests q) (set (tq_process ?q0))"
    and inj: "inj_on (Deadline ?q0) (set (tq_process ?q0) \<union> fst ` set (tq_requests q))"
    using sep by (simp_all add: separate_def in_order_def)
  obtain p1 where p1: "process_requests (tq_requests q) ?q0 = Inr (?q0\<lparr>tq_process := p1\<rparr>)" "distinct p1"
    "set p1 = wanted (tq_requests q) (set (tq_process q))"
    using requests_wanted [OF ord dist add inj] by auto
  let ?q1 = "?q0\<lparr>tq_process := p1\<rparr>"
  have ord1: "in_order ?q1" by (rule requests_frame(2) [OF p1(1) ord])
  have sched: "t \<in> set p1 \<longleftrightarrow> scheduled q t" for t using p1(3) by (simp add: scheduled_def)
  define ts where "ts = filter (\<lambda>t. Expired ?q1 now t \<and> \<not> te_cancelled (event_at ?q1 t)) p1"
  define p where "p = left ?q1 now"
  have p: "p = filter (\<lambda>t. now < Deadline q t) p1" by (simp add: p_def left_def Expired_def not_le)
  have "in_order q" using sep by (simp add: separate_def)
  from EventLoop_round [OF ex this run assms(4) p1(1), of now] obtain ex' where
    e: "TimerQueue_EventLoop enqueue timed_out now q ex = Some (Inr
       (Some (if p = [] then now + 5000 else Deadline ?q1 (hd p)), ?q1\<lparr>tq_process := p\<rparr>, ex'))" "accepting ex'"
      "accepted ex' = accepted ex @ due ?q1 now" by (auto simp: p_def)
  have sp: "sorted (map (Deadline q) p)" using left_in_order [OF ord1, of now] by (simp add: in_order_def p_def)
  then have "(if p = [] then now + 5000 else Deadline ?q1 (hd p)) = (if p = [] then now + 5000 else Min (Deadline q ` set p))"
    using sorted_hd_Min [of "Deadline q" p] by simp
  moreover have "separate (q\<lparr>tq_requests := [], tq_process := p\<rparr>)"
    using sp p1(2,3) wanted_subset [of "tq_requests q" "set (tq_process q)"] inj
    by (auto simp: separate_def in_order_def p intro: inj_on_subset)
  moreover have "set ts = {t. \<exists>d. armed_at q t = Some d \<and> d \<le> now}"
    by (auto simp: ts_def sched armed_at_def Expired_def)
  moreover have "distinct ts" "sorted (map (Deadline q) ts)"
    using p1(2) ord1 by (auto simp: ts_def in_order_def sorted_filter)
  moreover have "set p = {t. scheduled q t \<and> now < Deadline q t}" using sched by (auto simp: p)
  ultimately show ?thesis using e by (intro exI [of _ "if p = [] then now + 5000 else Deadline ?q1 (hd p)"] exI [of _ ts]
      exI [of _ p] exI [of _ ex']) (auto simp: due_def ts_def)
qed

end

text \<open>Rounds of the worker at given times, when nobody else acts on the queue.\<close>

fun rounds :: "('c \<Rightarrow> 's \<Rightarrow> 's result) \<Rightarrow> int list \<Rightarrow> 'c TimerQueue \<Rightarrow> 's \<Rightarrow> ('c TimerQueue \<times> 's) result option" where
  "rounds enqueue [] q ex = Some (Inr (q, ex))"
| "rounds enqueue (now # nows) q ex =
     (case TimerQueue_EventLoop enqueue True now q ex of
        None \<Rightarrow> None
      | Some (Inl x) \<Rightarrow> Some (Inl x)
      | Some (Inr (nxt, q', ex')) \<Rightarrow> rounds enqueue nows q' ex')"

subsection \<open>Rearming a timer\<close>

text \<open>
  The new deadline \<open>d\<close> of a timer differs from those of all other timers in use; and, if the
  timer is in the queue, the place it has there is that of the new deadline, too.
\<close>

definition free_at :: "'c TimerQueue \<Rightarrow> nat \<Rightarrow> int \<Rightarrow> bool" where
  "free_at q t d \<longleftrightarrow> (\<forall>u \<in> set (tq_process q) \<union> fst ` set (tq_requests q) - {t}. Deadline q u \<noteq> d)"

definition in_place :: "'c TimerQueue \<Rightarrow> nat \<Rightarrow> int \<Rightarrow> bool" where
  "in_place q t d \<longleftrightarrow> (t \<in> set (tq_process q) \<longrightarrow>
     (\<forall>u \<in> set (tq_process q) - {t}. Deadline q u < d \<longleftrightarrow> Deadline q u < Deadline q t))"

lemma sorted_place:
  fixes f g :: "'a \<Rightarrow> 'b :: linorder"
  assumes "sorted (map f xs)" and "sorted (map g xs)" and "u \<in> set xs" "t \<in> set xs" and "f u < f t"
  shows "g u \<le> g t"
proof -
  obtain i j where i: "i < length xs" "xs ! i = u" and j: "j < length xs" "xs ! j = t"
    using assms(3,4) by (metis in_set_conv_nth)
  have "i < j"
  proof (rule ccontr)
    assume "\<not> i < j"
    then have "f t \<le> f u" using sorted_nth_mono [OF assms(1), of j i] i j by simp
    with assms(5) show False by simp
  qed
  then show ?thesis using sorted_nth_mono [OF assms(2), of i j] i j by simp
qed

lemma sorted_map_cong_less:
  fixes f g :: "'a \<Rightarrow> 'b :: linorder"
  assumes "sorted (map f xs)" and "distinct xs" and "inj_on f (set xs)"
    and "\<And>u v. u \<in> set xs \<Longrightarrow> v \<in> set xs \<Longrightarrow> f u < f v \<Longrightarrow> g u \<le> g v"
  shows "sorted (map g xs)"
  using assms
proof (induction xs)
  case (Cons x xs)
  have "\<forall>y \<in> set xs. f x < f y"
    using Cons.prems(1-3) by (force simp: inj_on_def order.strict_iff_order)
  with Cons show ?case by simp
qed simp

lemma reset_order:
  assumes "separate q" and "free_at q t d" and "Deadline q' t = d" and "\<And>u. u \<noteq> t \<Longrightarrow> Deadline q' u = Deadline q u"
    and "tq_process q' = tq_process q"
  shows "in_order q' \<longleftrightarrow> in_place q t d"
proof
  have ord: "sorted (map (Deadline q) (tq_process q))" and dist: "distinct (tq_process q)"
    and inj: "inj_on (Deadline q) (set (tq_process q))"
    using assms(1) by (auto simp: separate_def in_order_def intro: inj_on_subset)
  have free: "u \<in> set (tq_process q) \<Longrightarrow> u \<noteq> t \<Longrightarrow> Deadline q u \<noteq> d" for u
    using assms(2) by (auto simp: free_at_def)
  {
    assume "in_order q'"
    then have s: "sorted (map (Deadline q') (tq_process q))" by (simp add: in_order_def assms(5))
    show "in_place q t d"
      unfolding in_place_def
    proof (intro impI ballI)
      fix u
      assume t: "t \<in> set (tq_process q)" and "u \<in> set (tq_process q) - {t}"
      then have u: "u \<in> set (tq_process q)" "u \<noteq> t" by auto
      have "Deadline q u \<noteq> Deadline q t" using inj t u by (auto simp: inj_on_def)
      then consider "Deadline q u < Deadline q t" | "Deadline q t < Deadline q u" by linarith
      then show "Deadline q u < d \<longleftrightarrow> Deadline q u < Deadline q t"
        using sorted_place [OF ord s u(1) t] sorted_place [OF ord s t u(1)] free [OF u] assms(3) assms(4) [OF u(2)]
        by cases auto
    qed
  next
    assume p: "in_place q t d"
    have "sorted (map (Deadline q') (tq_process q))"
    proof (rule sorted_map_cong_less [OF ord dist inj])
      fix u v
      assume uv: "u \<in> set (tq_process q)" "v \<in> set (tq_process q)" "Deadline q u < Deadline q v"
      show "Deadline q' u \<le> Deadline q' v"
      proof (cases "u = t")
        case True
        with uv have v: "v \<noteq> t" by auto
        with True uv p have "\<not> Deadline q v < d" by (force simp: in_place_def)
        with True v show ?thesis using assms(3,4) by simp
      next
        case False
        have "v = t \<Longrightarrow> Deadline q u < d" using p uv False by (simp add: in_place_def)
        with False uv show ?thesis using assms(3,4) by (cases "v = t") simp_all
      qed
    qed
    then show "in_order q'" by (simp add: in_order_def assms(5))
  }
qed

lemma reset_separate:
  assumes sep: "separate q" and run: "\<not> tq_abort q" and t: "t < length (timers q)"
    and free: "free_at q t (now + te_delay (event_at q t))"
  shows "\<exists>q'. DeadlineTimer_Reset now t q = Inr q' \<and> \<not> tq_abort q' \<and> tq_requests q' \<noteq> [] \<and>
     event_at q' t = (event_at q t)\<lparr>te_deadline := now + te_delay (event_at q t), te_cancelled := False\<rparr> \<and>
     armed_at q' t = Some (now + te_delay (event_at q t)) \<and>
     (separate q' \<longleftrightarrow> in_place q t (now + te_delay (event_at q t))) \<and>
     (in_order q' \<longleftrightarrow> in_place q t (now + te_delay (event_at q t)))"
proof -
  let ?d = "now + te_delay (event_at q t)"
  obtain q' where q': "DeadlineTimer_Reset now t q = Inr q'" "\<not> tq_abort q'"
    "timers q' = timers (Event_Reset t (SetDeadline now (te_delay (event_at q t)) t q))"
    "tq_requests q' = tq_requests q @ [(t, REMOVE), (t, ADD)]" "tq_process q' = tq_process q"
    using DeadlineTimer_Reset_eq [OF run] by blast
  note D = Deadline_reset [OF t q'(3)]
  have ord: "in_order q' \<longleftrightarrow> in_place q t ?d" by (rule reset_order [OF sep free D(1,2) q'(5)])
  let ?used = "set (tq_process q) \<union> fst ` set (tq_requests q)"
  have "inj_on (Deadline q) ?used" using sep by (simp add: separate_def)
  then have "inj_on (Deadline q') (insert t ?used)"
    using free D(1,2) unfolding inj_on_def free_at_def by (metis Diff_iff insertE singletonD)
  then have "separate q' \<longleftrightarrow> in_order q'"
    using sep by (auto simp: separate_def q' addable_append insert_commute)
  moreover have "armed_at q' t = Some ?d"
    using D(1,3) by (simp add: armed_at_def scheduled_def q' wanted_append)
  ultimately show ?thesis using q' D(3) ord by auto
qed

context executor
begin

lemma on_time:
  assumes "accepting ex" and "separate q" and "\<not> tq_abort q" and "armed_at q t = Some d" and "d \<le> now"
  shows "\<exists>nxt q' ex' pre post. TimerQueue_EventLoop enqueue True now q ex = Some (Inr (Some nxt, q', ex')) \<and>
     accepted ex' = accepted ex @ pre @ te_callback (event_at q t) # post \<and> armed_at q' t = None"
proof -
  have busy: "tq_requests q \<noteq> [] \<or> True \<and> tq_process q \<noteq> []"
    using assms(4) by (auto simp: armed_at_def scheduled_def split: if_splits)
  from EventLoop_separate [OF assms(1-3) busy, of now] obtain nxt ts p ex' where
    r: "TimerQueue_EventLoop enqueue True now q ex = Some (Inr (Some nxt, q\<lparr>tq_requests := [], tq_process := p\<rparr>, ex'))"
      "set ts = {t. \<exists>d. armed_at q t = Some d \<and> d \<le> now}" "set p = {t. scheduled q t \<and> now < Deadline q t}"
      "accepted ex' = accepted ex @ map (\<lambda>t. te_callback (event_at q t)) ts" by blast
  have "t \<in> set ts" using assms(4,5) r(2) by auto
  then obtain as bs where "ts = as @ t # bs" by (meson split_list)
  moreover have "armed_at (q\<lparr>tq_requests := [], tq_process := p\<rparr>) t = None"
    using assms(4,5) r(3) by (auto simp: armed_at_def scheduled_def split: if_splits)
  ultimately show ?thesis using r(1,4) by auto
qed

lemma early_rounds:
  "\<lbrakk> accepting ex; separate q; \<not> tq_abort q; armed_at q t = Some d; \<forall>x \<in> set nows. x < d \<rbrakk> \<Longrightarrow>
     \<exists>q' ex'. rounds enqueue nows q ex = Some (Inr (q', ex')) \<and> accepting ex' \<and> separate q' \<and> \<not> tq_abort q' \<and>
       timers q' = timers q \<and> armed_at q' t = Some d"
proof (induction nows arbitrary: q ex)
  case (Cons now nows)
  have busy: "tq_requests q \<noteq> [] \<or> True \<and> tq_process q \<noteq> []"
    using Cons.prems(4) by (auto simp: armed_at_def scheduled_def split: if_splits)
  from EventLoop_separate [OF Cons.prems(1-3) busy, of now] obtain nxt p ex' where
    r: "TimerQueue_EventLoop enqueue True now q ex = Some (Inr (Some nxt, q\<lparr>tq_requests := [], tq_process := p\<rparr>, ex'))"
      "accepting ex'" "separate (q\<lparr>tq_requests := [], tq_process := p\<rparr>)" "set p = {t. scheduled q t \<and> now < Deadline q t}"
    by blast
  have "armed_at (q\<lparr>tq_requests := [], tq_process := p\<rparr>) t = Some d"
    using Cons.prems(4,5) r(4) by (auto simp: armed_at_def scheduled_def Deadline_def split: if_splits)
  with Cons.IH [OF r(2,3)] Cons.prems(3,5) r(1) show ?case by auto
qed simp

end

subsection \<open>Interleavings\<close>subsection \<open>Interleavings\<close>

text \<open>
  Every atomic action of a client or of the worker, in any order: a reset or a cancellation is a
  sequence of such actions, and the worker may act in between. The executor may change at any
  time as well.
\<close>

inductive timer_run :: "('c \<Rightarrow> 's \<Rightarrow> 's result) \<Rightarrow> 'c TimerQueue \<Rightarrow> 's \<Rightarrow> bool" for enqueue where
  start: "timer_run enqueue TimerQueue_new ex"
| create: "timer_run enqueue q ex \<Longrightarrow> timer_run enqueue (snd (TimerQueue_CreateTimer now delay c q)) ex"
| update: "timer_run enqueue q ex \<Longrightarrow> timer_run enqueue (upd_event t f q) ex"
| remove: "timer_run enqueue q ex \<Longrightarrow> t < length (timers q) \<Longrightarrow> timer_run enqueue (RemoveTimer t q) ex"
| add: "timer_run enqueue q ex \<Longrightarrow> t < length (timers q) \<Longrightarrow> AddTimer t q = Inr q' \<Longrightarrow> timer_run enqueue q' ex"
| shutdown: "timer_run enqueue q ex \<Longrightarrow> timer_run enqueue (TimerQueue_Shutdown q) ex"
| worker: "timer_run enqueue q ex \<Longrightarrow> tq_running q \<Longrightarrow>
    TimerQueue_EventLoop enqueue timed_out now q ex = Some (Inr (nxt, q', ex')) \<Longrightarrow> timer_run enqueue q' ex'"
| executor: "timer_run enqueue q ex \<Longrightarrow> timer_run enqueue q ex'"

text \<open>
  Every event named in a queue exists; an idle queue has nothing to do; and a queue that is
  neither idle nor shut down has a worker.
\<close>

definition queue_ok :: "'c TimerQueue \<Rightarrow> bool" where
  "queue_ok q \<longleftrightarrow>
     (\<forall>t \<in> set (tq_process q). t < length (timers q)) \<and>
     (\<forall>t \<in> set (map fst (tq_requests q)). t < length (timers q)) \<and>
     (tq_idle q \<longrightarrow> tq_process q = [] \<and> (\<forall>t. (t, ADD) \<notin> set (tq_requests q)) \<and> \<not> tq_running q) \<and>
     (\<not> tq_idle q \<and> \<not> tq_abort q \<longrightarrow> tq_running q)"

lemma expire_loop_subset: "expire_loop enqueue q now ts ex = Inr (us, ex') \<Longrightarrow> set us \<subseteq> set ts"
  by (induction enqueue q now ts ex rule: expire_loop.induct) (auto split: if_splits)

lemma EventLoop_frame:
  assumes "TimerQueue_EventLoop enqueue timed_out now q ex = Some (Inr (nxt, q', ex'))"
  shows "tq_process q = [] \<and> tq_requests q = [] \<and> q' = q\<lparr>tq_idle := True, tq_running := False\<rparr> \<or>
    tq_abort q \<and> q' = q\<lparr>tq_running := False\<rparr> \<or>
    (\<exists>p. q' = q\<lparr>tq_requests := [], tq_process := p\<rparr> \<and>
       set p \<subseteq> set (tq_process q) \<union> set (map fst (tq_requests q)))"
proof (cases "nxt = None \<or> tq_abort q")
  case True
  with assms show ?thesis by (auto simp: TimerQueue_EventLoop_def Let_def split: if_splits)
next
  case False
  with assms obtain d where "ProcessTimers enqueue now (tq_requests q) (q\<lparr>tq_requests := []\<rparr>) ex = Inr (d, q', ex')"
    by (auto simp: TimerQueue_EventLoop_def Let_def split: if_splits)
  then obtain q1 ts where q1: "process_requests (tq_requests q) (q\<lparr>tq_requests := []\<rparr>) = Inr q1"
    and ts: "expire_loop enqueue q1 now (tq_process q1) ex = Inr (ts, ex')" "q' = q1\<lparr>tq_process := ts\<rparr>"
    by (auto simp: ProcessTimers_def Let_def)
  from requests_frame(1,3) [OF q1] expire_loop_subset [OF ts(1)] ts(2) show ?thesis
    by (intro disjI2 exI [of _ ts]) force
qed

lemma timer_run_ok: "timer_run enqueue q ex \<Longrightarrow> queue_ok q"
proof (induction rule: timer_run.induct)
  case (add q ex t q')
  then show ?case
    by (auto simp: queue_ok_def AddTimer_def UpdateWorkerThread_def Let_def simp del: set_map split: if_splits)
next
  case (worker q ex b now nxt q' ex')
  from EventLoop_frame [OF worker.hyps(3)] worker.IH worker.hyps(2) show ?case
    by (auto simp: queue_ok_def simp del: set_map)
qed (auto simp: queue_ok_def TimerQueue_new_def TimerQueue_CreateTimer_def upd_event_def RemoveTimer_def
    TimerQueue_Shutdown_def Let_def less_Suc_eq simp del: set_map)

end
