(* ===== verification/Timer_Properties.thy ===== *)
theory Timer_Properties
  imports Timer_Queue Consensus_Module
begin

section \<open>Properties of the timers\<close>

text \<open>
  Which callbacks a round of the timer thread hands to the strand and in which order, and when a
  round is undefined; that a timer that was reset fires at its deadline, or that the queue's
  order is lost; that no pending timer is left without a thread; that the timers of the
  consensus module, and their deadlines, abstract those of the queue; and what cancelling a
  timer can do to another one with the same deadline.
\<close>

subsection \<open>Firing\<close>

text \<open>
  C30. A round of the timer thread that has something to do: requests are pending, or its wait is
  over and timers are in the queue. If the queue is in the order of the current deadlines, then
  the requests are carried out and the round returns; it hands the callbacks of exactly those
  timers to the strand that have expired and are not cancelled, behind everything accepted before
  and in the order of their deadlines, keeps exactly those that have not expired, and sleeps until
  the earliest deadline left, which is in the future, or five seconds if none is left. If the
  queue is not in that order, which a reset of a timer in it can cause, and requests are pending,
  then the round is undefined behaviour: the multiset was changed in place.
\<close>

theorem timers_fire_in_deadline_order:
  assumes "\<not> st_abort s" and "\<not> tq_abort q" and "tq_requests q \<noteq> [] \<or> timed_out \<and> tq_process q \<noteq> []"
  shows "(in_order q \<longrightarrow> (\<exists>q1 s'. process_requests (tq_requests q) (q\<lparr>tq_requests := []\<rparr>) = Inr q1 \<and>
       (let fired = filter (\<lambda>t. Deadline q1 t \<le> now \<and> \<not> te_cancelled (event_at q1 t)) (tq_process q1);
            kept = filter (\<lambda>t. now < Deadline q1 t) (tq_process q1);
            nxt = (if kept = [] then now + 5000 else Min (Deadline q1 ` set kept))
        in TimerQueue_EventLoop Strand_Enqueue timed_out now q s = Some (Inr (Some nxt, q1\<lparr>tq_process := kept\<rparr>, s')) \<and>
           strand_accepted s' = strand_accepted s @ map (\<lambda>t. te_callback (event_at q1 t)) fired \<and>
           sorted (map (Deadline q1) fired) \<and> now < nxt))) \<and>
     (\<not> in_order q \<and> tq_requests q \<noteq> [] \<longrightarrow>
       TimerQueue_EventLoop Strand_Enqueue timed_out now q s = Some (Inl Undefined_behaviour))"
proof (intro conjI impI)
  assume ord: "in_order q"
  then have "in_order (q\<lparr>tq_requests := []\<rparr>)" by (simp add: in_order_def)
  then obtain q1 where q1: "process_requests (tq_requests q) (q\<lparr>tq_requests := []\<rparr>) = Inr q1" and o1: "in_order q1"
    using requests_defined requests_frame(2) by blast
  obtain s' where s': "TimerQueue_EventLoop Strand_Enqueue timed_out now q s = Some (Inr
       (Some (if left q1 now = [] then now + 5000 else Deadline q1 (hd (left q1 now))),
        q1\<lparr>tq_process := left q1 now\<rparr>, s'))"
    "strand_accepted s' = strand_accepted s @ due q1 now"
    using st.EventLoop_round [OF assms(1) ord assms(2,3) q1, of now] by blast
  have l: "filter (\<lambda>t. now < Deadline q1 t) (tq_process q1) = left q1 now"
    by (simp add: left_def Expired_def not_le)
  have "sorted (map (Deadline q1) (left q1 now))" using o1 by (simp add: in_order_def left_def sorted_filter)
  then have nxt: "(if left q1 now = [] then now + 5000 else Min (Deadline q1 ` set (left q1 now))) =
      (if left q1 now = [] then now + 5000 else Deadline q1 (hd (left q1 now)))"
    using sorted_hd_Min [of "Deadline q1" "left q1 now"] by simp
  have future: "now < (if left q1 now = [] then now + 5000 else Deadline q1 (hd (left q1 now)))"
    using hd_in_set [of "left q1 now"] by (auto simp flip: l)
  have fired: "due q1 now = map (\<lambda>t. te_callback (event_at q1 t))
      (filter (\<lambda>t. Deadline q1 t \<le> now \<and> \<not> te_cancelled (event_at q1 t)) (tq_process q1))"
    "sorted (map (Deadline q1) (filter (\<lambda>t. Deadline q1 t \<le> now \<and> \<not> te_cancelled (event_at q1 t)) (tq_process q1)))"
    using o1 by (simp_all add: due_def Expired_def in_order_def sorted_filter)
  show "\<exists>q1 s'. process_requests (tq_requests q) (q\<lparr>tq_requests := []\<rparr>) = Inr q1 \<and>
       (let fired = filter (\<lambda>t. Deadline q1 t \<le> now \<and> \<not> te_cancelled (event_at q1 t)) (tq_process q1);
            kept = filter (\<lambda>t. now < Deadline q1 t) (tq_process q1);
            nxt = (if kept = [] then now + 5000 else Min (Deadline q1 ` set kept))
        in TimerQueue_EventLoop Strand_Enqueue timed_out now q s = Some (Inr (Some nxt, q1\<lparr>tq_process := kept\<rparr>, s')) \<and>
           strand_accepted s' = strand_accepted s @ map (\<lambda>t. te_callback (event_at q1 t)) fired \<and>
           sorted (map (Deadline q1) fired) \<and> now < nxt)"
    by (rule exI [of _ q1], rule exI [of _ s']) (use q1 s' fired future in \<open>simp add: Let_def l nxt\<close>)
next
  assume "\<not> in_order q \<and> tq_requests q \<noteq> []"
  then show "TimerQueue_EventLoop Strand_Enqueue timed_out now q s = Some (Inl Undefined_behaviour)"
    using assms(2) by (simp add: round_undefined)
qed

definition sample_timers :: "nat TimerQueue" where
  "sample_timers = TimerQueue_new\<lparr>timers := [TimerEvent_new 0 50 7, TimerEvent_new 0 20 8, TimerEvent_new 0 90 9],
     tq_requests := [(0, ADD), (1, ADD), (2, ADD)], tq_idle := False, tq_worker := True, tq_running := True\<rparr>"

lemmas sample_timers_simps = sample_timers_def TimerQueue_new_def TimerEvent_new_def Deadline_def in_order_def

theorem timers_fire_in_deadline_order_witness:
  "\<exists>s'. TimerQueue_EventLoop Strand_Enqueue False 60 sample_timers Strand_new =
      Some (Inr (Some 90, sample_timers\<lparr>tq_requests := [], tq_process := [2]\<rparr>, s')) \<and> strand_accepted s' = [8, 7]"
proof -
  let ?q1 = "sample_timers\<lparr>tq_requests := [], tq_process := [1, 0, 2]\<rparr>"
  have p: "process_requests (tq_requests sample_timers) (sample_timers\<lparr>tq_requests := []\<rparr>) = Inr ?q1"
    by (simp add: AddTimerInternal_def sample_timers_simps)
  have q: "\<not> st_abort (Strand_new :: nat Strand)" "\<not> tq_abort sample_timers"
    "tq_requests sample_timers \<noteq> [] \<or> False \<and> tq_process sample_timers \<noteq> []" "in_order sample_timers"
    by (simp_all add: sample_timers_simps Strand_new_def)
  have "filter (\<lambda>t. Deadline ?q1 t \<le> 60 \<and> \<not> te_cancelled (event_at ?q1 t)) (tq_process ?q1) = [1, 0]"
    "filter (\<lambda>t. 60 < Deadline ?q1 t) (tq_process ?q1) = [2]" "Deadline ?q1 2 = 90"
    "map (\<lambda>t. te_callback (event_at ?q1 t)) [1, 0] = [8, 7]" "strand_accepted (Strand_new :: nat Strand) = []"
    by (simp_all add: sample_timers_simps strand_accepted_def Strand_new_def)
  with timers_fire_in_deadline_order [OF q(1-3), of 60] q(4) p show ?thesis by (auto simp: Let_def)
qed

text \<open>
  C31. A timer that is reset fires. Take a queue that is in the order of its deadlines, with
  pending requests that add no timer twice, and where different timers in use have different
  deadlines, also from the new deadline of the timer. \<open>Reset\<close> succeeds, whether the timer is
  in the queue or not. If it is not, or if its old place in the queue is that of the new deadline,
  too, then any rounds of the thread before the deadline keep it armed with that deadline, and
  the first round at or after the deadline hands its callback to the strand and disarms it. If
  the timer is in the queue and its place is not that of the new deadline, then the round that
  follows is undefined behaviour.
\<close>

theorem reset_timer_fires:
  assumes "\<not> st_abort s" and "separate q" and "\<not> tq_abort q" and "t < length (timers q)"
    and "d = now0 + te_delay (event_at q t)" and "free_at q t d"
    and "\<forall>x \<in> set nows. x < d" and "d \<le> now"
  shows "\<exists>q'. DeadlineTimer_Reset now0 t q = Inr q' \<and>
     (in_place q t d \<longrightarrow> (\<exists>q1 s1 nxt q2 s2 pre post. rounds Strand_Enqueue nows q' s = Some (Inr (q1, s1)) \<and>
        armed_at q1 t = Some d \<and>
        TimerQueue_EventLoop Strand_Enqueue True now q1 s1 = Some (Inr (Some nxt, q2, s2)) \<and>
        strand_accepted s2 = strand_accepted s1 @ pre @ te_callback (event_at q t) # post \<and> armed_at q2 t = None)) \<and>
     (\<not> in_place q t d \<longrightarrow>
        (\<forall>timed_out x. TimerQueue_EventLoop Strand_Enqueue timed_out x q' s = Some (Inl Undefined_behaviour)))"
proof -
  obtain q' where q': "DeadlineTimer_Reset now0 t q = Inr q'" "\<not> tq_abort q'" "tq_requests q' \<noteq> []"
    "event_at q' t = (event_at q t)\<lparr>te_deadline := d, te_cancelled := False\<rparr>"
    "armed_at q' t = Some d" "separate q' \<longleftrightarrow> in_place q t d" "in_order q' \<longleftrightarrow> in_place q t d"
    using reset_separate [OF assms(2-4)] assms(5,6) by blast
  have "\<exists>q1 s1 nxt q2 s2 pre post. rounds Strand_Enqueue nows q' s = Some (Inr (q1, s1)) \<and> armed_at q1 t = Some d \<and>
      TimerQueue_EventLoop Strand_Enqueue True now q1 s1 = Some (Inr (Some nxt, q2, s2)) \<and>
      strand_accepted s2 = strand_accepted s1 @ pre @ te_callback (event_at q t) # post \<and> armed_at q2 t = None"
    if place: "in_place q t d"
  proof -
    obtain q1 s1 where r: "rounds Strand_Enqueue nows q' s = Some (Inr (q1, s1))" "\<not> st_abort s1" "separate q1"
      "\<not> tq_abort q1" "timers q1 = timers q'" "armed_at q1 t = Some d"
      using st.early_rounds [OF assms(1) q'(6) [THEN iffD2, OF place] q'(2,5) assms(7)] by blast
    from st.on_time [OF r(2,3,4,6) assms(8)] r(1,5,6) q'(4) show ?thesis by (auto; blast)
  qed
  moreover have "\<not> in_place q t d \<Longrightarrow> TimerQueue_EventLoop Strand_Enqueue timed_out x q' s = Some (Inl Undefined_behaviour)"
    for timed_out x using round_undefined [of q'] q'(2,3,7) by simp
  ultimately show ?thesis using q'(1) by blast
qed

text \<open>
  Three timers wait for the deadlines 20, 50 and 90; the last of them, in the queue, is reset at
  the time 10, sleeps through rounds at 30 and 60, and fires at 100. Resetting the first one
  instead, at the time 40, moves its deadline past that of the second, and the round is undefined.
\<close>

definition queued_timers :: "nat TimerQueue" where
  "queued_timers = TimerQueue_new\<lparr>timers := [TimerEvent_new 0 50 7, TimerEvent_new 0 20 8, TimerEvent_new 0 90 9],
     tq_process := [1, 0, 2], tq_idle := False, tq_worker := True, tq_running := True\<rparr>"

lemmas queued_timers_simps =
  queued_timers_def TimerQueue_new_def TimerEvent_new_def Deadline_def in_order_def separate_def free_at_def in_place_def

theorem reset_timer_fires_witness:
  "(\<exists>q' q1 s1 nxt q2 s2 pre post. DeadlineTimer_Reset 10 2 queued_timers = Inr q' \<and>
     rounds Strand_Enqueue [30, 60] q' Strand_new = Some (Inr (q1, s1)) \<and> armed_at q1 2 = Some 100 \<and>
     TimerQueue_EventLoop Strand_Enqueue True 100 q1 s1 = Some (Inr (Some nxt, q2, s2)) \<and>
     strand_accepted s2 = strand_accepted s1 @ pre @ 9 # post) \<and>
   (\<exists>q'. DeadlineTimer_Reset 40 1 queued_timers = Inr q' \<and>
     TimerQueue_EventLoop Strand_Enqueue False 55 q' Strand_new = Some (Inl Undefined_behaviour))"
proof (rule conjI)
  have q: "\<not> st_abort (Strand_new :: nat Strand)" "separate queued_timers" "\<not> tq_abort queued_timers"
    by (auto simp: queued_timers_simps Strand_new_def)
  have "2 < length (timers queued_timers)" "100 = 10 + te_delay (event_at queued_timers 2)"
    "te_callback (event_at queued_timers 2) = 9" "free_at queued_timers 2 100" "in_place queued_timers 2 100"
    by (auto simp: queued_timers_simps)
  with q reset_timer_fires [of Strand_new queued_timers 2 100 10 "[30, 60]" 100]
  show "\<exists>q' q1 s1 nxt q2 s2 pre post. DeadlineTimer_Reset 10 2 queued_timers = Inr q' \<and>
     rounds Strand_Enqueue [30, 60] q' Strand_new = Some (Inr (q1, s1)) \<and> armed_at q1 2 = Some 100 \<and>
     TimerQueue_EventLoop Strand_Enqueue True 100 q1 s1 = Some (Inr (Some nxt, q2, s2)) \<and>
     strand_accepted s2 = strand_accepted s1 @ pre @ 9 # post" by fastforce
  have "1 < length (timers queued_timers)" "60 = 40 + te_delay (event_at queued_timers 1)"
    "free_at queued_timers 1 60" "\<not> in_place queued_timers 1 60"
    by (auto simp: queued_timers_simps)
  with q reset_timer_fires [of Strand_new queued_timers 1 60 40 "[]" 60]
  show "\<exists>q'. DeadlineTimer_Reset 40 1 queued_timers = Inr q' \<and>
     TimerQueue_EventLoop Strand_Enqueue False 55 q' Strand_new = Some (Inl Undefined_behaviour)" by fastforce
qed

text \<open>
  C32. No timer is forgotten by the thread handling. In every state that calls and rounds of the
  worker can lead to, in any interleaving, all events named by the queues exist, and if a timer
  waits in the queue or a request to add one is pending, and the queue has not been shut down,
  then a worker thread is running.
\<close>

theorem pending_timer_has_worker:
  assumes "timer_run enqueue q ex"
  shows "(\<forall>t \<in> set (tq_process q) \<union> set (map fst (tq_requests q)). t < length (timers q)) \<and>
     (\<not> tq_abort q \<and> (tq_process q \<noteq> [] \<or> (\<exists>t. (t, ADD) \<in> set (tq_requests q))) \<longrightarrow> tq_running q)"
  using timer_run_ok [OF assms] unfolding queue_ok_def by blast

lemma sample_timers_run: "timer_run enqueue sample_timers ex"
proof -
  have add: "timer_run enqueue q ex \<Longrightarrow> t < length (timers q) \<Longrightarrow> \<not> tq_abort q \<Longrightarrow>
      timer_run enqueue ((UpdateWorkerThread q)\<lparr>tq_requests := tq_requests q @ [(t, ADD)]\<rparr>) ex" for q t
    by (rule timer_run.add) (auto simp: AddTimer_def UpdateWorkerThread_def Let_def)
  let ?c = "\<lambda>d c q. snd (TimerQueue_CreateTimer 0 d c q)"
  let ?q = "?c 90 9 (?c 20 8 (?c 50 7 TimerQueue_new))"
  let ?a = "\<lambda>t q. (UpdateWorkerThread q)\<lparr>tq_requests := tq_requests q @ [(t, ADD)]\<rparr>"
  have "timer_run enqueue ?q ex" by (intro timer_run.create timer_run.start)
  then have "timer_run enqueue (?a 2 (?a 1 (?a 0 ?q))) ex"
    by (intro add) (simp_all add: TimerQueue_CreateTimer_def UpdateWorkerThread_def TimerQueue_new_def)
  moreover have "?a 2 (?a 1 (?a 0 ?q)) = sample_timers"
    by (simp add: TimerQueue_CreateTimer_def UpdateWorkerThread_def sample_timers_simps)
  ultimately show ?thesis by simp
qed

theorem pending_timer_has_worker_witness:
  "(2, ADD) \<in> set (tq_requests sample_timers) \<and> tq_running sample_timers"
proof -
  have "\<not> tq_abort sample_timers" "(2, ADD) \<in> set (tq_requests sample_timers)" by (simp_all add: sample_timers_simps)
  with pending_timer_has_worker [OF sample_timers_run] show ?thesis by blast
qed

subsection \<open>The timers of the consensus module\<close>

text \<open>
  What the consensus module's model keeps of a timer, and the deadline it is armed for: the
  timer is armed if the queue, after the pending requests, contains it and it is not cancelled.
\<close>

definition abs_timer :: "Callback TimerQueue \<Rightarrow> nat \<Rightarrow> DeadlineTimer" where
  "abs_timer q t = \<lparr>timer_armed = (armed_at q t \<noteq> None),
     timer_delay = te_delay (event_at q t), timer_callback = te_callback (event_at q t)\<rparr>"

definition timer_view :: "Callback TimerQueue \<Rightarrow> nat \<Rightarrow> DeadlineTimer \<times> int option" where
  "timer_view q t = (abs_timer q t, armed_at q t)"

lemma timer_viewI:
  "\<lbrakk> abs_timer q t = T; armed_at q t = a; \<And>u. u \<noteq> t \<Longrightarrow> event_at q u = event_at q0 u \<and> (scheduled q u \<longleftrightarrow> scheduled q0 u) \<rbrakk> \<Longrightarrow>
     timer_view q = (timer_view q0)(t := (T, a))"
  by (auto simp: fun_eq_iff timer_view_def abs_timer_def armed_at_def Deadline_def)

lemma view_Reset:
  assumes "\<not> tq_abort q" and "t < length (timers q)"
  shows "\<exists>q'. DeadlineTimer_Reset now t q = Inr q' \<and>
     timer_view q' = (timer_view q)(t := (Timer_Reset (abs_timer q t), Some (now + timer_delay (abs_timer q t))))"
proof -
  obtain q' where q': "DeadlineTimer_Reset now t q = Inr q'"
    "timers q' = timers (Event_Reset t (SetDeadline now (te_delay (event_at q t)) t q))"
    "tq_requests q' = tq_requests q @ [(t, REMOVE), (t, ADD)]" "tq_process q' = tq_process q"
    using DeadlineTimer_Reset_eq [OF assms(1)] by blast
  note e = Deadline_reset [OF assms(2) q'(2)]
  have s: "scheduled q' u \<longleftrightarrow> u = t \<or> scheduled q u" for u
    by (auto simp: scheduled_def q'(3,4) wanted_append)
  have "timer_view q' = (timer_view q)(t := (Timer_Reset (abs_timer q t), Some (now + te_delay (event_at q t))))"
  proof (rule timer_viewI)
    show a: "armed_at q' t = Some (now + te_delay (event_at q t))" using e(1,3) s by (simp add: armed_at_def)
    show "abs_timer q' t = Timer_Reset (abs_timer q t)" using e(3) a by (simp add: abs_timer_def Timer_Reset_def)
    show "event_at q' u = event_at q u \<and> (scheduled q' u \<longleftrightarrow> scheduled q u)" if "u \<noteq> t" for u
      using that s by (simp add: q'(2) Event_Reset_def SetDeadline_def upd_event_def)
  qed
  with q'(1) show ?thesis by (auto simp: abs_timer_def)
qed

lemma view_upd:
  assumes "t < length (timers q)"
  shows "timer_view (SetDelay d t q) = (timer_view q)(t := ((abs_timer q t)\<lparr>timer_delay := d\<rparr>, armed_at q t))"
    and "timer_view (SetCallback c t q) = (timer_view q)(t := ((abs_timer q t)\<lparr>timer_callback := c\<rparr>, armed_at q t))"
    and "length (timers (SetDelay d t q)) = length (timers q)" "tq_abort (SetDelay d t q) = tq_abort q"
    and "length (timers (SetCallback c t q)) = length (timers q)" "tq_abort (SetCallback c t q) = tq_abort q"
  using assms by (auto intro!: timer_viewI simp: abs_timer_def armed_at_def scheduled_def Deadline_def SetDelay_def SetCallback_def upd_event_def)

lemma abs_of_view: "timer_view q = (timer_view q0)(t := (T, a)) \<Longrightarrow> abs_timer q t = T"
  by (metis fst_conv fun_upd_same timer_view_def)

lemma view_Cancel:
  assumes "t < length (timers q)"
  shows "timer_view (DeadlineTimer_Cancel t q) = (timer_view q)(t := (Timer_Cancel (abs_timer q t), None))"
  using assms by (auto intro!: timer_viewI simp: abs_timer_def armed_at_def scheduled_def Timer_Cancel_def DeadlineTimer_Cancel_def
      RemoveTimer_def Event_Cancel_def upd_event_def wanted_append)

lemma view_Reset_delay:
  assumes "\<not> tq_abort q" and "t < length (timers q)"
  shows "\<exists>q'. DeadlineTimer_Reset_delay now d t q = Inr q' \<and>
     timer_view q' = (timer_view q)(t := (Timer_Reset_delay d (abs_timer q t), Some (now + d)))"
proof -
  note u = view_upd [OF assms(2)]
  from view_Reset [of "SetDelay d t q" t now] u(3,4) [of d] assms u(1) [of d] abs_of_view [OF u(1) [of d]] show ?thesis
    by (simp add: DeadlineTimer_Reset_delay_def Timer_Reset_delay_def)
qed

lemma view_Reset_callback:
  assumes "\<not> tq_abort q" and "t < length (timers q)"
  shows "\<exists>q'. DeadlineTimer_Reset_callback now c d t q = Inr q' \<and>
     timer_view q' = (timer_view q)(t := (Timer_Reset_callback c d (abs_timer q t), Some (now + d)))"
proof -
  note u = view_upd [OF assms(2)]
  from view_Reset_delay [of "SetCallback c t q" t now d] u(5,6) [of c] assms u(2) [of c] abs_of_view [OF u(2) [of c]] show ?thesis
    by (simp add: DeadlineTimer_Reset_callback_def Timer_Reset_callback_def)
qed

lemma view_CreateTimer:
  assumes "queue_ok q"
  shows "let (new, q') = TimerQueue_CreateTimer now d c q in
     timer_view q' new = (CreateTimer d c, None) \<and> (\<forall>u < length (timers q). timer_view q' u = timer_view q u)"
proof -
  have "length (timers q) \<notin> wanted (tq_requests q) (set (tq_process q))"
    using assms wanted_subset [of "tq_requests q" "set (tq_process q)"] by (force simp: queue_ok_def)
  then show ?thesis
    by (auto simp: TimerQueue_CreateTimer_def timer_view_def abs_timer_def armed_at_def scheduled_def Deadline_def
        CreateTimer_def TimerEvent_new_def nth_append)
qed

text \<open>What a round of the worker does to the timers: those that are armed and due are disarmed.\<close>

definition expire :: "int \<Rightarrow> DeadlineTimer \<times> int option \<Rightarrow> DeadlineTimer \<times> int option" where
  "expire now = (\<lambda>(T, a). case a of
       Some d \<Rightarrow> if d \<le> now then (T\<lparr>timer_armed := False\<rparr>, None) else (T, a)
     | None \<Rightarrow> (T, a))"

lemma view_round:
  assumes "\<not> st_abort s" and "separate q" and "\<not> tq_abort q" and "tq_requests q \<noteq> [] \<or> timed_out \<and> tq_process q \<noteq> []"
  shows "\<exists>nxt q' s' ts. TimerQueue_EventLoop Strand_Enqueue timed_out now q s = Some (Inr (Some nxt, q', s')) \<and>
     timer_view q' = expire now \<circ> timer_view q \<and> separate q' \<and>
     distinct ts \<and> sorted (map (Deadline q) ts) \<and> set ts = {t. \<exists>d. armed_at q t = Some d \<and> d \<le> now} \<and>
     strand_accepted s' = strand_accepted s @ map (\<lambda>t. timer_callback (abs_timer q t)) ts \<and>
     (\<forall>t d. armed_at q' t = Some d \<longrightarrow> nxt \<le> d)"
proof -
  obtain nxt ts p s' where r: "TimerQueue_EventLoop Strand_Enqueue timed_out now q s =
       Some (Inr (Some nxt, q\<lparr>tq_requests := [], tq_process := p\<rparr>, s'))"
     "distinct ts" "sorted (map (Deadline q) ts)" "set ts = {t. \<exists>d. armed_at q t = Some d \<and> d \<le> now}"
     "strand_accepted s' = strand_accepted s @ map (\<lambda>t. te_callback (event_at q t)) ts"
     "set p = {t. scheduled q t \<and> now < Deadline q t}" "nxt = (if p = [] then now + 5000 else Min (Deadline q ` set p))"
     "separate (q\<lparr>tq_requests := [], tq_process := p\<rparr>)"
    using st.EventLoop_separate [OF assms, of now] by blast
  let ?q' = "q\<lparr>tq_requests := [], tq_process := p\<rparr>"
  have s: "scheduled ?q' u \<longleftrightarrow> scheduled q u \<and> now < Deadline q u" for u by (simp add: scheduled_def r(6))
  have D: "Deadline ?q' = Deadline q" by (simp add: fun_eq_iff Deadline_def)
  have "timer_view ?q' = expire now \<circ> timer_view q"
    by (auto simp: fun_eq_iff timer_view_def expire_def abs_timer_def armed_at_def s D)
  moreover have "\<forall>t d. armed_at ?q' t = Some d \<longrightarrow> nxt \<le> d"
  proof (intro allI impI)
    fix t d
    assume "armed_at ?q' t = Some d"
    then have "t \<in> set p" "Deadline q t = d" by (auto simp: armed_at_def s D r(6) split: if_splits)
    then show "nxt \<le> d" unfolding r(7) by (cases "p = []") (auto intro: Min_le)
  qed
  moreover have "map (\<lambda>t. te_callback (event_at q t)) ts = map (\<lambda>t. timer_callback (abs_timer q t)) ts"
    by (simp add: abs_timer_def)
  ultimately show ?thesis
    using r by (intro exI [of _ nxt] exI [of _ ?q'] exI [of _ s'] exI [of _ ts]) simp
qed

text \<open>
  C33. The timers that the model of the consensus module uses, and the deadlines they are armed
  for, abstract those of the queue. A new timer is not armed; cancelling disarms the timer; the
  three ways of resetting arm it for the time of the call plus its delay; and none of them
  affects any other timer. A round of the worker refines the same timers, if the queue is in
  the order of its deadlines, the pending requests add no timer twice, and different timers in
  use have different deadlines: it disarms exactly the timers that are armed and due, hands their
  callbacks to the strand in the order of the deadlines, leaves every other timer as it is and
  the queue in a state of the same kind, and sleeps no longer than until the next deadline of an
  armed timer. With equal deadlines a round can drop another timer than the one that was
  cancelled, as shown below.
\<close>

theorem timer_operations_refine:
  assumes "queue_ok q" and "\<not> tq_abort q" and "t < length (timers q)" and "\<not> st_abort s"
  shows "(let (new, q') = TimerQueue_CreateTimer now d c q in
       timer_view q' new = (CreateTimer d c, None) \<and> (\<forall>u < length (timers q). timer_view q' u = timer_view q u)) \<and>
     timer_view (DeadlineTimer_Cancel t q) = (timer_view q)(t := (Timer_Cancel (abs_timer q t), None)) \<and>
     (\<exists>q'. DeadlineTimer_Reset now t q = Inr q' \<and>
        timer_view q' = (timer_view q)(t := (Timer_Reset (abs_timer q t), Some (now + timer_delay (abs_timer q t))))) \<and>
     (\<exists>q'. DeadlineTimer_Reset_delay now d t q = Inr q' \<and>
        timer_view q' = (timer_view q)(t := (Timer_Reset_delay d (abs_timer q t), Some (now + d)))) \<and>
     (\<exists>q'. DeadlineTimer_Reset_callback now c d t q = Inr q' \<and>
        timer_view q' = (timer_view q)(t := (Timer_Reset_callback c d (abs_timer q t), Some (now + d)))) \<and>
     (separate q \<and> (tq_requests q \<noteq> [] \<or> timed_out \<and> tq_process q \<noteq> []) \<longrightarrow>
       (\<exists>nxt q' s' ts. TimerQueue_EventLoop Strand_Enqueue timed_out now q s = Some (Inr (Some nxt, q', s')) \<and>
          timer_view q' = expire now \<circ> timer_view q \<and> separate q' \<and>
          distinct ts \<and> sorted (map (Deadline q) ts) \<and> set ts = {t. \<exists>d. armed_at q t = Some d \<and> d \<le> now} \<and>
          strand_accepted s' = strand_accepted s @ map (\<lambda>t. timer_callback (abs_timer q t)) ts \<and>
          (\<forall>t d. armed_at q' t = Some d \<longrightarrow> nxt \<le> d)))"
  using view_CreateTimer [OF assms(1)] view_Cancel [OF assms(3)] view_Reset [OF assms(2,3)] view_Reset_delay [OF assms(2,3)]
    view_Reset_callback [OF assms(2,3)] view_round [OF assms(4) _ assms(2)] by blast

theorem timer_operations_refine_witness:
  "\<exists>q'. DeadlineTimer_Reset 5 0 (snd (TimerQueue_CreateTimer 0 500 HeartbeatCallback_bound TimerQueue_new)) = Inr q' \<and>
     timer_view q' 0 = (Timer_Reset (CreateTimer 500 HeartbeatCallback_bound), Some 505)"
proof -
  let ?q = "snd (TimerQueue_CreateTimer 0 500 HeartbeatCallback_bound TimerQueue_new)"
  have "timer_run Strand_Enqueue ?q Strand_new" by (intro timer_run.create timer_run.start)
  then have ok: "queue_ok ?q" by (rule timer_run_ok)
  have "\<not> tq_abort ?q" "0 < length (timers ?q)" "abs_timer ?q 0 = CreateTimer 500 HeartbeatCallback_bound"
    "\<not> st_abort (Strand_new :: Callback Strand)"
    by (simp_all add: TimerQueue_CreateTimer_def TimerQueue_new_def abs_timer_def armed_at_def scheduled_def CreateTimer_def
        TimerEvent_new_def Strand_new_def)
  with timer_operations_refine [OF ok, of 0 Strand_new 5] show ?thesis
    by (fastforce simp: CreateTimer_def)
qed

text \<open>
  Cancelling a timer can lose another one. Timers are found in the queue by their deadline;
  if another timer with the deadline of the cancelled one stands before it, the next round of the
  thread removes that other timer: it is neither cancelled nor fired, and no longer in the queue.
\<close>

lemma cancel_can_drop_other_timer:
  assumes "\<not> st_abort s" and "in_order q" and "\<not> tq_abort q" and "tq_requests q = []"
    and q: "tq_process q = xs @ u # ys" and t: "t \<in> set ys" and len: "t < length (timers q)" "u \<noteq> t" "u \<notin> set ys"
    and d: "Deadline q t = Deadline q u" "\<forall>x \<in> set xs. Deadline q x < Deadline q u"
    and u: "\<not> te_cancelled (event_at q u)"
  shows "\<exists>nxt q2 s'. TimerQueue_EventLoop Strand_Enqueue timed_out now (DeadlineTimer_Cancel t q) s = Some (Inr (Some nxt, q2, s')) \<and>
     u \<notin> set (tq_process q2) \<and> \<not> te_cancelled (event_at q2 u) \<and>
     strand_accepted s' = strand_accepted s @
       map (\<lambda>x. te_callback (event_at q2 x)) (filter (\<lambda>x. Deadline q x \<le> now \<and> \<not> te_cancelled (event_at q2 x)) (xs @ ys))"
proof -
  let ?c = "DeadlineTimer_Cancel t q"
  have D: "Deadline ?c = Deadline q"
    using len(1) by (auto simp: fun_eq_iff Deadline_def DeadlineTimer_Cancel_def RemoveTimer_def Event_Cancel_def upd_event_def nth_list_update)
  have c: "tq_requests ?c = [(t, REMOVE)]" "tq_process ?c = xs @ u # ys" "\<not> tq_abort ?c" "in_order ?c"
    using assms D by (simp_all add: in_order_def) (simp_all add: DeadlineTimer_Cancel_def RemoveTimer_def Event_Cancel_def upd_event_def)
  have xs: "find (\<lambda>x. Deadline q x = Deadline q t) (xs @ u # ys) = Some u"
    using d by (induction xs) auto
  have "u \<notin> set xs" using d(2) by blast
  let ?q1 = "?c\<lparr>tq_requests := [], tq_process := xs @ ys\<rparr>"
  have p: "process_requests (tq_requests ?c) (?c\<lparr>tq_requests := []\<rparr>) = Inr ?q1"
    using c(4) xs \<open>u \<notin> set xs\<close> by (simp add: c D RemoveTimerInternal_def in_order_def remove1_append)
  have "\<not> te_cancelled (event_at ?c u)"
    using u len(2) by (simp add: DeadlineTimer_Cancel_def RemoveTimer_def Event_Cancel_def upd_event_def)
  with st.EventLoop_round [OF assms(1) c(4,3) _ p, of timed_out now] c(1) \<open>u \<notin> set xs\<close> len(3) show ?thesis
    by (auto simp: left_def due_def Expired_def D)
qed

end
