(* ===== verification/Leader_Proxy.thy ===== *)
theory Leader_Proxy
  imports Raft_Messages "HOL-Library.AList"
begin

section \<open>The leader proxy\<close>

text \<open>
  \<open>src/raft/leader_proxy.h\<close> and \<open>.cpp\<close>: what a client links to reach the leader of the
  cluster. It keeps a stub per peer and asks one peer after the other, following leader hints.
  The peers are behind the network: a parameter \<open>service\<close> answers a request to a peer in a
  state of the remote side with a status, the reply message if one came, and the next state. A
  history records every call with the remote state it met and the status it returned.
\<close>

subsection \<open>State and calls\<close>

type_synonym ('req, 'resp, 'e) service = "string \<Rightarrow> 'req \<Rightarrow> 'e \<Rightarrow> Status \<times> 'resp option \<times> 'e"

text \<open>
  \<open>proxy_stubs\<close> lists the entries of the \<open>unordered_map\<close> in its iteration order; the flag
  tells whether the stub is not null. \<open>reply\<close> is the message that the caller passes by
  reference.
\<close>

record ('resp, 'e) LeaderProxy =
  proxy_stubs :: "(string \<times> bool) list"
  reply :: 'resp
  remote :: 'e
  asked :: "(string \<times> 'e \<times> Status) list"

abbreviation peers :: "('resp, 'e) LeaderProxy \<Rightarrow> string list" where
  "peers s \<equiv> map fst (proxy_stubs s)"

definition Proxy_CreateConnections :: "string list \<Rightarrow> ('resp, 'e) LeaderProxy \<Rightarrow> ('resp, 'e) LeaderProxy" where
  "Proxy_CreateConnections peer_addresses s =
     s\<lparr>proxy_stubs := fold (\<lambda>address m. AList.update address True m) peer_addresses (proxy_stubs s)\<rparr>"

definition LeaderProxy_new :: "string list \<Rightarrow> 'resp \<Rightarrow> 'e \<Rightarrow> ('resp, 'e) LeaderProxy" where
  "LeaderProxy_new addresses r e =
     Proxy_CreateConnections addresses \<lparr>proxy_stubs = [], reply = r, remote = e, asked = []\<rparr>"

text \<open>
  The details of a status, parsed as a \<open>protocol::raft::Error\<close>: no details parse as the
  default message, whose code is \<open>NOT_LEADER\<close> and whose hint is empty.
\<close>

definition error_of :: "Status \<Rightarrow> ErrorCode \<times> string" where
  "error_of status = (case status of Status_UNKNOWN msg code hint \<Rightarrow> (code, hint) | _ \<Rightarrow> (NOT_LEADER, ''''))"

text \<open>
  A call through \<open>m_stubs[peer_id]\<close>. A peer without a stub gets a null one, and calling
  through a null stub is undefined. A status that is not OK leaves the reply message alone.
\<close>

definition call_stub ::
  "('req, 'resp, 'e) service \<Rightarrow> 'req \<Rightarrow> string \<Rightarrow> ('resp, 'e) LeaderProxy \<Rightarrow>
   (Status \<times> ('resp, 'e) LeaderProxy) result" where
  "call_stub service request_args peer_id s =
     (if map_of (proxy_stubs s) peer_id \<noteq> Some True then Inl Undefined_behaviour
      else
        let (status, r, e) = service peer_id request_args (remote s) in
        Inr (status, s\<lparr>reply := (case r of None \<Rightarrow> reply s | Some x \<Rightarrow> x), remote := e,
          asked := asked s @ [(peer_id, remote s, status)]\<rparr>))"

definition GetConfigurationRPC where
  "GetConfigurationRPC (service :: (unit, GetConfiguration_Response, 'e) service) peer_id = call_stub service () peer_id"

definition SetConfigurationRPC where
  "SetConfigurationRPC (service :: (SetConfiguration_Request, SetConfiguration_Response, 'e) service)
     cluster_id new_servers peer_id =
     call_stub service \<lparr>sc_oldId = cluster_id, sc_new_servers = new_servers\<rparr> peer_id"

definition RegisterClientRPC where
  "RegisterClientRPC (service :: (unit, RegisterClient_Response, 'e) service) peer_id = call_stub service () peer_id"

definition ClientRequestRPC where
  "ClientRequestRPC (service :: (ClientRequest_Request, ClientRequest_Response, 'e) service)
     client_id sequence_num command peer_id =
     call_stub service \<lparr>cr_clientId = client_id, cr_sequenceNum = sequence_num, cr_command = command\<rparr> peer_id"

definition ClientQueryRPC where
  "ClientQueryRPC (service :: (ClientQuery_Request, ClientQuery_Response, 'e) service) query peer_id =
     call_stub service \<lparr>cq_query = query\<rparr> peer_id"

subsection \<open>Finding the leader\<close>

text \<open>
  \<open>Retry\<close> asks one peer until its answer is not \<open>RETRY\<close>: \<open>None\<close> is a loop without end.
\<close>

partial_function (option) Retry ::
  "(string \<Rightarrow> 's \<Rightarrow> (Status \<times> 's) result) \<Rightarrow> string \<Rightarrow> 's \<Rightarrow> (Status \<times> 's) result option" where
  "Retry func addr s =
     (case func addr s of
        Inl e \<Rightarrow> Some (Inl e)
      | Inr (status, s1) \<Rightarrow>
          if status = Status_OK then Some (Inr (status, s1))
          else if fst (error_of status) = RETRY then Retry func addr s1
          else Some (Inr (status, s1)))"

text \<open>
  The loop over the stubs, with the addresses visited so far. The answer of a hinted leader
  becomes the status, but the loop goes on even if it is OK.
\<close>

fun redirect_loop ::
  "(string \<Rightarrow> 's \<Rightarrow> (Status \<times> 's) result) \<Rightarrow> string list \<Rightarrow> string list \<Rightarrow> Status \<Rightarrow> 's \<Rightarrow>
   (Status \<times> 's) result option" where
  "redirect_loop func visited [] status s = Some (Inr (status, s))"
| "redirect_loop func visited (addr # rest) status s =
     (if addr \<in> set visited then redirect_loop func visited rest status s
      else case Retry func addr s of
        None \<Rightarrow> None
      | Some (Inl e) \<Rightarrow> Some (Inl e)
      | Some (Inr (status1, s1)) \<Rightarrow>
          (if status1 = Status_OK then Some (Inr (status1, s1))
           else
             let (code, hint) = error_of status1; visited1 = addr # visited in
             if code = NOT_LEADER \<and> length hint > 0 \<and> hint \<notin> set visited1 then
               (case Retry func hint s1 of
                  None \<Rightarrow> None
                | Some (Inl e) \<Rightarrow> Some (Inl e)
                | Some (Inr (status2, s2)) \<Rightarrow> redirect_loop func (hint # visited1) rest status2 s2)
             else redirect_loop func visited1 rest status1 s1))"

text \<open>A default \<open>grpc::Status\<close> is OK.\<close>

definition RedirectToLeader ::
  "(string \<Rightarrow> ('resp, 'e) LeaderProxy \<Rightarrow> (Status \<times> ('resp, 'e) LeaderProxy) result) \<Rightarrow>
   ('resp, 'e) LeaderProxy \<Rightarrow> (Status \<times> ('resp, 'e) LeaderProxy) result option" where
  "RedirectToLeader func s = redirect_loop func [] (peers s) Status_OK s"

definition Proxy_GetClusterConfiguration where
  "Proxy_GetClusterConfiguration service s = RedirectToLeader (GetConfigurationRPC service) s"

definition Proxy_SetClusterConfiguration where
  "Proxy_SetClusterConfiguration service cluster_id new_servers s =
     RedirectToLeader (SetConfigurationRPC service cluster_id new_servers) s"

definition Proxy_RegisterClient where
  "Proxy_RegisterClient service s = RedirectToLeader (RegisterClientRPC service) s"

definition Proxy_ClientRequest where
  "Proxy_ClientRequest service client_id sequence_num command s =
     RedirectToLeader (ClientRequestRPC service client_id sequence_num command) s"

definition Proxy_ClientQuery where
  "Proxy_ClientQuery service query s = RedirectToLeader (ClientQueryRPC service query) s"

lemmas proxy_rpcs = GetConfigurationRPC_def SetConfigurationRPC_def RegisterClientRPC_def ClientRequestRPC_def
  ClientQueryRPC_def

subsection \<open>What the proxy relies on\<close>

text \<open>
  A service whose peers ask for a retry only finitely often (\<open>budget\<close>), in states that are
  \<open>good\<close>, and whose leader hints are empty or among the \<open>known\<close> addresses.
\<close>

locale leader_service =
  fixes service :: "('req, 'resp, 'e) service" and good :: "'e \<Rightarrow> bool" and budget :: "'e \<Rightarrow> nat" and known :: "string set"
  assumes answer: "good e \<Longrightarrow> service p req e = (status, r, e') \<Longrightarrow>
      good e' \<and> budget e' \<le> budget e \<and> (fst (error_of status) = RETRY \<longrightarrow> budget e' < budget e) \<and>
      (snd (error_of status) = '''' \<or> snd (error_of status) \<in> known)"

text \<open>The peers of a history, a run of calls to one peer counted once.\<close>

definition peers_asked :: "(string \<times> 'e \<times> Status) list \<Rightarrow> string list" where
  "peers_asked cs = remdups_adj (map fst cs)"

definition stubs_connected :: "string set \<Rightarrow> ('resp, 'e) LeaderProxy \<Rightarrow> bool" where
  "stubs_connected ps s \<longleftrightarrow> (\<forall>p \<in> ps. map_of (proxy_stubs s) p = Some True)"

lemma distinct_remdups_adj_append:
  assumes "set xs \<inter> set ys = {}" and "distinct (remdups_adj xs)" and "distinct (remdups_adj ys)"
  shows "distinct (remdups_adj (xs @ ys))"
  using assms
proof (induction xs rule: remdups_adj.induct)
  case (2 x)
  then show ?case by (cases ys) (auto simp: remdups_adj_Cons split: list.splits dest: arg_cong [of _ _ set])
qed (auto split: if_splits)

text \<open>One peer of the loop: success, a hint that is followed, or neither.\<close>

lemma redirect_loop_cases:
  assumes "p \<notin> set visited" and "Retry func p s = Some (Inr (st1, s1))"
  shows "st1 = Status_OK \<Longrightarrow> redirect_loop func visited (p # ps) status s = Some (Inr (Status_OK, s1))"
    and "st1 \<noteq> Status_OK \<Longrightarrow> fst (error_of st1) = NOT_LEADER \<Longrightarrow> snd (error_of st1) \<noteq> [] \<Longrightarrow>
      snd (error_of st1) \<notin> set (p # visited) \<Longrightarrow> Retry func (snd (error_of st1)) s1 = Some (Inr (st2, s2)) \<Longrightarrow>
      redirect_loop func visited (p # ps) status s = redirect_loop func (snd (error_of st1) # p # visited) ps st2 s2"
    and "st1 \<noteq> Status_OK \<Longrightarrow>
      \<not> (fst (error_of st1) = NOT_LEADER \<and> snd (error_of st1) \<noteq> [] \<and> snd (error_of st1) \<notin> set (p # visited)) \<Longrightarrow>
      redirect_loop func visited (p # ps) status s = redirect_loop func (p # visited) ps st1 s1"
  using assms by (auto simp: Let_def split_beta)

lemma one_peer: "fst ` set cs = {p} \<Longrightarrow> distinct (remdups_adj (map fst cs))"
proof -
  assume "fst ` set cs = {p}"
  then have "map fst cs = replicate (length cs) p" by (intro replicate_eqI [symmetric, THEN sym]) auto
  then show ?thesis by (metis distinct_singleton distinct.simps(1) remdups_adj_replicate)
qed

text \<open>
  What the loop over the stubs gives: it comes to an end; the peers asked are none of the visited
  ones, each in one run; the status is that of the last call; and without success every peer was
  asked.
\<close>

definition loop_result ::
  "string set \<Rightarrow> string set \<Rightarrow> string list \<Rightarrow> Status \<Rightarrow> ('resp, 'e) LeaderProxy \<Rightarrow>
   (Status \<times> ('resp, 'e) LeaderProxy) result option \<Rightarrow> bool" where
  "loop_result known visited ps status s out \<longleftrightarrow>
     (\<exists>status' s' cs. out = Some (Inr (status', s')) \<and> asked s' = asked s @ cs \<and>
        distinct (peers_asked cs) \<and> fst ` set cs \<inter> visited = {} \<and> fst ` set cs \<subseteq> set ps \<union> known \<and>
        status' = (if cs = [] then status else snd (snd (last cs))) \<and>
        (status' \<noteq> Status_OK \<longrightarrow> set ps \<subseteq> visited \<union> fst ` set cs) \<and> (cs = [] \<longrightarrow> set ps \<subseteq> visited))"

lemma loop_result_append:
  assumes "loop_result known (visited \<union> fst ` set cs1) ps status1 s1 out" and "asked s1 = asked s @ cs1"
    and "cs1 \<noteq> []" "distinct (peers_asked cs1)" "fst ` set cs1 \<inter> visited = {}" "fst ` set cs1 \<subseteq> insert p known"
    and "snd (snd (last cs1)) = status1" "p \<in> fst ` set cs1"
  shows "loop_result known visited (p # ps) status s out"
proof -
  obtain status' s' cs where r: "out = Some (Inr (status', s'))" "asked s' = asked s1 @ cs" "distinct (peers_asked cs)"
    "fst ` set cs \<inter> (visited \<union> fst ` set cs1) = {}" "fst ` set cs \<subseteq> set ps \<union> known"
    "status' = (if cs = [] then status1 else snd (snd (last cs)))"
    "status' \<noteq> Status_OK \<longrightarrow> set ps \<subseteq> visited \<union> fst ` set cs1 \<union> fst ` set cs"
    using assms(1) unfolding loop_result_def by blast
  have "distinct (peers_asked (cs1 @ cs))"
    unfolding peers_asked_def map_append
    by (rule distinct_remdups_adj_append) (use r(3,4) assms(4) in \<open>auto simp: peers_asked_def\<close>)
  then show ?thesis
    unfolding loop_result_def
    by (intro exI [of _ status'] exI [of _ s'] exI [of _ "cs1 @ cs"]) (use r assms(2-) in auto)
qed

lemma loop_result_skip:
  assumes "loop_result known visited ps status s out" and "p \<in> visited"
  shows "loop_result known visited (p # ps) status s out"
proof -
  have "set (p # ps) \<subseteq> visited \<union> A \<longleftrightarrow> set ps \<subseteq> visited \<union> A" "set (p # ps) \<subseteq> visited \<longleftrightarrow> set ps \<subseteq> visited"
    "B \<subseteq> set ps \<union> known \<Longrightarrow> B \<subseteq> set (p # ps) \<union> known" for A B using assms(2) by auto
  with assms(1) show ?thesis unfolding loop_result_def by metis
qed

lemma two_peers:
  "fst ` set cs1 = {p} \<Longrightarrow> fst ` set cs2 = {q} \<Longrightarrow> p \<noteq> q \<Longrightarrow> distinct (peers_asked (cs1 @ cs2))"
  unfolding peers_asked_def map_append
  by (rule distinct_remdups_adj_append [OF _ one_peer one_peer]) auto

lemma loop_result_ok:
  assumes "asked s1 = asked s @ cs1" and "cs1 \<noteq> []" "fst ` set cs1 = {p}" "p \<notin> visited" "snd (snd (last cs1)) = Status_OK"
  shows "loop_result known visited (p # ps) status s (Some (Inr (Status_OK, s1)))"
  unfolding loop_result_def using assms one_peer [OF assms(3)] by (auto simp: peers_asked_def)

context leader_service
begin

lemma Retry_returns:
  assumes "good (remote s)" and "map_of (proxy_stubs s) p = Some True"
  shows "\<exists>status s' cs. Retry (call_stub service req) p s = Some (Inr (status, s')) \<and>
     asked s' = asked s @ cs \<and> cs \<noteq> [] \<and> fst ` set cs = {p} \<and> snd (snd (last cs)) = status \<and>
     proxy_stubs s' = proxy_stubs s \<and> good (remote s') \<and>
     (snd (error_of status) = '''' \<or> snd (error_of status) \<in> known)"
  using assms
proof (induction "budget (remote s)" arbitrary: s rule: less_induct)
  case less
  obtain st r e where sv: "service p req (remote s) = (st, r, e)" by (metis prod_cases3)
  let ?s1 = "s\<lparr>reply := (case r of None \<Rightarrow> reply s | Some x \<Rightarrow> x), remote := e, asked := asked s @ [(p, remote s, st)]\<rparr>"
  have call: "call_stub service req p s = Inr (st, ?s1)" using less.prems(2) sv by (simp add: call_stub_def)
  note a = answer [OF less.prems(1) sv]
  show ?case
  proof (cases "st \<noteq> Status_OK \<and> fst (error_of st) = RETRY")
    case True
    then have R: "Retry (call_stub service req) p s = Retry (call_stub service req) p ?s1"
      by (subst Retry.simps) (simp add: call)
    obtain status s' cs where r: "Retry (call_stub service req) p ?s1 = Some (Inr (status, s'))"
      "asked s' = asked ?s1 @ cs" "cs \<noteq> []" "fst ` set cs = {p}" "snd (snd (last cs)) = status"
      "proxy_stubs s' = proxy_stubs s" "good (remote s')" "snd (error_of status) = '''' \<or> snd (error_of status) \<in> known"
      using less.hyps [of ?s1] a True less.prems(2) by auto
    show ?thesis
      by (intro exI [of _ status] exI [of _ s'] exI [of _ "(p, remote s, st) # cs"]) (use R r in simp)
  next
    case False
    then have "Retry (call_stub service req) p s = Some (Inr (st, ?s1))"
      by (subst Retry.simps) (auto simp: call)
    with a show ?thesis by auto
  qed
qed

lemma redirect_loop_returns:
  assumes "good (remote s)" and "stubs_connected (set ps \<union> known) s"
  shows "loop_result known (set visited) ps status s (redirect_loop (call_stub service req) visited ps status s)"
  using assms
proof (induction ps arbitrary: visited status s)
  case Nil
  then show ?case by (auto simp: loop_result_def peers_asked_def)
next
  case (Cons p ps)
  let ?f = "call_stub service req"
  show ?case
  proof (cases "p \<in> set visited")
    case True
    moreover have "stubs_connected (set ps \<union> known) s" using Cons.prems(2) by (simp add: stubs_connected_def)
    ultimately show ?thesis using loop_result_skip [OF Cons.IH [OF Cons.prems(1)]] by simp
  next
    case False
    from Cons.prems(2) have "map_of (proxy_stubs s) p = Some True" by (simp add: stubs_connected_def)
    from Retry_returns [OF Cons.prems(1) this, of req] obtain st1 s1 cs1 where
      r1: "Retry ?f p s = Some (Inr (st1, s1))" "asked s1 = asked s @ cs1" "cs1 \<noteq> []" "fst ` set cs1 = {p}"
        "snd (snd (last cs1)) = st1" "proxy_stubs s1 = proxy_stubs s" "good (remote s1)"
        "snd (error_of st1) = [] \<or> snd (error_of st1) \<in> known" by blast
    let ?hint = "snd (error_of st1)"
    consider (ok) "st1 = Status_OK"
      | (hint) "st1 \<noteq> Status_OK" "fst (error_of st1) = NOT_LEADER" "?hint \<noteq> []" "?hint \<notin> set (p # visited)"
      | (next_peer) "st1 \<noteq> Status_OK" "\<not> (fst (error_of st1) = NOT_LEADER \<and> ?hint \<noteq> [] \<and> ?hint \<notin> set (p # visited))"
      by blast
    then show ?thesis
    proof cases
      case ok
      with redirect_loop_cases(1) [OF False r1(1)] False r1 show ?thesis by (auto intro: loop_result_ok)
    next
      case hint
      with r1(8) have k: "?hint \<in> known" by simp
      with Cons.prems(2) r1(6) have "map_of (proxy_stubs s1) ?hint = Some True" by (simp add: stubs_connected_def)
      from Retry_returns [OF r1(7) this, of req] obtain st2 s2 cs2 where
        r2: "Retry ?f ?hint s1 = Some (Inr (st2, s2))" "asked s2 = asked s1 @ cs2" "cs2 \<noteq> []" "fst ` set cs2 = {?hint}"
          "snd (snd (last cs2)) = st2" "proxy_stubs s2 = proxy_stubs s1" "good (remote s2)" by blast
      note e = redirect_loop_cases(2) [OF False r1(1) hint r2(1)]
      have "loop_result known (set visited \<union> fst ` set (cs1 @ cs2)) ps st2 s2 (redirect_loop ?f (?hint # p # visited) ps st2 s2)"
        using Cons.IH [OF r2(7), of "?hint # p # visited" st2] Cons.prems(2) r1(4,6) r2(4,6)
        by (simp add: stubs_connected_def insert_commute image_Un)
      note IH = this
      have d: "distinct (peers_asked (cs1 @ cs2))" by (rule two_peers [OF r1(4) r2(4)]) (use hint(4) in auto)
      show ?thesis
        unfolding e by (rule loop_result_append [OF IH]) (use d r1 r2 hint False k in \<open>simp_all add: image_Un\<close>)
    next
      case next_peer
      note e = redirect_loop_cases(3) [OF False r1(1) next_peer]
      have "loop_result known (set visited \<union> fst ` set cs1) ps st1 s1 (redirect_loop ?f (p # visited) ps st1 s1)"
        using Cons.IH [OF r1(7), of "p # visited" st1] Cons.prems(2) r1(4,6) by (simp add: stubs_connected_def)
      then show ?thesis
        unfolding e by (rule loop_result_append) (use r1 one_peer [OF r1(4)] False in \<open>auto simp: peers_asked_def\<close>)
    qed
  qed
qed

lemma redirect_returns_call:
  assumes "good (remote s)" and "peers s \<noteq> []" and "stubs_connected (set (peers s)) s" and "known = set (peers s)"
  shows "\<exists>status s' cs. RedirectToLeader (call_stub service req) s = Some (Inr (status, s')) \<and>
     asked s' = asked s @ cs \<and> cs \<noteq> [] \<and> set (map fst cs) \<subseteq> set (peers s) \<and> distinct (remdups_adj (map fst cs)) \<and>
     status = snd (snd (last cs)) \<and> (status \<noteq> Status_OK \<longrightarrow> set (map fst cs) = set (peers s))"
  using redirect_loop_returns [where s = s and ps = "peers s" and visited = "[]" and status = Status_OK and req = req] assms
  by (auto simp: RedirectToLeader_def loop_result_def peers_asked_def)

end

subsection \<open>Where a reply comes from\<close>

text \<open>The last call of the history is one the service answered, and an answer is in the reply.\<close>

definition reply_of_last :: "('req, 'resp, 'e) service \<Rightarrow> 'req \<Rightarrow> ('resp, 'e) LeaderProxy \<Rightarrow> bool" where
  "reply_of_last service req s \<longleftrightarrow>
     (\<exists>p e st r e'. asked s \<noteq> [] \<and> last (asked s) = (p, e, st) \<and> service p req e = (st, r, e') \<and>
        (\<forall>y. r = Some y \<longrightarrow> reply s = y))"

lemma call_stub_reply: "call_stub service req p s = Inr (st, s1) \<Longrightarrow> reply_of_last service req s1"
  by (auto simp: call_stub_def reply_of_last_def split: if_splits prod.splits)

lemma Retry_step_inv:
  assumes "Retry func p s = Some (Inr (st, s1))"
  shows "\<exists>s0 st0. func p s0 = Inr (st0, s1)"
proof -
  have "\<forall>st s1. y = Inr (st, s1) \<longrightarrow> (\<exists>s0 st0. func p s0 = Inr (st0, s1))" if "Retry func p s = Some y" for y
    by (rule Retry.raw_induct [where P = "\<lambda>func p s y. \<forall>st s1. y = Inr (st, s1) \<longrightarrow> (\<exists>s0 st0. func p s0 = Inr (st0, s1))",
          OF _ that])
      (auto split: sum.splits prod.splits if_splits)
  with assms show ?thesis by blast
qed

lemma redirect_loop_reply:
  assumes "redirect_loop (call_stub service req) visited ps status s = Some (Inr (st, s'))"
  shows "s' = s \<or> reply_of_last service req s'"
proof -
  have R: "Retry (call_stub service req) p s = Some (Inr (st, s1)) \<Longrightarrow> reply_of_last service req s1" for p s st s1
    using Retry_step_inv call_stub_reply by metis
  show ?thesis using assms
  proof (induction ps arbitrary: visited status s)
    case (Cons p ps)
    show ?case
    proof (cases "p \<in> set visited")
      case False
      with Cons.prems obtain st1 s1 where r: "Retry (call_stub service req) p s = Some (Inr (st1, s1))"
        by (auto split: option.splits sum.splits)
      note R [OF r]
      moreover from Cons.prems False r
      have "s' = s1 \<or> (\<exists>v t s2. (s2 = s1 \<or> reply_of_last service req s2) \<and>
          redirect_loop (call_stub service req) v ps t s2 = Some (Inr (st, s')))"
        by (auto simp: Let_def split_beta split: option.splits sum.splits if_splits) (metis R)+
      ultimately show ?thesis using Cons.IH by blast
    qed (use Cons in simp)
  qed simp
qed

lemma LeaderProxy_new_stubs:
  "proxy_stubs (LeaderProxy_new as r e) = fold (\<lambda>a m. AList.update a True m) as []"
  "set (peers (LeaderProxy_new as r e)) = set as" "distinct (peers (LeaderProxy_new as r e))"
  "stubs_connected (set as) (LeaderProxy_new as r e)" "remote (LeaderProxy_new as r e) = e" "asked (LeaderProxy_new as r e) = []"
proof -
  let ?f = "\<lambda>as m. fold (\<lambda>a m. AList.update a True m) as m"
  have f: "fst ` set (?f as m) = fst ` set m \<union> set as \<and> (distinct (map fst m) \<longrightarrow> distinct (map fst (?f as m))) \<and>
      (\<forall>p. map_of (?f as m) p = (if p \<in> set as then Some True else map_of m p))" for m
    by (induction as arbitrary: m) (auto simp: dom_update distinct_update update_conv')
  show "proxy_stubs (LeaderProxy_new as r e) = ?f as []" "set (peers (LeaderProxy_new as r e)) = set as"
    "distinct (peers (LeaderProxy_new as r e))" "stubs_connected (set as) (LeaderProxy_new as r e)"
    "remote (LeaderProxy_new as r e) = e" "asked (LeaderProxy_new as r e) = []"
    using f [of "[]"] by (simp_all add: LeaderProxy_new_def Proxy_CreateConnections_def stubs_connected_def)
qed

end
