(* ===== verification/Proxy_Properties.thy ===== *)
theory Proxy_Properties
  imports Leader_Proxy Leader_Properties
begin

section \<open>Properties of the leader proxy\<close>

text \<open>
  The search for the leader ends and asks every peer at most once; what a successful read returns
  comes from a leader with a lease; and a success that came through a hint can be lost.
\<close>

subsection \<open>The search ends\<close>

text \<open>
  C37. A call through the proxy returns. Let the peers ask for a retry only finitely often, and
  let every leader hint be empty or one of the proxy's peers. Then the call comes back without
  undefined behaviour; the peers are asked one after the other, no peer twice except for
  immediate retries; the status is that of the last call; and if it is not OK, every peer was
  asked.
\<close>

theorem redirect_returns:
  fixes service :: "('req, 'resp, 'e) service" and budget :: "'e \<Rightarrow> nat"
  assumes retries: "\<And>p req e status r e'. service p req e = (status, r, e') \<Longrightarrow>
      budget e' \<le> budget e \<and> (fst (error_of status) = RETRY \<longrightarrow> budget e' < budget e)"
    and hints: "\<And>p req e status r e'. service p req e = (status, r, e') \<Longrightarrow>
      snd (error_of status) = '''' \<or> snd (error_of status) \<in> set (peers s)"
    and stubs: "peers s \<noteq> []" "stubs_connected (set (peers s)) s"
  shows "\<exists>status s' cs. RedirectToLeader (call_stub service req) s = Some (Inr (status, s')) \<and>
     asked s' = asked s @ cs \<and> cs \<noteq> [] \<and> set (map fst cs) \<subseteq> set (peers s) \<and> distinct (remdups_adj (map fst cs)) \<and>
     status = snd (snd (last cs)) \<and> (status \<noteq> Status_OK \<longrightarrow> set (map fst cs) = set (peers s))"
proof -
  have "leader_service service (\<lambda>_. True) budget (set (peers s))"
    by (rule leader_service.intro) (use retries hints in blast)
  from leader_service.redirect_returns_call [OF this _ stubs] show ?thesis by blast
qed

text \<open>A remote side that asks for a retry a few times and then lets \<open>n2\<close> answer as the leader.\<close>

definition busy_service :: "(nat, nat, nat) service" where
  "busy_service p req e =
     (if e > 0 then (Status_UNKNOWN ''busy'' RETRY [], None, e - 1)
      else if p = ''n2'' then (Status_OK, Some (req + 1), e)
      else (Status_UNKNOWN ''Peer is not a leader'' NOT_LEADER ''n2'', None, e))"

lemma busy_laws:
  assumes "busy_service p req e = (status, r, e')"
  shows "e' \<le> e \<and> (fst (error_of status) = RETRY \<longrightarrow> e' < e)"
    and "snd (error_of status) = [] \<or> snd (error_of status) \<in> {[CHR ''n'', CHR ''2'']}"
  using assms by (auto simp: busy_service_def error_of_def split: if_splits)

theorem redirect_returns_witness:
  "\<exists>status s' cs. RedirectToLeader (call_stub busy_service 4) (LeaderProxy_new [''n1'', ''n2''] 0 3) = Some (Inr (status, s')) \<and>
     asked s' = cs \<and> set (map fst cs) \<subseteq> {''n1'', ''n2''} \<and> distinct (remdups_adj (map fst cs))"
proof -
  let ?s = "LeaderProxy_new [''n1'', ''n2''] 0 3 :: (nat, nat) LeaderProxy"
  note new = LeaderProxy_new_stubs [of "[''n1'', ''n2'']" "0 :: nat" "3 :: nat"]
  have ps: "set (peers ?s) = {''n1'', ''n2''}" by (simp only: new(2)) simp
  have stubs: "stubs_connected (set (peers ?s)) ?s" using new(2,4) by (simp only:)
  have ne: "peers ?s \<noteq> []" using ps by force
  have hints: "snd (error_of status) = [] \<or> snd (error_of status) \<in> set (peers ?s)"
    if "busy_service p req e = (status, r, e')" for p req e status r e'
    using busy_laws(2) [OF that] unfolding ps by blast
  have "\<exists>status s' cs. RedirectToLeader (call_stub busy_service 4) ?s = Some (Inr (status, s')) \<and>
     asked s' = asked ?s @ cs \<and> cs \<noteq> [] \<and> set (map fst cs) \<subseteq> set (peers ?s) \<and> distinct (remdups_adj (map fst cs)) \<and>
     status = snd (snd (last cs)) \<and> (status \<noteq> Status_OK \<longrightarrow> set (map fst cs) = set (peers ?s))"
    by (rule redirect_returns [where budget = "\<lambda>e. e"]) (rule busy_laws(1) hints ne stubs, assumption?)+
  then show ?thesis unfolding ps new(6) append_Nil by (elim exE conjE) (intro exI conjI)
qed

subsection \<open>Reads through the proxy\<close>

text \<open>
  The remote side of a read as the nodes' own handlers: a peer that cannot be reached is
  \<open>None\<close>.
\<close>

definition cluster_query ::
  "(ClientQuery_Request, ClientQuery_Response, string \<Rightarrow> ConsensusModule option) service" where
  "cluster_query p req nodes =
     (case nodes p of
        None \<Rightarrow> (Status_UNAVAILABLE, None, nodes)
      | Some n \<Rightarrow>
          (let (r, status) = ProcessClientQueryClientRequest req n
           in (status, if status = Status_OK then Some r else None, nodes)))"

interpretation cq: leader_service cluster_query
    "\<lambda>nodes. \<forall>p n. nodes p = Some n \<longrightarrow> m_leader_id n = '''' \<or> m_leader_id n \<in> known" "\<lambda>_. 0" known
  for known
  by unfold_locales
    (auto simp: cluster_query_def error_of_def query_needs_lease split: option.splits if_splits, blast)

text \<open>
  C38. A read through the proxy. Let the network deliver OK only with the reply of the asked
  node's own handler. Then the call returns, and if its status is OK, the reply is the value that
  the store of the node asked last held for the key, at the moment of that call, when this node
  was leader and held the lease.
\<close>

theorem read_through_proxy:
  fixes service :: "(ClientQuery_Request, ClientQuery_Response, 'e) service" and budget :: "'e \<Rightarrow> nat"
    and node_of :: "'e \<Rightarrow> string \<Rightarrow> ConsensusModule"
  assumes network: "\<And>p req e r e'. service p req e = (Status_OK, r, e') \<Longrightarrow>
      \<exists>y. r = Some y \<and> ProcessClientQueryClientRequest req (node_of e p) = (y, Status_OK)"
    and retries: "\<And>p req e status r e'. service p req e = (status, r, e') \<Longrightarrow>
      budget e' \<le> budget e \<and> (fst (error_of status) = RETRY \<longrightarrow> budget e' < budget e)"
    and hints: "\<And>p req e status r e'. service p req e = (status, r, e') \<Longrightarrow>
      snd (error_of status) = '''' \<or> snd (error_of status) \<in> set (peers s)"
    and stubs: "peers s \<noteq> []" "stubs_connected (set (peers s)) s"
  shows "\<exists>status s'. Proxy_ClientQuery service query s = Some (Inr (status, s')) \<and>
     (status = Status_OK \<longrightarrow>
       (\<exists>p e. p \<in> set (peers s) \<and> last (asked s') = (p, e, Status_OK) \<and> m_state (node_of e p) = LEADER \<and>
          m_lease_holder (node_of e p) \<and>
          map_of (sm_store (m_state_machine (node_of e p))) query = Some (cqr_response (reply s'))))"
proof -
  let ?req = "\<lparr>cq_query = query\<rparr>"
  have "leader_service service (\<lambda>_. True) budget (set (peers s))"
    by (rule leader_service.intro) (use retries hints in blast)
  from leader_service.redirect_returns_call [OF this _ stubs, of ?req] obtain status s' cs where
    out: "RedirectToLeader (call_stub service ?req) s = Some (Inr (status, s'))"
    and cs: "asked s' = asked s @ cs" "cs \<noteq> []" "set (map fst cs) \<subseteq> set (peers s)" "status = snd (snd (last cs))" by blast
  from cs(1,2) have "s' \<noteq> s" by auto
  with redirect_loop_reply [OF out [unfolded RedirectToLeader_def]] obtain p e st r e' where
    l: "last (asked s') = (p, e, st)" "service p ?req e = (st, r, e')" "\<forall>y. r = Some y \<longrightarrow> reply s' = y"
    by (auto simp: reply_of_last_def)
  have last: "last cs = (p, e, st)" using l(1) cs(1,2) by simp
  then have p: "p \<in> set (peers s)" using cs(2,3) last_in_set [OF cs(2)] by force
  have "m_state (node_of e p) = LEADER \<and> m_lease_holder (node_of e p) \<and>
      map_of (sm_store (m_state_machine (node_of e p))) query = Some (cqr_response (reply s'))" if "st = Status_OK"
  proof -
    from network l(2) that obtain y where "r = Some y" "ProcessClientQueryClientRequest ?req (node_of e p) = (y, Status_OK)" by blast
    moreover with l(3) have "reply s' = y" by blast
    ultimately show ?thesis
      by (auto simp: query_needs_lease split: if_splits) (metis ClientQuery_Response.select_convs(2))
  qed
  with out p l(1) cs(4) last show ?thesis
    by (auto simp: Proxy_ClientQuery_def ClientQueryRPC_def [abs_def])
qed

definition reading_node :: ConsensusModule where
  "reading_node = leader_node\<lparr>m_lease_holder := True,
     m_state_machine := (m_state_machine leader_node)\<lparr>sm_store := [(''a'', ''1'')]\<rparr>\<rparr>"

theorem read_through_proxy_witness:
  "\<exists>status s'. Proxy_ClientQuery (\<lambda>p req e. cluster_query p req (\<lambda>_. Some reading_node)) ''a''
       (LeaderProxy_new [''n1''] \<lparr>cqr_status = False, cqr_response = [], cqr_leaderHint = []\<rparr> (\<lambda>_. None)) = Some (Inr (status, s')) \<and>
     (status = Status_OK \<longrightarrow> cqr_response (reply s') = ''1'')"
proof -
  let ?sv = "\<lambda>p req (e :: string \<Rightarrow> ConsensusModule option). cluster_query p req (\<lambda>_. Some reading_node)"
  let ?r = "\<lparr>cqr_status = False, cqr_response = [], cqr_leaderHint = []\<rparr>"
  let ?s = "LeaderProxy_new [''n1''] ?r (\<lambda>_. None) :: (_, string \<Rightarrow> ConsensusModule option) LeaderProxy"
  note new = LeaderProxy_new_stubs [of "[''n1'']" ?r "(\<lambda>_. None) :: string \<Rightarrow> ConsensusModule option"]
  have node: "m_state reading_node = LEADER" "m_lease_holder reading_node" "map_of (sm_store (m_state_machine reading_node)) ''a'' = Some ''1''"
    by (simp_all add: reading_node_def leader_node_def CreateConnections_def Let_def)
  have ps: "set (peers ?s) = {''n1''}" by (simp only: new(2)) simp
  have stubs: "stubs_connected (set (peers ?s)) ?s" using new(2,4) by (simp only:)
  have ne: "peers ?s \<noteq> []" using ps by force
  have net: "\<exists>y. r = Some y \<and> ProcessClientQueryClientRequest req reading_node = (y, Status_OK)"
    if "?sv p req e = (Status_OK, r, e')" for p req e r e'
    using that by (auto simp: cluster_query_def split: prod.splits)
  have laws: "(0 :: nat) \<le> 0 \<and> (fst (error_of status) = RETRY \<longrightarrow> (0 :: nat) < 0)"
      "snd (error_of status) = [] \<or> snd (error_of status) \<in> set (peers ?s)"
    if "?sv p req e = (status, r, e')" for p req e status r e'
    using that node by (auto simp: cluster_query_def query_needs_lease error_of_def split: if_splits)
  have "\<exists>status s'. Proxy_ClientQuery ?sv ''a'' ?s = Some (Inr (status, s')) \<and>
     (status = Status_OK \<longrightarrow>
       (\<exists>p e. p \<in> set (peers ?s) \<and> last (asked s') = (p, e, Status_OK) \<and> m_state reading_node = LEADER \<and>
          m_lease_holder reading_node \<and> map_of (sm_store (m_state_machine reading_node)) ''a'' = Some (cqr_response (reply s'))))"
    by (rule read_through_proxy [where node_of = "\<lambda>_ _. reading_node" and budget = "\<lambda>_. 0"])
      (rule net laws ne stubs, assumption?)+
  then show ?thesis using node(3) by auto
qed

subsection \<open>Hints\<close>

text \<open>
  The rest of the loop after the leader has been visited: every other peer only points to the
  leader.
\<close>

lemma call_stub_eq:
  assumes "map_of (proxy_stubs s) p = Some True" and "service p req (remote s) = (status, r, e)"
  shows "call_stub service req p s = Inr (status, s\<lparr>reply := (case r of None \<Rightarrow> reply s | Some x \<Rightarrow> x), remote := e,
     asked := asked s @ [(p, remote s, status)]\<rparr>)"
  using assms by (simp add: call_stub_def)

lemma redirect_after_leader:
  fixes service :: "('req, 'resp, 'e) service"
  assumes others: "\<forall>p e. p \<noteq> leader \<longrightarrow> (\<exists>r e'. service p req e = (Status_UNKNOWN msg NOT_LEADER leader, r, e'))"
    and "leader \<in> set visited" and "stubs_connected (set ps) s"
  shows "\<exists>status' s' cs. redirect_loop (call_stub service req) visited ps status s = Some (Inr (status', s')) \<and>
     asked s' = asked s @ cs \<and>
     status' = (if set ps \<subseteq> set visited then status else Status_UNKNOWN msg NOT_LEADER leader)"
  using assms(2,3)
proof (induction ps arbitrary: visited status s)
  case (Cons p ps)
  show ?case
  proof (cases "p \<in> set visited")
    case True
    with Cons.IH [of visited s status] Cons.prems show ?thesis by (simp add: stubs_connected_def)
  next
    case False
    then have "p \<noteq> leader" using Cons.prems(1) by blast
    with others obtain r e where sv: "service p req (remote s) = (Status_UNKNOWN msg NOT_LEADER leader, r, e)" by blast
    from Cons.prems(2) have "map_of (proxy_stubs s) p = Some True" by (simp add: stubs_connected_def)
    note c = call_stub_eq [where service = service, OF this sv]
    let ?s1 = "s\<lparr>reply := (case r of None \<Rightarrow> reply s | Some x \<Rightarrow> x), remote := e,
       asked := asked s @ [(p, remote s, Status_UNKNOWN msg NOT_LEADER leader)]\<rparr>"
    have "Retry (call_stub service req) p s = Some (Inr (Status_UNKNOWN msg NOT_LEADER leader, ?s1))"
      by (subst Retry.simps) (simp add: c error_of_def)
    then have l: "redirect_loop (call_stub service req) visited (p # ps) status s =
        redirect_loop (call_stub service req) (p # visited) ps (Status_UNKNOWN msg NOT_LEADER leader) ?s1"
      using False Cons.prems(1) by (simp add: error_of_def)
    have "leader \<in> set (p # visited)" "stubs_connected (set ps) ?s1"
      using Cons.prems by (simp_all add: stubs_connected_def)
    from Cons.IH [OF this, of "Status_UNKNOWN msg NOT_LEADER leader"] False show ?thesis unfolding l by auto
  qed
qed simp

text \<open>
  C39. A success that came through a hint is lost. If the first peer of the proxy is not the
  leader and points to it, and there is a third peer, then the leader is asked and answers OK,
  but the search goes on: the third peer answers that it is not the leader, and the caller gets
  this error although the request was executed.
\<close>

theorem hinted_success_is_lost:
  fixes service :: "('req, 'resp, 'e) service"
  assumes leader: "\<And>e. \<exists>r e'. service leader req e = (Status_OK, r, e')"
    and others: "\<And>p e. p \<noteq> leader \<Longrightarrow> \<exists>r e'. service p req e = (Status_UNKNOWN msg NOT_LEADER leader, r, e')"
    and stubs: "peers s = p # ps" "stubs_connected (set (peers s)) s" "distinct (peers s)"
    and "leader \<in> set ps" "leader \<noteq> ''''" "q \<in> set ps" "q \<noteq> leader"
  shows "\<exists>s' e. RedirectToLeader (call_stub service req) s = Some (Inr (Status_UNKNOWN msg NOT_LEADER leader, s')) \<and>
     (leader, e, Status_OK) \<in> set (drop (length (asked s)) (asked s'))"
proof -
  let ?err = "Status_UNKNOWN msg NOT_LEADER leader" and ?f = "call_stub service req"
  have ne: "p \<noteq> leader" "q \<noteq> p" using stubs(1,3) assms(6,8) by auto
  from others [OF ne(1)] obtain r e where sv: "service p req (remote s) = (?err, r, e)" by blast
  from stubs(2) have m: "map_of (proxy_stubs s) p = Some True" "map_of (proxy_stubs s) leader = Some True"
    using stubs(1) assms(6) by (auto simp: stubs_connected_def simp del: set_map)
  obtain s1 where c1: "?f p s = Inr (?err, s1)" "proxy_stubs s1 = proxy_stubs s" "asked s1 = asked s @ [(p, remote s, ?err)]"
    using call_stub_eq [where service = service, OF m(1) sv] by simp
  from leader obtain r2 e2 where sv2: "service leader req (remote s1) = (Status_OK, r2, e2)" by blast
  obtain s2 where c2: "?f leader s1 = Inr (Status_OK, s2)" "proxy_stubs s2 = proxy_stubs s"
    "asked s2 = asked s1 @ [(leader, remote s1, Status_OK)]"
    using call_stub_eq [where service = service, OF m(2) [folded c1(2)] sv2] c1(2) by simp
  have "Retry ?f p s = Some (Inr (?err, s1))" by (subst Retry.simps) (simp add: c1 error_of_def)
  moreover have "Retry ?f leader s1 = Some (Inr (Status_OK, s2))" by (subst Retry.simps) (simp add: c2)
  ultimately have l: "RedirectToLeader ?f s = redirect_loop ?f [leader, p] ps Status_OK s2"
    using ne(1) assms(7) by (simp add: RedirectToLeader_def stubs(1) error_of_def)
  have "leader \<in> set [leader, p]" "stubs_connected (set ps) s2"
    using stubs(1,2) c2(2) by (simp_all add: stubs_connected_def del: set_map)
  moreover have "\<not> set ps \<subseteq> set [leader, p]" using assms(8,9) ne(2) by auto
  moreover have "\<forall>p e. p \<noteq> leader \<longrightarrow> (\<exists>r e'. service p req e = (?err, r, e'))" using others by blast
  ultimately obtain s' cs where
    "redirect_loop ?f [leader, p] ps Status_OK s2 = Some (Inr (?err, s'))" "asked s' = asked s2 @ cs"
    using redirect_after_leader [of leader service req msg "[leader, p]" ps s2 Status_OK] by auto
  with l c1(3) c2(3) show ?thesis by auto
qed

text \<open>A remote side with the leader \<open>n2\<close> that counts the requests it executed.\<close>

definition counting_service :: "(nat, nat, nat) service" where
  "counting_service p req e =
     (if p = ''n2'' then (Status_OK, Some (req + 1), e + 1)
      else (Status_UNKNOWN ''Peer is not a leader'' NOT_LEADER ''n2'', None, e))"

theorem hinted_success_is_lost_witness:
  "\<exists>s' e. RedirectToLeader (call_stub counting_service 4) (LeaderProxy_new [''n1'', ''n2'', ''n3''] 0 0) =
       Some (Inr (Status_UNKNOWN ''Peer is not a leader'' NOT_LEADER ''n2'', s')) \<and>
     (''n2'', e, Status_OK) \<in> set (asked s')"
proof -
  let ?s = "LeaderProxy_new [''n1'', ''n2'', ''n3''] 0 0 :: (nat, nat) LeaderProxy"
  note new = LeaderProxy_new_stubs [of "[''n1'', ''n2'', ''n3'']" "0 :: nat" "0 :: nat"]
  have ps: "peers ?s = ''n1'' # [''n2'', ''n3'']" by (simp add: LeaderProxy_new_def Proxy_CreateConnections_def)
  have stubs: "stubs_connected (set (peers ?s)) ?s" using new(2,4) by (simp only:)
  have sv: "\<exists>r e'. counting_service ''n2'' 4 e = (Status_OK, r, e')"
    "p \<noteq> ''n2'' \<Longrightarrow> \<exists>r e'. counting_service p 4 e = (Status_UNKNOWN ''Peer is not a leader'' NOT_LEADER ''n2'', r, e')" for p e
    by (simp_all add: counting_service_def)
  have "\<exists>s' e. RedirectToLeader (call_stub counting_service 4) ?s =
       Some (Inr (Status_UNKNOWN ''Peer is not a leader'' NOT_LEADER ''n2'', s')) \<and>
     (''n2'', e, Status_OK) \<in> set (drop (length (asked ?s)) (asked s'))"
    by (rule hinted_success_is_lost [OF _ _ ps stubs new(3), of counting_service "''n2''" 4 _ "''n3''"]) (simp_all add: sv)
  then show ?thesis by (simp add: new(6))
qed

end
