(* ===== verification/Raft_Server.thy ===== *)
theory Raft_Server
  imports Node_Runs
begin

section \<open>The RPC server and the completion of client calls\<close>

text \<open>
  \<open>src/raft/raft_server.h\<close> and \<open>.cpp\<close>, and the completion side of
  \<open>src/raft/raft_client.cpp\<close>. A call object per outstanding request moves through the
  stages \<open>CREATE\<close>, \<open>PROCESS\<close> and \<open>FINISH\<close>; one thread takes events from the completion
  queue and drives them. The gRPC runtime appears through what it does to the server: it accepts
  a request for a registered call, completes a response, and puts an event in the queue. Call
  objects live in a heap and are named by their position; a deleted object is \<open>None\<close>. A
  history records the responses with the requests they answer. Three of the handlers wait on a condition variable: the thread
  is then inside the call, and other threads act on the node meanwhile.
\<close>

subsection \<open>Call objects\<close>

datatype ClientCommandID =
    REQUEST_VOTE
  | APPEND_ENTRIES
  | GET_CONFIGURATION
  | SET_CONFIGURATION
  | REGISTER_CLIENT_CALL
  | CLIENT_REQUEST
  | CLIENT_QUERY

datatype Request =
    RequestVote_msg RequestVote_Request
  | AppendEntries_msg AppendEntries_Request
  | GetConfiguration_msg
  | SetConfiguration_msg SetConfiguration_Request
  | RegisterClient_msg
  | ClientRequest_msg ClientRequest_Request
  | ClientQuery_msg ClientQuery_Request

datatype Response =
    RequestVote_resp RequestVote_Response Status
  | AppendEntries_resp AppendEntries_Response Status
  | GetConfiguration_resp GetConfiguration_Response Status
  | SetConfiguration_resp SetConfiguration_Response Status
  | RegisterClient_resp RegisterClient_Response Status
  | ClientRequest_resp ClientRequest_Response Status
  | ClientQuery_resp ClientQuery_Response Status

fun request_id :: "Request \<Rightarrow> ClientCommandID" where
  "request_id (RequestVote_msg r) = REQUEST_VOTE"
| "request_id (AppendEntries_msg r) = APPEND_ENTRIES"
| "request_id GetConfiguration_msg = GET_CONFIGURATION"
| "request_id (SetConfiguration_msg r) = SET_CONFIGURATION"
| "request_id RegisterClient_msg = REGISTER_CLIENT_CALL"
| "request_id (ClientRequest_msg r) = CLIENT_REQUEST"
| "request_id (ClientQuery_msg r) = CLIENT_QUERY"

fun response_id :: "Response \<Rightarrow> ClientCommandID" where
  "response_id (RequestVote_resp r s) = REQUEST_VOTE"
| "response_id (AppendEntries_resp r s) = APPEND_ENTRIES"
| "response_id (GetConfiguration_resp r s) = GET_CONFIGURATION"
| "response_id (SetConfiguration_resp r s) = SET_CONFIGURATION"
| "response_id (RegisterClient_resp r s) = REGISTER_CLIENT_CALL"
| "response_id (ClientRequest_resp r s) = CLIENT_REQUEST"
| "response_id (ClientQuery_resp r s) = CLIENT_QUERY"

datatype CallStatus = CREATE | PROCESS | FINISH

record CallData =
  call_id :: ClientCommandID
  call_status :: CallStatus
  call_request :: "Request option"

text \<open>Where the server thread is: in its event loop, or inside a call that waits.\<close>

datatype server_pc =
    In_loop
  | SetConfiguration_waits nat SetConfiguration_pc
  | RegisterClient_waits nat waiting_call
  | ClientRequest_waits nat ClientRequest_Request waiting_call

record RaftServer =
  calls :: "CallData option list"
  accepting :: "nat list"
  finishing :: "nat list"
  events :: "(nat \<times> bool) list"
  responses :: "(nat \<times> Request option \<times> Response) list"
  server_at :: server_pc

text \<open>The state of a process: the server and the node it serves.\<close>

type_synonym server_state = "RaftServer \<times> ConsensusModule"

definition set_call :: "nat \<Rightarrow> CallData option \<Rightarrow> RaftServer \<Rightarrow> RaftServer" where
  "set_call h c s = s\<lparr>calls := (calls s)[h := c]\<rparr>"

definition call_at :: "RaftServer \<Rightarrow> nat \<Rightarrow> CallData option" where
  "call_at s h = (if h < length (calls s) then calls s ! h else None)"

subsection \<open>The stages of a call\<close>

text \<open>\<open>CREATE\<close>: the call is registered for the next request of its kind.\<close>

definition Proceed_create :: "nat \<Rightarrow> CallData \<Rightarrow> RaftServer \<Rightarrow> RaftServer" where
  "Proceed_create h c s =
     (let s1 = set_call h (Some (c\<lparr>call_status := PROCESS\<rparr>)) s in s1\<lparr>accepting := accepting s1 @ [h]\<rparr>)"

text \<open>A constructor of a call object sets the tag and calls \<open>Proceed\<close>.\<close>

definition CallData_new :: "ClientCommandID \<Rightarrow> RaftServer \<Rightarrow> RaftServer" where
  "CallData_new i s =
     (let h = length (calls s); c = \<lparr>call_id = i, call_status = CREATE, call_request = None\<rparr>
      in Proceed_create h c (s\<lparr>calls := calls s @ [Some c]\<rparr>))"

text \<open>The end of \<open>PROCESS\<close>: the status changes and the response is handed to the runtime.\<close>

definition finish_call :: "nat \<Rightarrow> CallData \<Rightarrow> Response \<Rightarrow> RaftServer \<Rightarrow> RaftServer" where
  "finish_call h c r s =
     (let s1 = set_call h (Some (c\<lparr>call_status := FINISH\<rparr>)) s
      in s1\<lparr>finishing := finishing s1 @ [h], responses := responses s1 @ [(h, call_request c, r)], server_at := In_loop\<rparr>)"

text \<open>
  \<open>Proceed\<close> of a call object of kind \<open>i\<close>; \<open>process\<close> is what its \<open>PROCESS\<close> branch does
  after the next call object of this kind has been created. Driving a deleted object is
  undefined.
\<close>

definition Proceed ::
  "ClientCommandID \<Rightarrow> (nat \<Rightarrow> CallData \<Rightarrow> server_state \<Rightarrow> server_state result) \<Rightarrow> nat \<Rightarrow> server_state \<Rightarrow> server_state result" where
  "Proceed i process h = (\<lambda>(s, n).
     case call_at s h of
       None \<Rightarrow> Inl Undefined_behaviour
     | Some c \<Rightarrow>
         (case call_status c of
            CREATE \<Rightarrow> Inr (Proceed_create h c s, n)
          | PROCESS \<Rightarrow> process h c (CallData_new i s, n)
          | FINISH \<Rightarrow> Inr (set_call h None s, n)))"

subsection \<open>The seven kinds of calls\<close>

definition RequestVoteData_process :: "protobuf \<Rightarrow> env \<Rightarrow> nat \<Rightarrow> CallData \<Rightarrow> server_state \<Rightarrow> server_state result" where
  "RequestVoteData_process pb e h c = (\<lambda>(s, n).
     case call_request c of
       Some (RequestVote_msg request) \<Rightarrow>
         rbind (ProcessRequestVoteClientRequest pb e request n) (\<lambda>((response, status), n1).
           Inr (finish_call h c (RequestVote_resp response status) s, n1))
     | _ \<Rightarrow> Inl Undefined_behaviour)"

definition AppendEntriesData_process :: "protobuf \<Rightarrow> env \<Rightarrow> nat \<Rightarrow> CallData \<Rightarrow> server_state \<Rightarrow> server_state result" where
  "AppendEntriesData_process pb e h c = (\<lambda>(s, n).
     case call_request c of
       Some (AppendEntries_msg request) \<Rightarrow>
         rbind (ProcessAppendEntriesClientRequest pb e request n) (\<lambda>((response, status), n1).
           Inr (finish_call h c (AppendEntries_resp response status) s, n1))
     | _ \<Rightarrow> Inl Undefined_behaviour)"

definition GetConfigurationData_process :: "nat \<Rightarrow> CallData \<Rightarrow> server_state \<Rightarrow> server_state result" where
  "GetConfigurationData_process h c = (\<lambda>(s, n).
     let (response, status) = ProcessGetConfigurationClientRequest n
     in Inr (finish_call h c (GetConfiguration_resp response status) s, n))"

definition ClientQueryData_process :: "nat \<Rightarrow> CallData \<Rightarrow> server_state \<Rightarrow> server_state result" where
  "ClientQueryData_process h c = (\<lambda>(s, n).
     case call_request c of
       Some (ClientQuery_msg request) \<Rightarrow>
         (let (response, status) = ProcessClientQueryClientRequest request n
          in Inr (finish_call h c (ClientQuery_resp response status) s, n))
     | _ \<Rightarrow> Inl Undefined_behaviour)"

text \<open>
  The calls that can wait. The thread is in the call until the handler returns, and the response
  is sent then.
\<close>

definition SetConfiguration_at :: "nat \<Rightarrow> CallData \<Rightarrow> SetConfiguration_pc \<Rightarrow> RaftServer \<Rightarrow> RaftServer" where
  "SetConfiguration_at h c pc s =
     (case pc of
        SC_done response status \<Rightarrow> finish_call h c (SetConfiguration_resp response status) s
      | _ \<Rightarrow> s\<lparr>server_at := SetConfiguration_waits h pc\<rparr>)"

definition SetConfigurationData_process :: "nat \<Rightarrow> CallData \<Rightarrow> server_state \<Rightarrow> server_state result" where
  "SetConfigurationData_process h c = (\<lambda>(s, n).
     case call_request c of
       Some (SetConfiguration_msg request) \<Rightarrow>
         (let (pc, n1) = SetConfiguration_begin request n in Inr (SetConfiguration_at h c pc s, n1))
     | _ \<Rightarrow> Inl Undefined_behaviour)"

definition RegisterClientData_process :: "protobuf \<Rightarrow> nat \<Rightarrow> CallData \<Rightarrow> server_state \<Rightarrow> server_state result" where
  "RegisterClientData_process pb h c = (\<lambda>(s, n).
     rbind (RegisterClient_begin pb n) (\<lambda>(r, n1).
       case r of
         Inl (response, status) \<Rightarrow> Inr (finish_call h c (RegisterClient_resp response status) s, n1)
       | Inr w \<Rightarrow> Inr (s\<lparr>server_at := RegisterClient_waits h w\<rparr>, n1)))"

definition ClientRequestData_process :: "protobuf \<Rightarrow> nat \<Rightarrow> CallData \<Rightarrow> server_state \<Rightarrow> server_state result" where
  "ClientRequestData_process pb h c = (\<lambda>(s, n).
     case call_request c of
       Some (ClientRequest_msg request) \<Rightarrow>
         rbind (ClientRequest_begin pb request n) (\<lambda>(r, n1).
           case r of
             Inl (response, status) \<Rightarrow> Inr (finish_call h c (ClientRequest_resp response status) s, n1)
           | Inr w \<Rightarrow> Inr (s\<lparr>server_at := ClientRequest_waits h request w\<rparr>, n1))
     | _ \<Rightarrow> Inl Undefined_behaviour)"

text \<open>The classes of call objects: their constructors and their \<open>Proceed\<close>.\<close>

definition RequestVoteData_new :: "RaftServer \<Rightarrow> RaftServer" where
  "RequestVoteData_new = CallData_new REQUEST_VOTE"

definition AppendEntriesData_new :: "RaftServer \<Rightarrow> RaftServer" where
  "AppendEntriesData_new = CallData_new APPEND_ENTRIES"

definition GetConfigurationData_new :: "RaftServer \<Rightarrow> RaftServer" where
  "GetConfigurationData_new = CallData_new GET_CONFIGURATION"

definition SetConfigurationData_new :: "RaftServer \<Rightarrow> RaftServer" where
  "SetConfigurationData_new = CallData_new SET_CONFIGURATION"

definition RegisterClientData_new :: "RaftServer \<Rightarrow> RaftServer" where
  "RegisterClientData_new = CallData_new REGISTER_CLIENT_CALL"

definition ClientRequestData_new :: "RaftServer \<Rightarrow> RaftServer" where
  "ClientRequestData_new = CallData_new CLIENT_REQUEST"

definition ClientQueryData_new :: "RaftServer \<Rightarrow> RaftServer" where
  "ClientQueryData_new = CallData_new CLIENT_QUERY"

definition RequestVoteData_Proceed :: "protobuf \<Rightarrow> env \<Rightarrow> nat \<Rightarrow> server_state \<Rightarrow> server_state result" where
  "RequestVoteData_Proceed pb e = Proceed REQUEST_VOTE (RequestVoteData_process pb e)"

definition AppendEntriesData_Proceed :: "protobuf \<Rightarrow> env \<Rightarrow> nat \<Rightarrow> server_state \<Rightarrow> server_state result" where
  "AppendEntriesData_Proceed pb e = Proceed APPEND_ENTRIES (AppendEntriesData_process pb e)"

definition GetConfigurationData_Proceed :: "nat \<Rightarrow> server_state \<Rightarrow> server_state result" where
  "GetConfigurationData_Proceed = Proceed GET_CONFIGURATION GetConfigurationData_process"

definition SetConfigurationData_Proceed :: "nat \<Rightarrow> server_state \<Rightarrow> server_state result" where
  "SetConfigurationData_Proceed = Proceed SET_CONFIGURATION SetConfigurationData_process"

definition RegisterClientData_Proceed :: "protobuf \<Rightarrow> nat \<Rightarrow> server_state \<Rightarrow> server_state result" where
  "RegisterClientData_Proceed pb = Proceed REGISTER_CLIENT_CALL (RegisterClientData_process pb)"

definition ClientRequestData_Proceed :: "protobuf \<Rightarrow> nat \<Rightarrow> server_state \<Rightarrow> server_state result" where
  "ClientRequestData_Proceed pb = Proceed CLIENT_REQUEST (ClientRequestData_process pb)"

definition ClientQueryData_Proceed :: "nat \<Rightarrow> server_state \<Rightarrow> server_state result" where
  "ClientQueryData_Proceed = Proceed CLIENT_QUERY ClientQueryData_process"

lemmas data_new_defs =
  RequestVoteData_new_def AppendEntriesData_new_def GetConfigurationData_new_def SetConfigurationData_new_def RegisterClientData_new_def ClientRequestData_new_def ClientQueryData_new_def

lemmas data_Proceed_defs =
  RequestVoteData_Proceed_def AppendEntriesData_Proceed_def GetConfigurationData_Proceed_def SetConfigurationData_Proceed_def RegisterClientData_Proceed_def ClientRequestData_Proceed_def ClientQueryData_Proceed_def

subsection \<open>The event loop\<close>

definition RPCEventLoop_begin :: "RaftServer \<Rightarrow> RaftServer" where
  "RPCEventLoop_begin s =
     ClientQueryData_new (ClientRequestData_new (RegisterClientData_new (SetConfigurationData_new
       (GetConfigurationData_new (AppendEntriesData_new (RequestVoteData_new s))))))"

definition ServerInit :: RaftServer where
  "ServerInit = RPCEventLoop_begin
     \<lparr>calls = [], accepting = [], finishing = [], events = [], responses = [], server_at = In_loop\<rparr>"

text \<open>The dispatch on the tag of an event; the tag is part of the call object.\<close>

definition dispatch :: "protobuf \<Rightarrow> env \<Rightarrow> nat \<Rightarrow> server_state \<Rightarrow> server_state result" where
  "dispatch pb e h = (\<lambda>(s, n).
     case call_at s h of
       None \<Rightarrow> Inl Undefined_behaviour
     | Some c \<Rightarrow>
         (case call_id c of
            REQUEST_VOTE \<Rightarrow> RequestVoteData_Proceed pb e h (s, n)
          | APPEND_ENTRIES \<Rightarrow> AppendEntriesData_Proceed pb e h (s, n)
          | GET_CONFIGURATION \<Rightarrow> GetConfigurationData_Proceed h (s, n)
          | SET_CONFIGURATION \<Rightarrow> SetConfigurationData_Proceed h (s, n)
          | REGISTER_CLIENT_CALL \<Rightarrow> RegisterClientData_Proceed pb h (s, n)
          | CLIENT_REQUEST \<Rightarrow> ClientRequestData_Proceed pb h (s, n)
          | CLIENT_QUERY \<Rightarrow> ClientQueryData_Proceed h (s, n)))"

text \<open>One round of the loop: \<open>None\<close> while no event is there or the thread is inside a call.\<close>

definition RPCEventLoop :: "protobuf \<Rightarrow> env \<Rightarrow> server_state \<Rightarrow> server_state result option" where
  "RPCEventLoop pb e = (\<lambda>(s, n).
     if server_at s \<noteq> In_loop then None
     else case events s of
       [] \<Rightarrow> None
     | (h, ok) # rest \<Rightarrow>
         (let s1 = s\<lparr>events := rest\<rparr> in
          if ok then Some (dispatch pb e h (s1, n)) else Some (Inr (s1, n))))"

text \<open>
  The thread inside a call goes on when the wait is over, or once more around the
  synchronisation loop; \<open>timed_out\<close> tells whether the wait of that loop ended by its timeout.
\<close>

definition resume_call :: "protobuf \<Rightarrow> bool \<Rightarrow> server_state \<Rightarrow> server_state result option" where
  "resume_call pb timed_out = (\<lambda>(s, n).
     let with_call = (\<lambda>h f. Some (case call_at s h of None \<Rightarrow> Inl Undefined_behaviour | Some c \<Rightarrow> f c)) in
     case server_at s of
       In_loop \<Rightarrow> None
     | SetConfiguration_waits h (SC_syncing saved_term conf) \<Rightarrow>
         with_call h (\<lambda>c. rbind (SetConfiguration_sync pb saved_term conf n) (\<lambda>(pc, n1).
           Inr (SetConfiguration_at h c pc s, n1)))
     | SetConfiguration_waits h (SC_waiting saved_term conf) \<Rightarrow>
         with_call h (\<lambda>c. rbind (SetConfiguration_wait timed_out saved_term conf n) (\<lambda>(pc, n1).
           Inr (SetConfiguration_at h c pc s, n1)))
     | SetConfiguration_waits h (SC_committing saved_term joint_id) \<Rightarrow>
         with_call h (\<lambda>c. Inr (SetConfiguration_at h c (SetConfiguration_commit saved_term joint_id n) s, n))
     | SetConfiguration_waits h (SC_done r st) \<Rightarrow> None
     | RegisterClient_waits h w \<Rightarrow>
         (if \<not> wait_over w n then None
          else with_call h (\<lambda>c. rbind (RegisterClient_resume w n) (\<lambda>((response, status), n1).
            Inr (finish_call h c (RegisterClient_resp response status) s, n1))))
     | ClientRequest_waits h request w \<Rightarrow>
         (if \<not> wait_over w n then None
          else with_call h (\<lambda>c. rbind (ClientRequest_resume request w n) (\<lambda>((response, status), n1).
            Inr (finish_call h c (ClientRequest_resp response status) s, n1)))))"

subsection \<open>Replies to the node's own calls\<close>

text \<open>A completed \<open>AsyncClientCall\<close>: request, reply, status and the address of the peer.\<close>

datatype AsyncClientCall =
    RequestVote_call RequestVote_Request RequestVote_Response Status string
  | AppendEntries_call AppendEntries_Request AppendEntries_Response Status string

definition HandleRequestVoteReply ::
  "protobuf \<Rightarrow> env \<Rightarrow> RequestVote_Request \<Rightarrow> RequestVote_Response \<Rightarrow> Status \<Rightarrow> string \<Rightarrow> ConsensusModule \<Rightarrow>
   ConsensusModule result" where
  "HandleRequestVoteReply pb e request reply status peer n =
     (if status \<noteq> Status_OK then Inr n else ProcessRequestVoteServerResponse pb e request reply peer n)"

definition HandleAppendEntriesReply ::
  "protobuf \<Rightarrow> env \<Rightarrow> AppendEntries_Request \<Rightarrow> AppendEntries_Response \<Rightarrow> Status \<Rightarrow> string \<Rightarrow> ConsensusModule \<Rightarrow>
   ConsensusModule result" where
  "HandleAppendEntriesReply pb e request reply status peer n =
     (if status \<noteq> Status_OK then Inr n else ProcessAppendEntriesServerResponse pb e request reply peer n)"

text \<open>One round of the completion loop, for the event \<open>ok\<close> of a call.\<close>

definition AsyncCompleteRPC :: "protobuf \<Rightarrow> env \<Rightarrow> bool \<Rightarrow> AsyncClientCall \<Rightarrow> ConsensusModule \<Rightarrow> ConsensusModule result" where
  "AsyncCompleteRPC pb e ok call n =
     (if \<not> ok then Inl Assertion_failed
      else case call of
        RequestVote_call request reply status peer \<Rightarrow> HandleRequestVoteReply pb e request reply status peer n
      | AppendEntries_call request reply status peer \<Rightarrow> HandleAppendEntriesReply pb e request reply status peer n)"

subsection \<open>The process\<close>

text \<open>What the gRPC runtime does: a request arrives for a registered call, or a response is out.\<close>

definition deliver :: "nat \<Rightarrow> Request \<Rightarrow> RaftServer \<Rightarrow> RaftServer" where
  "deliver h request s =
     (case call_at s h of
        None \<Rightarrow> s
      | Some c \<Rightarrow> (set_call h (Some (c\<lparr>call_request := Some request\<rparr>)) s)
          \<lparr>accepting := remove1 h (accepting s), events := events s @ [(h, True)]\<rparr>)"

definition complete :: "nat \<Rightarrow> bool \<Rightarrow> RaftServer \<Rightarrow> RaftServer" where
  "complete h ok s = s\<lparr>finishing := remove1 h (finishing s), events := events s @ [(h, ok)]\<rparr>"

text \<open>
  All interleavings of the runtime, the server thread, the thread that completes the node's own
  calls, and the strand that runs timer callbacks.
\<close>

inductive process_run :: "protobuf \<Rightarrow> RaftServer \<Rightarrow> ConsensusModule \<Rightarrow> bool" for pb where
  start: "node_reachable pb n \<Longrightarrow> process_run pb ServerInit n"
| request: "process_run pb s n \<Longrightarrow> h \<in> set (accepting s) \<Longrightarrow> call_at s h = Some c \<Longrightarrow> call_id c = request_id r \<Longrightarrow>
    process_run pb (deliver h r s) n"
| responded: "process_run pb s n \<Longrightarrow> h \<in> set (finishing s) \<Longrightarrow> process_run pb (complete h ok s) n"
| server: "process_run pb s n \<Longrightarrow> RPCEventLoop pb e (s, n) = Some (Inr (s', n')) \<Longrightarrow> process_run pb s' n'"
| resume: "process_run pb s n \<Longrightarrow> resume_call pb timed_out (s, n) = Some (Inr (s', n')) \<Longrightarrow> process_run pb s' n'"
| reply: "process_run pb s n \<Longrightarrow> AsyncCompleteRPC pb e ok call n = Inr n' \<Longrightarrow> process_run pb s n'"
| timer: "process_run pb s n \<Longrightarrow> event_in_int (Timer_fires e cb) \<Longrightarrow> run_callback pb e cb n = Inr n' \<Longrightarrow> process_run pb s n'"

subsection \<open>The invariant of the server\<close>

text \<open>
  Every object is in exactly one place: registered, in an event, in a response under way, or
  driven by the thread (\<open>cur\<close>). A call that was delivered has a request of its kind; a call
  has a response exactly if it is finished or deleted; and of every kind there is exactly one
  object that was not processed yet.
\<close>

definition request_ok :: "CallData \<Rightarrow> bool" where
  "request_ok c \<longleftrightarrow> (\<exists>r. call_request c = Some r \<and> request_id r = call_id c)"

definition fresh_call :: "RaftServer \<Rightarrow> nat \<Rightarrow> ClientCommandID \<Rightarrow> bool" where
  "fresh_call s h i \<longleftrightarrow> h \<in> set (accepting s) \<union> fst ` set (events s) \<and>
     (\<exists>c. call_at s h = Some c \<and> call_status c = PROCESS \<and> call_id c = i)"

definition finished :: "RaftServer \<Rightarrow> nat \<Rightarrow> bool" where
  "finished s h \<longleftrightarrow> (\<forall>c. call_at s h = Some c \<longrightarrow> call_status c = FINISH)"

definition places_ok :: "nat list \<Rightarrow> RaftServer \<Rightarrow> bool" where
  "places_ok cur s \<longleftrightarrow>
     distinct (accepting s @ map fst (events s) @ finishing s @ cur) \<and>
     (\<forall>h \<in> set (accepting s). \<exists>c. call_at s h = Some c \<and> call_status c = PROCESS) \<and>
     (\<forall>h ok. (h, ok) \<in> set (events s) \<longrightarrow> (\<exists>c. call_at s h = Some c \<and>
        (call_status c = PROCESS \<and> ok \<and> request_ok c \<or> call_status c = FINISH))) \<and>
     (\<forall>h \<in> set (finishing s). \<exists>c. call_at s h = Some c \<and> call_status c = FINISH) \<and>
     (\<forall>h \<in> set cur. \<exists>c. call_at s h = Some c \<and> call_status c = PROCESS \<and> request_ok c) \<and>
     (\<forall>h c. call_at s h = Some c \<and> call_status c \<noteq> FINISH \<longrightarrow>
        call_status c = PROCESS \<and> h \<in> set (accepting s) \<union> fst ` set (events s) \<union> set cur)"

lemma places_okI:
  assumes "distinct (accepting s @ map fst (events s) @ finishing s @ cur)"
    and "\<And>h. h \<in> set (accepting s) \<Longrightarrow> \<exists>c. call_at s h = Some c \<and> call_status c = PROCESS"
    and "\<And>h ok. (h, ok) \<in> set (events s) \<Longrightarrow> \<exists>c. call_at s h = Some c \<and>
        (call_status c = PROCESS \<and> ok \<and> request_ok c \<or> call_status c = FINISH)"
    and "\<And>h. h \<in> set (finishing s) \<Longrightarrow> \<exists>c. call_at s h = Some c \<and> call_status c = FINISH"
    and "\<And>h. h \<in> set cur \<Longrightarrow> \<exists>c. call_at s h = Some c \<and> call_status c = PROCESS \<and> request_ok c"
    and "\<And>h c. call_at s h = Some c \<Longrightarrow> call_status c \<noteq> FINISH \<Longrightarrow>
        call_status c = PROCESS \<and> h \<in> set (accepting s) \<union> fst ` set (events s) \<union> set cur"
  shows "places_ok cur s"
  unfolding places_ok_def
  by (rule conjI [OF assms(1)], rule conjI, blast intro: assms(2), rule conjI, blast intro: assms(3),
      rule conjI, blast intro: assms(4), rule conjI, blast intro: assms(5), use assms(6) in blast)

lemma places_okD:
  assumes "places_ok cur s"
  shows "distinct (accepting s @ map fst (events s) @ finishing s @ cur)"
    and "h \<in> set (accepting s) \<Longrightarrow> \<exists>c. call_at s h = Some c \<and> call_status c = PROCESS"
    and "(h, ok) \<in> set (events s) \<Longrightarrow> \<exists>c. call_at s h = Some c \<and>
        (call_status c = PROCESS \<and> ok \<and> request_ok c \<or> call_status c = FINISH)"
    and "h \<in> set (finishing s) \<Longrightarrow> \<exists>c. call_at s h = Some c \<and> call_status c = FINISH"
    and "h \<in> set cur \<Longrightarrow> \<exists>c. call_at s h = Some c \<and> call_status c = PROCESS \<and> request_ok c"
    and "call_at s h = Some c \<Longrightarrow> call_status c \<noteq> FINISH \<Longrightarrow>
        call_status c = PROCESS \<and> h \<in> set (accepting s) \<union> fst ` set (events s) \<union> set cur"
  using assms unfolding places_ok_def by simp_all

definition responses_ok :: "RaftServer \<Rightarrow> bool" where
  "responses_ok s \<longleftrightarrow>
     distinct (map fst (responses s)) \<and>
     (\<forall>h < length (calls s). h \<in> fst ` set (responses s) \<longleftrightarrow> finished s h) \<and>
     (\<forall>h q r. (h, q, r) \<in> set (responses s) \<longrightarrow>
        h < length (calls s) \<and> (\<exists>request. q = Some request \<and> request_id request = response_id r))"

definition listening_ok :: "RaftServer \<Rightarrow> bool" where
  "listening_ok s \<longleftrightarrow> (\<forall>i. \<exists>!h. fresh_call s h i)"

definition server_ok :: "nat list \<Rightarrow> RaftServer \<Rightarrow> bool" where
  "server_ok cur s \<longleftrightarrow> places_ok cur s \<and> responses_ok s \<and> listening_ok s"

lemma call_at_length: "call_at s h = Some c \<Longrightarrow> h < length (calls s)"
  by (simp add: call_at_def split: if_splits)

lemma call_at_upd [simp]:
  "call_at (s\<lparr>accepting := a\<rparr>) = call_at s" "call_at (s\<lparr>finishing := f\<rparr>) = call_at s"
  "call_at (s\<lparr>events := e\<rparr>) = call_at s" "call_at (s\<lparr>responses := r\<rparr>) = call_at s"
  "call_at (s\<lparr>server_at := p\<rparr>) = call_at s"
  by (simp_all add: fun_eq_iff call_at_def)

lemma call_at_set [simp]:
  "h < length (calls s) \<Longrightarrow> call_at (set_call h x s) k = (if k = h then x else call_at s k)"
  by (simp add: call_at_def set_call_def)

lemma set_call_fields [simp]:
  "accepting (set_call h x s) = accepting s" "finishing (set_call h x s) = finishing s"
  "events (set_call h x s) = events s" "responses (set_call h x s) = responses s"
  "server_at (set_call h x s) = server_at s" "length (calls (set_call h x s)) = length (calls s)"
  by (simp_all add: set_call_def)

lemma CallData_new_fields [simp]:
  "accepting (CallData_new i s) = accepting s @ [length (calls s)]" "finishing (CallData_new i s) = finishing s"
  "events (CallData_new i s) = events s" "responses (CallData_new i s) = responses s"
  "server_at (CallData_new i s) = server_at s" "length (calls (CallData_new i s)) = Suc (length (calls s))"
  "call_at (CallData_new i s) k = (if k = length (calls s)
     then Some \<lparr>call_id = i, call_status = PROCESS, call_request = None\<rparr> else call_at s k)"
  by (auto simp: CallData_new_def Proceed_create_def Let_def) (auto simp: call_at_def nth_append)

lemma finish_call_fields [simp]:
  "accepting (finish_call h c r s) = accepting s" "finishing (finish_call h c r s) = finishing s @ [h]"
  "events (finish_call h c r s) = events s" "responses (finish_call h c r s) = responses s @ [(h, call_request c, r)]"
  "server_at (finish_call h c r s) = In_loop" "length (calls (finish_call h c r s)) = length (calls s)"
  "h < length (calls s) \<Longrightarrow> call_at (finish_call h c r s) k = (if k = h then Some (c\<lparr>call_status := FINISH\<rparr>) else call_at s k)"
  by (simp_all add: finish_call_def Let_def)

lemma server_ok_frame: "server_ok cur (s\<lparr>server_at := p\<rparr>) = server_ok cur s"
  by (simp add: server_ok_def places_ok_def responses_ok_def listening_ok_def finished_def fresh_call_def)

text \<open>The thread takes an event of a call that was delivered, and creates the next object.\<close>

lemma places_lt: "places_ok cur s \<Longrightarrow> h \<in> set (accepting s) \<union> fst ` set (events s) \<union> set (finishing s) \<union> set cur \<Longrightarrow> h < length (calls s)"
  by (fastforce simp: places_ok_def dest: call_at_length)

lemma take_call:
  assumes ok: "server_ok [] s" and ev: "events s = (h, ok) # rest" and c: "call_at s h = Some c" "call_status c = PROCESS"
  shows "server_ok [h] (CallData_new (call_id c) (s\<lparr>events := rest\<rparr>))"
proof -
  let ?s = "CallData_new (call_id c) (s\<lparr>events := rest\<rparr>)" and ?n = "length (calls s)"
  have p: "places_ok [] s" and r: "responses_ok s" and l: "listening_ok s" using ok by (auto simp: server_ok_def)
  have new: "?n \<notin> set (accepting s) \<union> fst ` set (events s) \<union> set (finishing s)"
    using places_lt [OF p, of ?n] by auto
  note D = places_okD [OF p]
  have nr: "?n \<notin> fst ` set (responses s)" using r unfolding responses_ok_def by fastforce
  have P: "places_ok [h] ?s"
  proof (rule places_okI)
    show "distinct (accepting ?s @ map fst (events ?s) @ finishing ?s @ [h])" using D(1) ev new by auto
    show "\<exists>c. call_at ?s k = Some c \<and> call_status c = PROCESS" if "k \<in> set (accepting ?s)" for k
      using D(2) [of k] that by auto
    show "\<exists>c. call_at ?s k = Some c \<and> (call_status c = PROCESS \<and> b \<and> request_ok c \<or> call_status c = FINISH)"
      if "(k, b) \<in> set (events ?s)" for k b
      using D(3) [of k b] that ev call_at_length by fastforce
    show "\<exists>c. call_at ?s k = Some c \<and> call_status c = FINISH" if "k \<in> set (finishing ?s)" for k
      using D(4) [of k] that new by auto
    show "\<exists>c. call_at ?s k = Some c \<and> call_status c = PROCESS \<and> request_ok c" if "k \<in> set [h]" for k
      using D(3) [of h ok] that ev c new by auto
    show "call_status c' = PROCESS \<and> k \<in> set (accepting ?s) \<union> fst ` set (events ?s) \<union> set [h]"
      if "call_at ?s k = Some c'" "call_status c' \<noteq> FINISH" for k c'
      using D(6) [of k c'] that ev by (auto split: if_splits)
  qed
  have R: "responses_ok ?s"
    using r nr unfolding responses_ok_def finished_def by (auto simp: less_Suc_eq dest: call_at_length)
  have h: "fresh_call s h (call_id c)" using c ev by (simp add: fresh_call_def)
  have d: "h \<notin> set (accepting s) \<union> fst ` set rest" using p ev by (auto simp: places_ok_def)
  have "fresh_call ?s k i \<longleftrightarrow> (if k = ?n then i = call_id c else k \<noteq> h \<and> fresh_call s k i)" for k i
    using d new c ev unfolding fresh_call_def by (auto dest: call_at_length)
  note F = this
  have "\<exists>!k. fresh_call ?s k i" for i
  proof (cases "i = call_id c")
    case True
    then have "fresh_call ?s k i \<longleftrightarrow> k = ?n" for k using F l h unfolding listening_ok_def by metis
    then show ?thesis by simp
  next
    case False
    then have "\<not> fresh_call s h i" using c by (simp add: fresh_call_def)
    moreover have "\<not> fresh_call s ?n i" using new by (auto simp: fresh_call_def)
    ultimately have "fresh_call ?s k i \<longleftrightarrow> fresh_call s k i" for k using F False by metis
    then show ?thesis using l by (simp add: listening_ok_def)
  qed
  then have "listening_ok ?s" by (simp add: listening_ok_def)
  with P R show ?thesis by (simp add: server_ok_def)
qed

text \<open>A response ends the call that the thread drives.\<close>

lemma finish_ok:
  assumes ok: "server_ok [h] s" and c: "call_at s h = Some c" and r: "response_id r = call_id c"
  shows "server_ok [] (finish_call h c r s)"
proof -
  let ?s = "finish_call h c r s"
  have p: "places_ok [h] s" and rs: "responses_ok s" and l: "listening_ok s" using ok by (auto simp: server_ok_def)
  note D = places_okD [OF p]
  have lt: "h < length (calls s)" by (rule call_at_length [OF c])
  have st: "call_status c = PROCESS" "request_ok c" using D(5) [of h] c by auto
  have out: "h \<notin> set (accepting s) \<union> fst ` set (events s) \<union> set (finishing s)" using D(1) by auto
  have P: "places_ok [] ?s"
  proof (rule places_okI)
    show "distinct (accepting ?s @ map fst (events ?s) @ finishing ?s @ [])" using D(1) by auto
    show "\<exists>c. call_at ?s k = Some c \<and> call_status c = PROCESS" if "k \<in> set (accepting ?s)" for k
      using D(2) [of k] that out lt by auto
    show "\<exists>c. call_at ?s k = Some c \<and> (call_status c = PROCESS \<and> b \<and> request_ok c \<or> call_status c = FINISH)"
      if "(k, b) \<in> set (events ?s)" for k b
      using D(3) [of k b] that lt by auto
    show "\<exists>c. call_at ?s k = Some c \<and> call_status c = FINISH" if "k \<in> set (finishing ?s)" for k
      using D(4) [of k] that lt by auto
    show "call_status c' = PROCESS \<and> k \<in> set (accepting ?s) \<union> fst ` set (events ?s) \<union> set []"
      if "call_at ?s k = Some c'" "call_status c' \<noteq> FINISH" for k c'
      using D(6) [of k c'] that lt by (auto split: if_splits)
  qed simp
  have "h \<notin> fst ` set (responses s)"
    using rs lt c st by (simp add: responses_ok_def finished_def)
  then have R: "responses_ok ?s"
    using rs lt st(2) r unfolding responses_ok_def finished_def by (auto simp: request_ok_def)
  have "fresh_call ?s k i \<longleftrightarrow> fresh_call s k i" for k i
    using out lt by (auto simp: fresh_call_def)
  then have "listening_ok ?s" using l by (simp add: listening_ok_def)
  with P R show ?thesis by (simp add: server_ok_def)
qed

text \<open>An event of a finished call: the object is deleted, or left behind if the event failed.\<close>

lemma drop_ok:
  assumes ok: "server_ok [] s" and ev: "events s = (h, b) # rest" and c: "call_at s h = Some c" "call_status c = FINISH"
    and s': "s' = s\<lparr>events := rest\<rparr> \<or> s' = set_call h None (s\<lparr>events := rest\<rparr>)"
  shows "server_ok [] s'"
proof -
  have p: "places_ok [] s" and rs: "responses_ok s" and l: "listening_ok s" using ok by (auto simp: server_ok_def)
  note D = places_okD [OF p]
  have lt: "h < length (calls (s\<lparr>events := rest\<rparr>))" using call_at_length [OF c(1)] by simp
  have f: "accepting s' = accepting s" "finishing s' = finishing s" "events s' = rest" "responses s' = responses s"
    "length (calls s') = length (calls s)" and at: "call_at s' h = Some c \<or> call_at s' h = None" "k \<noteq> h \<Longrightarrow> call_at s' k = call_at s k" for k
    using s' lt c(1) by auto
  have out: "h \<notin> set (accepting s) \<union> fst ` set rest \<union> set (finishing s)" using D(1) ev by auto
  have P: "places_ok [] s'"
  proof (rule places_okI)
    show "distinct (accepting s' @ map fst (events s') @ finishing s' @ [])" using D(1) ev f by simp
    show "\<exists>c. call_at s' k = Some c \<and> call_status c = PROCESS" if "k \<in> set (accepting s')" for k
      using D(2) [of k] that out at(2) [of k] f by (cases "k = h") auto
    show "\<exists>c. call_at s' k = Some c \<and> (call_status c = PROCESS \<and> b \<and> request_ok c \<or> call_status c = FINISH)"
      if "(k, b) \<in> set (events s')" for k b
      using D(3) [of k b] that out at(2) [of k] f ev by (cases "k = h") (auto simp: image_iff)
    show "\<exists>c. call_at s' k = Some c \<and> call_status c = FINISH" if "k \<in> set (finishing s')" for k
      using D(4) [of k] that out at(2) [of k] f by (cases "k = h") auto
    show "call_status c' = PROCESS \<and> k \<in> set (accepting s') \<union> fst ` set (events s') \<union> set []"
      if "call_at s' k = Some c'" "call_status c' \<noteq> FINISH" for k c'
      using D(6) [of k c'] that at c f ev by (cases "k = h") auto
  qed simp
  have "finished s' k \<longleftrightarrow> finished s k" for k using at c by (cases "k = h") (auto simp: finished_def)
  then have R: "responses_ok s'" using rs by (simp add: responses_ok_def f)
  have "fresh_call s' k i \<longleftrightarrow> fresh_call s k i" for k i
    using at c ev out by (cases "k = h") (auto simp: fresh_call_def f)
  then have "listening_ok s'" using l by (simp add: listening_ok_def)
  with P R show ?thesis by (simp add: server_ok_def)
qed

text \<open>The runtime delivers a request, or reports a response.\<close>

lemma deliver_ok:
  assumes ok: "server_ok cur s" and h: "h \<in> set (accepting s)" "call_at s h = Some c" "call_id c = request_id r"
  shows "server_ok cur (deliver h r s)"
proof -
  let ?s = "deliver h r s"
  have p: "places_ok cur s" and rs: "responses_ok s" and l: "listening_ok s" using ok by (auto simp: server_ok_def)
  note D = places_okD [OF p]
  have lt: "h < length (calls s)" by (rule call_at_length [OF h(2)])
  have st: "call_status c = PROCESS" using D(2) [OF h(1)] h(2) by auto
  have f: "accepting ?s = remove1 h (accepting s)" "finishing ?s = finishing s" "events ?s = events s @ [(h, True)]"
    "responses ?s = responses s" "length (calls ?s) = length (calls s)"
    "call_at ?s k = (if k = h then Some (c\<lparr>call_request := Some r\<rparr>) else call_at s k)" for k
    using h(2) lt by (simp_all add: deliver_def)
  have a: "set (remove1 h (accepting s)) = set (accepting s) - {h}" using D(1) by (simp add: set_remove1_eq)
  have out: "h \<notin> fst ` set (events s) \<union> set (finishing s) \<union> set cur" using D(1) h(1) by auto
  have P: "places_ok cur ?s"
  proof (rule places_okI)
    show "distinct (accepting ?s @ map fst (events ?s) @ finishing ?s @ cur)"
      using D(1) out h(1) by (auto simp: f a distinct_remove1)
    show "\<exists>c. call_at ?s k = Some c \<and> call_status c = PROCESS" if "k \<in> set (accepting ?s)" for k
      using D(2) [of k] that by (auto simp: f a)
    show "\<exists>c. call_at ?s k = Some c \<and> (call_status c = PROCESS \<and> b \<and> request_ok c \<or> call_status c = FINISH)"
      if "(k, b) \<in> set (events ?s)" for k b
      using D(3) [of k b] that st h(3) out by (auto simp: f request_ok_def image_iff)
    show "\<exists>c. call_at ?s k = Some c \<and> call_status c = FINISH" if "k \<in> set (finishing ?s)" for k
      using D(4) [of k] that out by (auto simp: f)
    show "\<exists>c. call_at ?s k = Some c \<and> call_status c = PROCESS \<and> request_ok c" if "k \<in> set cur" for k
      using D(5) [of k] that out by (auto simp: f)
    show "call_status c' = PROCESS \<and> k \<in> set (accepting ?s) \<union> fst ` set (events ?s) \<union> set cur"
      if "call_at ?s k = Some c'" "call_status c' \<noteq> FINISH" for k c'
      using D(6) [of k c'] that st by (auto simp: f a split: if_splits)
  qed
  have "finished ?s k \<longleftrightarrow> finished s k" for k using h(2) by (auto simp: finished_def f)
  then have R: "responses_ok ?s" using rs by (simp add: responses_ok_def f)
  have "fresh_call ?s k i \<longleftrightarrow> fresh_call s k i" for k i using h st by (auto simp: fresh_call_def f a)
  then have "listening_ok ?s" using l by (simp add: listening_ok_def)
  with P R show ?thesis by (simp add: server_ok_def)
qed

lemma complete_ok:
  assumes ok: "server_ok cur s" and h: "h \<in> set (finishing s)"
  shows "server_ok cur (complete h b s)"
proof -
  let ?s = "complete h b s"
  have p: "places_ok cur s" and rs: "responses_ok s" and l: "listening_ok s" using ok by (auto simp: server_ok_def)
  note D = places_okD [OF p]
  have f: "accepting ?s = accepting s" "finishing ?s = remove1 h (finishing s)" "events ?s = events s @ [(h, b)]"
    "responses ?s = responses s" "calls ?s = calls s" "call_at ?s = call_at s"
    by (simp_all add: complete_def)
  have a: "set (remove1 h (finishing s)) = set (finishing s) - {h}" using D(1) by (simp add: set_remove1_eq)
  have out: "h \<notin> set (accepting s) \<union> fst ` set (events s) \<union> set cur" using D(1) h by auto
  have P: "places_ok cur ?s"
  proof (rule places_okI)
    show "distinct (accepting ?s @ map fst (events ?s) @ finishing ?s @ cur)"
      using D(1) out h by (auto simp: f a distinct_remove1)
    show "\<exists>c. call_at ?s k = Some c \<and> (call_status c = PROCESS \<and> b' \<and> request_ok c \<or> call_status c = FINISH)"
      if "(k, b') \<in> set (events ?s)" for k b'
      using D(3) [of k b'] D(4) [OF h] that by (auto simp: f)
    show "call_status c' = PROCESS \<and> k \<in> set (accepting ?s) \<union> fst ` set (events ?s) \<union> set cur"
      if "call_at ?s k = Some c'" "call_status c' \<noteq> FINISH" for k c'
      using D(6) [of k c'] that by (auto simp: f)
  qed (use D(2,4,5) in \<open>auto simp: f a\<close>)
  have R: "responses_ok ?s" using rs by (simp add: responses_ok_def finished_def f)
  have "fresh_call ?s k i \<longleftrightarrow> fresh_call s k i" for k i using D(4) [OF h] by (auto simp: fresh_call_def f)
  then have "listening_ok ?s" using l by (simp add: listening_ok_def)
  with P R show ?thesis by (simp add: server_ok_def)
qed

subsection \<open>What a step of the server thread does\<close>

fun current :: "server_pc \<Rightarrow> nat list" where
  "current In_loop = []"
| "current (SetConfiguration_waits h pc) = [h]"
| "current (RegisterClient_waits h w) = [h]"
| "current (ClientRequest_waits h request w) = [h]"

fun pc_waits :: "server_pc \<Rightarrow> nat \<Rightarrow> ClientCommandID \<Rightarrow> bool" where
  "pc_waits In_loop h i \<longleftrightarrow> False"
| "pc_waits (SetConfiguration_waits h' pc) h i \<longleftrightarrow> h' = h \<and> i = SET_CONFIGURATION"
| "pc_waits (RegisterClient_waits h' w) h i \<longleftrightarrow> h' = h \<and> i = REGISTER_CLIENT_CALL"
| "pc_waits (ClientRequest_waits h' request w) h i \<longleftrightarrow> h' = h \<and> i = CLIENT_REQUEST"

lemma pc_waits_current: "pc_waits pc h i \<Longrightarrow> current pc = [h]"
  by (cases pc) auto

text \<open>
  Driving a call of kind \<open>i\<close> either answers it with a response of this kind or leaves the thread
  waiting in it; and it changes the node by at most one event of the node's state machine.
\<close>

definition call_effect ::
  "protobuf \<Rightarrow> ClientCommandID \<Rightarrow> nat \<Rightarrow> CallData \<Rightarrow> server_state \<Rightarrow> server_state \<Rightarrow> bool" where
  "call_effect pb i h c x y \<longleftrightarrow>
     ((\<exists>r. fst y = finish_call h c r (fst x) \<and> response_id r = i) \<or>
      (\<exists>pc. fst y = (fst x)\<lparr>server_at := pc\<rparr> \<and> pc_waits pc h i)) \<and>
     (snd y = snd x \<or> (\<exists>ev. event_in_int ev \<and> handle pb ev (snd x) = Inr (snd y)))"

lemma SetConfiguration_at_effect:
  "n' = n \<or> (\<exists>ev. event_in_int ev \<and> handle pb ev n = Inr n') \<Longrightarrow>
     call_effect pb SET_CONFIGURATION h c (s, n) (SetConfiguration_at h c pc s, n')"
  by (cases pc) (force simp: call_effect_def SetConfiguration_at_def)+

lemma answered_by:
  "handle pb ev n = Inr n' \<Longrightarrow> event_in_int ev \<Longrightarrow> call_effect pb (response_id r) h c (s, n) (finish_call h c r s, n')"
  by (auto simp: call_effect_def)

lemma waits_by:
  "handle pb ev n = Inr n' \<Longrightarrow> event_in_int ev \<Longrightarrow> pc_waits pc h i \<Longrightarrow> call_effect pb i h c (s, n) (s\<lparr>server_at := pc\<rparr>, n')"
  by (auto simp: call_effect_def)

lemma answered_same: "call_effect pb (response_id r) h c (s, n) (finish_call h c r s, n)"
  by (auto simp: call_effect_def)

lemmas answered_intros =
  answered_by [where ev = "Vote_request e q" and r = "RequestVote_resp x y" for e q x y, simplified]
  answered_by [where ev = "Append_request e q" and r = "AppendEntries_resp x y" for e q x y, simplified]
  answered_by [where ev = Register_client and r = "RegisterClient_resp x y" for x y, simplified]
  answered_by [where ev = "Client_write q" and r = "ClientRequest_resp x y" for q x y, simplified]
  answered_by [where ev = "Register_resumes w" and r = "RegisterClient_resp x y" for w x y, simplified]
  answered_by [where ev = "Write_resumes q w" and r = "ClientRequest_resp x y" for q w x y, simplified]
  answered_same [where r = "GetConfiguration_resp x y" for x y, simplified]
  answered_same [where r = "ClientQuery_resp x y" for x y, simplified]

lemma SetConfiguration_at_by:
  "handle pb ev n = Inr n' \<Longrightarrow> event_in_int ev \<Longrightarrow>
     call_effect pb SET_CONFIGURATION h c (s, n) (SetConfiguration_at h c pc s, n')"
  by (blast intro: SetConfiguration_at_effect)

lemmas SetConfiguration_intros =
  SetConfiguration_at_by [where ev = "Set_configuration q" for q, simplified]
  SetConfiguration_at_by [where ev = "Sync_round t conf" for t conf, simplified]
  SetConfiguration_at_by [where ev = "Sync_wait b t conf" for b t conf, simplified]
  SetConfiguration_at_effect [OF disjI1, OF refl]

lemmas waits_intros =
  waits_by [where ev = Register_client and pc = "RegisterClient_waits k w" for k w, simplified]
  waits_by [where ev = "Client_write q" and pc = "ClientRequest_waits k q w" for k q w, simplified]

lemma process_effect:
  shows "RequestVoteData_process pb e h c (s, n) = Inr y \<Longrightarrow> call_effect pb REQUEST_VOTE h c (s, n) y"
    and "AppendEntriesData_process pb e h c (s, n) = Inr y \<Longrightarrow> call_effect pb APPEND_ENTRIES h c (s, n) y"
    and "GetConfigurationData_process h c (s, n) = Inr y \<Longrightarrow> call_effect pb GET_CONFIGURATION h c (s, n) y"
    and "ClientQueryData_process h c (s, n) = Inr y \<Longrightarrow> call_effect pb CLIENT_QUERY h c (s, n) y"
    and "SetConfigurationData_process h c (s, n) = Inr y \<Longrightarrow> call_effect pb SET_CONFIGURATION h c (s, n) y"
    and "RegisterClientData_process pb h c (s, n) = Inr y \<Longrightarrow> call_effect pb REGISTER_CLIENT_CALL h c (s, n) y"
    and "ClientRequestData_process pb h c (s, n) = Inr y \<Longrightarrow> call_effect pb CLIENT_REQUEST h c (s, n) y"
proof -
  show "RequestVoteData_process pb e h c (s, n) = Inr y \<Longrightarrow> call_effect pb REQUEST_VOTE h c (s, n) y"
    "AppendEntriesData_process pb e h c (s, n) = Inr y \<Longrightarrow> call_effect pb APPEND_ENTRIES h c (s, n) y"
    "GetConfigurationData_process h c (s, n) = Inr y \<Longrightarrow> call_effect pb GET_CONFIGURATION h c (s, n) y"
    "ClientQueryData_process h c (s, n) = Inr y \<Longrightarrow> call_effect pb CLIENT_QUERY h c (s, n) y"
    by (auto simp: RequestVoteData_process_def AppendEntriesData_process_def GetConfigurationData_process_def
        ClientQueryData_process_def split: option.splits Request.splits prod.splits intro: answered_intros)
next
  assume "SetConfigurationData_process h c (s, n) = Inr y"
  then obtain q where "y = (SetConfiguration_at h c (fst (SetConfiguration_begin q n)) s, snd (SetConfiguration_begin q n))"
    by (auto simp: SetConfigurationData_process_def split_beta split: option.splits Request.splits)
  then show "call_effect pb SET_CONFIGURATION h c (s, n) y"
    using SetConfiguration_at_by [of pb "Set_configuration q"] by simp
next
  assume "RegisterClientData_process pb h c (s, n) = Inr y"
  then obtain r n1 where "RegisterClient_begin pb n = Inr (r, n1)"
    "(case r of Inl (response, status) \<Rightarrow> Inr (finish_call h c (RegisterClient_resp response status) s, n1)
       | Inr w \<Rightarrow> Inr (s\<lparr>server_at := RegisterClient_waits h w\<rparr>, n1)) = (Inr y :: server_state result)"
    by (auto simp: RegisterClientData_process_def)
  then show "call_effect pb REGISTER_CLIENT_CALL h c (s, n) y"
    by (cases r) (auto intro: answered_intros waits_intros)
next
  assume "ClientRequestData_process pb h c (s, n) = Inr y"
  then obtain q r n1 where "ClientRequest_begin pb q n = Inr (r, n1)"
    "(case r of Inl (response, status) \<Rightarrow> Inr (finish_call h c (ClientRequest_resp response status) s, n1)
       | Inr w \<Rightarrow> Inr (s\<lparr>server_at := ClientRequest_waits h q w\<rparr>, n1)) = (Inr y :: server_state result)"
    by (auto simp: ClientRequestData_process_def split: option.splits Request.splits)
  then show "call_effect pb CLIENT_REQUEST h c (s, n) y"
    by (cases r) (auto intro: answered_intros waits_intros)
qed

text \<open>The thread that goes on inside a call.\<close>

lemma resume_effect:
  assumes "resume_call pb timed_out (s, n) = Some (Inr y)"
  obtains h c i where "pc_waits (server_at s) h i" "call_at s h = Some c" "call_effect pb i h c (s, n) y"
proof (cases "server_at s")
  case In_loop
  with assms show thesis by (simp add: resume_call_def)
next
  case (SetConfiguration_waits h pc)
  with assms obtain c where "call_at s h = Some c" "call_effect pb SET_CONFIGURATION h c (s, n) y"
    by (cases pc) (auto simp: resume_call_def split: option.splits intro: SetConfiguration_intros)
  then show thesis by (intro that) (simp_all add: SetConfiguration_waits)
next
  case (RegisterClient_waits h w)
  with assms obtain c where "call_at s h = Some c" "call_effect pb REGISTER_CLIENT_CALL h c (s, n) y"
    by (auto simp: resume_call_def split: option.splits if_splits intro: answered_intros)
  then show thesis by (intro that) (simp_all add: RegisterClient_waits)
next
  case (ClientRequest_waits h q w)
  with assms obtain c where "call_at s h = Some c" "call_effect pb CLIENT_REQUEST h c (s, n) y"
    by (auto simp: resume_call_def split: option.splits if_splits intro: answered_intros)
  then show thesis by (intro that) (simp_all add: ClientRequest_waits)
qed

text \<open>A round of the event loop: an object that failed or is finished goes, or a call is driven.\<close>

lemma loop_effect:
  assumes "RPCEventLoop pb e (s, n) = Some (Inr (s', n'))" and "places_ok [] s"
  obtains (drop) h b rest c where "events s = (h, b) # rest" "call_at s h = Some c" "call_status c = FINISH" "n' = n"
      "s' = s\<lparr>events := rest\<rparr> \<or> s' = set_call h None (s\<lparr>events := rest\<rparr>)"
  | (drive) h b rest c where "events s = (h, b) # rest" "call_at s h = Some c" "call_status c = PROCESS"
      "call_effect pb (call_id c) h c (CallData_new (call_id c) (s\<lparr>events := rest\<rparr>), n) (s', n')"
proof -
  from assms(1) obtain h b rest where ev: "events s = (h, b) # rest" and loop: "server_at s = In_loop"
    and res: "(if b then dispatch pb e h (s\<lparr>events := rest\<rparr>, n) else Inr (s\<lparr>events := rest\<rparr>, n)) = Inr (s', n')"
    by (auto simp: RPCEventLoop_def Let_def split: list.splits if_splits)
  from places_okD(3) [OF assms(2), of h b] ev obtain c where c: "call_at s h = Some c"
    and st: "call_status c = PROCESS \<and> b \<and> request_ok c \<or> call_status c = FINISH" by auto
  show thesis
  proof (cases "call_status c = FINISH")
    case True
    with res c have "n' = n \<and> (s' = s\<lparr>events := rest\<rparr> \<or> s' = set_call h None (s\<lparr>events := rest\<rparr>))"
      by (cases "call_id c") (auto simp: dispatch_def data_Proceed_defs Proceed_def split: if_splits)
    with ev c True show thesis by (intro drop) auto
  next
    case False
    with st res c have "call_effect pb (call_id c) h c (CallData_new (call_id c) (s\<lparr>events := rest\<rparr>), n) (s', n')"
      by (cases "call_id c") (auto simp: dispatch_def data_Proceed_defs Proceed_def intro: process_effect)
    with ev c False st show thesis by (intro drive) auto
  qed
qed

subsection \<open>All runs of the process\<close>

definition pc_ok :: "RaftServer \<Rightarrow> bool" where
  "pc_ok s \<longleftrightarrow> server_at s = In_loop \<or> (\<exists>h c. call_at s h = Some c \<and> pc_waits (server_at s) h (call_id c))"

lemma call_effect_ok:
  assumes "call_effect pb (call_id c) h c (s, n) (s', n')" and "server_ok [h] s" and "call_at s h = Some c"
  shows "server_ok (current (server_at s')) s' \<and> pc_ok s'"
proof -
  from assms(1) consider r where "s' = finish_call h c r s" "response_id r = call_id c"
    | pc where "s' = s\<lparr>server_at := pc\<rparr>" "pc_waits pc h (call_id c)" by (auto simp: call_effect_def)
  then show ?thesis
  proof cases
    case 1
    with finish_ok [OF assms(2,3)] show ?thesis by (simp add: pc_ok_def)
  next
    case 2
    then show ?thesis using assms(2,3) by (auto simp: pc_ok_def server_ok_frame pc_waits_current)
  qed
qed

lemma call_effect_reach:
  "call_effect pb i h c (s, n) (s', n') \<Longrightarrow> node_reachable pb n \<Longrightarrow> node_reachable pb n'"
  by (auto simp: call_effect_def intro: node_reachable.event)

text \<open>The first seven objects.\<close>

fun first_call :: "ClientCommandID \<Rightarrow> nat" where
  "first_call REQUEST_VOTE = 0"
| "first_call APPEND_ENTRIES = 1"
| "first_call GET_CONFIGURATION = 2"
| "first_call SET_CONFIGURATION = 3"
| "first_call REGISTER_CLIENT_CALL = 4"
| "first_call CLIENT_REQUEST = 5"
| "first_call CLIENT_QUERY = 6"

lemma ServerInit_eq:
  "accepting ServerInit = [0, 1, 2, 3, 4, 5, 6]" "events ServerInit = []" "finishing ServerInit = []"
  "responses ServerInit = []" "server_at ServerInit = In_loop" "length (calls ServerInit) = 7"
  "call_at ServerInit h = Some c \<longleftrightarrow>
     (\<exists>i. h = first_call i \<and> c = \<lparr>call_id = i, call_status = PROCESS, call_request = None\<rparr>)"
proof -
  show "accepting ServerInit = [0, 1, 2, 3, 4, 5, 6]" "events ServerInit = []" "finishing ServerInit = []"
    "responses ServerInit = []" "server_at ServerInit = In_loop" "length (calls ServerInit) = 7"
    by (simp_all add: ServerInit_def RPCEventLoop_begin_def data_new_defs)
  have all: "(\<exists>i. P i) \<longleftrightarrow> P REQUEST_VOTE \<or> P APPEND_ENTRIES \<or> P GET_CONFIGURATION \<or> P SET_CONFIGURATION \<or>
      P REGISTER_CLIENT_CALL \<or> P CLIENT_REQUEST \<or> P CLIENT_QUERY" for P
    by (metis ClientCommandID.exhaust)
  show "call_at ServerInit h = Some c \<longleftrightarrow>
     (\<exists>i. h = first_call i \<and> c = \<lparr>call_id = i, call_status = PROCESS, call_request = None\<rparr>)"
    unfolding all by (auto simp: ServerInit_def RPCEventLoop_begin_def data_new_defs) (auto simp: call_at_def)
qed

lemma ServerInit_ok: "server_ok [] ServerInit"
proof -
  have lt: "h < 7 \<longleftrightarrow> (\<exists>i. h = first_call i)" for h
  proof
    assume "h < 7"
    then consider "h = 0" | "h = 1" | "h = 2" | "h = 3" | "h = 4" | "h = 5" | "h = 6" by linarith
    then show "\<exists>i. h = first_call i" by cases (metis first_call.simps)+
  next
    have "first_call i < 7" for i by (cases i) simp_all
    then show "\<exists>i. h = first_call i \<Longrightarrow> h < 7" by blast
  qed
  have set: "set (accepting ServerInit) = {h. h < 7}" unfolding ServerInit_eq by auto
  have inj: "first_call i = first_call j \<longleftrightarrow> i = j" for i j by (cases i; cases j) simp_all
  have "places_ok [] ServerInit"
    by (rule places_okI) (use lt set in \<open>auto simp: ServerInit_eq(2-7)\<close>, simp add: ServerInit_eq)
  moreover have "responses_ok ServerInit"
    using lt by (auto simp: responses_ok_def finished_def ServerInit_eq)
  moreover have "fresh_call ServerInit h i \<longleftrightarrow> h = first_call i" for h i
    using lt by (auto simp: fresh_call_def set ServerInit_eq(2,7))
  then have "listening_ok ServerInit" by (simp add: listening_ok_def)
  ultimately show ?thesis by (simp add: server_ok_def)
qed

lemma loop_step_ok:
  assumes "RPCEventLoop pb e (s, n) = Some (Inr (s', n'))" and inv: "server_ok (current (server_at s)) s" and reach: "node_reachable pb n"
  shows "server_ok (current (server_at s')) s' \<and> pc_ok s' \<and> node_reachable pb n'"
proof -
  have loop: "server_at s = In_loop" using assms(1) by (auto simp: RPCEventLoop_def split: if_splits)
  with inv have ok: "server_ok [] s" by simp
  then have "places_ok [] s" by (simp add: server_ok_def)
  from assms(1) this show ?thesis
  proof (cases rule: loop_effect)
    case (drop h b rest c)
    from drop(5) loop have "server_at s' = In_loop" by auto
    with drop_ok [OF ok drop(1-3,5)] drop(4) reach show ?thesis by (simp add: pc_ok_def)
  next
    case (drive h b rest c)
    have "call_at (CallData_new (call_id c) (s\<lparr>events := rest\<rparr>)) h = Some c"
      using drive(2) call_at_length [OF drive(2)] by simp
    from call_effect_ok [OF drive(4) take_call [OF ok drive(1-3)] this] call_effect_reach [OF drive(4) reach]
    show ?thesis by simp
  qed
qed

lemma AsyncCompleteRPC_event:
  assumes "AsyncCompleteRPC pb e ok call n = Inr n'"
  shows "n' = n \<or> (\<exists>ev. event_in_int ev \<and> handle pb ev n = Inr n')"
proof (cases call)
  case (RequestVote_call q r st p)
  with assms show ?thesis
    by (cases "st = Status_OK") (auto simp: AsyncCompleteRPC_def HandleRequestVoteReply_def split: if_splits
        intro!: disjI2 exI [of _ "Vote_reply e q r p"])
next
  case (AppendEntries_call q r st p)
  with assms show ?thesis
    by (cases "st = Status_OK") (auto simp: AsyncCompleteRPC_def HandleAppendEntriesReply_def split: if_splits
        intro!: disjI2 exI [of _ "Append_reply e q r p"])
qed

lemma process_run_ok:
  "process_run pb s n \<Longrightarrow> server_ok (current (server_at s)) s \<and> pc_ok s \<and> node_reachable pb n"
proof (induction rule: process_run.induct)
  case (start n)
  then show ?case using ServerInit_ok by (simp add: ServerInit_eq pc_ok_def)
next
  case (request s n h c r)
  have "server_at (deliver h r s) = server_at s" "call_at (deliver h r s) k = Some d \<Longrightarrow> \<exists>d'. call_at s k = Some d' \<and> call_id d' = call_id d"
    "call_at s k = Some d \<Longrightarrow> \<exists>d'. call_at (deliver h r s) k = Some d' \<and> call_id d' = call_id d" for k d
    using request.hyps(3) call_at_length [OF request.hyps(3)] by (auto simp: deliver_def split: if_splits)
  with request deliver_ok [OF _ request.hyps(2-4)] show ?case unfolding pc_ok_def by metis
next
  case (responded s n h ok)
  then show ?case using complete_ok [OF _ responded.hyps(2)] by (simp add: pc_ok_def complete_def)
next
  case (server s n e s' n')
  then show ?case using loop_step_ok by blast
next
  case (resume s n b s' n')
  from resume.hyps(2) obtain h c i where r: "pc_waits (server_at s) h i" "call_at s h = Some c"
    "call_effect pb i h c (s, n) (s', n')" by (rule resume_effect)
  from resume.IH r(1,2) have "i = call_id c" by (cases "server_at s") (auto simp: pc_ok_def)
  with r resume.IH call_effect_ok [of pb c h s n s' n'] call_effect_reach [OF r(3)] show ?case
    by (simp add: pc_waits_current)
next
  case (reply s n e ok call n')
  with AsyncCompleteRPC_event [OF reply.hyps(2)] show ?case by (auto intro: node_reachable.event)
next
  case (timer s n e cb n')
  then show ?case by (auto intro: node_reachable.event [of pb n "Timer_fires e cb"])
qed

end
