(* ===== verification/Server_Queue.thy ===== *)
theory Server_Queue
  imports Raft_Server
begin

section \<open>The server as a queue of requests\<close>

text \<open>
  What the call objects, their stages and the completion queue amount to: a queue of requests in
  the order of their arrival, served one at a time by the handler of their kind, with one request
  at most in a wait, and every answer sent once. This is the specification; the lemmas show that
  each step of the server is a step of it or cleans up an object that is finished.
\<close>

subsection \<open>The specification\<close>

record service =
  pending :: "(nat \<times> Request) list"
  busy :: server_pc
  asked :: "(nat \<times> Request) option"
  sent :: "(nat \<times> Request option \<times> Response) list"

text \<open>What becomes of a request: a response, or a place where its handler waits.\<close>

definition sc_outcome :: "nat \<Rightarrow> SetConfiguration_pc \<Rightarrow> Response + server_pc" where
  "sc_outcome h pc =
     (case pc of SC_done r st \<Rightarrow> Inl (SetConfiguration_resp r st) | _ \<Rightarrow> Inr (SetConfiguration_waits h pc))"

definition begun :: "('r \<Rightarrow> Status \<Rightarrow> Response) \<Rightarrow> ('w \<Rightarrow> server_pc) \<Rightarrow> ('r \<times> Status) + 'w \<Rightarrow> Response + server_pc" where
  "begun answer waits x = map_sum (\<lambda>(r, st). answer r st) waits x"

fun handler :: "protobuf \<Rightarrow> env \<Rightarrow> nat \<Rightarrow> Request \<Rightarrow> ConsensusModule \<Rightarrow> ((Response + server_pc) \<times> ConsensusModule) result" where
  "handler pb e h (RequestVote_msg q) n =
     rbind (ProcessRequestVoteClientRequest pb e q n) (\<lambda>((r, st), n'). Inr (Inl (RequestVote_resp r st), n'))"
| "handler pb e h (AppendEntries_msg q) n =
     rbind (ProcessAppendEntriesClientRequest pb e q n) (\<lambda>((r, st), n'). Inr (Inl (AppendEntries_resp r st), n'))"
| "handler pb e h GetConfiguration_msg n =
     (case ProcessGetConfigurationClientRequest n of (r, st) \<Rightarrow> Inr (Inl (GetConfiguration_resp r st), n))"
| "handler pb e h (SetConfiguration_msg q) n =
     (case SetConfiguration_begin q n of (pc, n') \<Rightarrow> Inr (sc_outcome h pc, n'))"
| "handler pb e h RegisterClient_msg n =
     rbind (RegisterClient_begin pb n) (\<lambda>(x, n'). Inr (begun RegisterClient_resp (RegisterClient_waits h) x, n'))"
| "handler pb e h (ClientRequest_msg q) n =
     rbind (ClientRequest_begin pb q n) (\<lambda>(x, n'). Inr (begun ClientRequest_resp (ClientRequest_waits h q) x, n'))"
| "handler pb e h (ClientQuery_msg q) n =
     (case ProcessClientQueryClientRequest q n of (r, st) \<Rightarrow> Inr (Inl (ClientQuery_resp r st), n))"

text \<open>A handler in a wait: it goes on if the wait is over, and may wait again.\<close>

fun resumed :: "protobuf \<Rightarrow> bool \<Rightarrow> server_pc \<Rightarrow> ConsensusModule \<Rightarrow> ((Response + server_pc) \<times> ConsensusModule) result option" where
  "resumed pb b In_loop n = None"
| "resumed pb b (SetConfiguration_waits h (SC_syncing t conf)) n =
     Some (rbind (SetConfiguration_sync pb t conf n) (\<lambda>(pc, n'). Inr (sc_outcome h pc, n')))"
| "resumed pb b (SetConfiguration_waits h (SC_waiting t conf)) n =
     Some (rbind (SetConfiguration_wait b t conf n) (\<lambda>(pc, n'). Inr (sc_outcome h pc, n')))"
| "resumed pb b (SetConfiguration_waits h (SC_committing t i)) n = Some (Inr (sc_outcome h (SetConfiguration_commit t i n), n))"
| "resumed pb b (SetConfiguration_waits h (SC_done r st)) n = None"
| "resumed pb b (RegisterClient_waits h w) n =
     (if wait_over w n
      then Some (rbind (RegisterClient_resume w n) (\<lambda>((r, st), n'). Inr (Inl (RegisterClient_resp r st), n')))
      else None)"
| "resumed pb b (ClientRequest_waits h q w) n =
     (if wait_over w n
      then Some (rbind (ClientRequest_resume q w n) (\<lambda>((r, st), n'). Inr (Inl (ClientRequest_resp r st), n')))
      else None)"

fun settle :: "nat \<Rightarrow> Request \<Rightarrow> Response + server_pc \<Rightarrow> service \<Rightarrow> service" where
  "settle h q (Inl r) S = S\<lparr>busy := In_loop, asked := None, sent := sent S @ [(h, Some q, r)]\<rparr>"
| "settle h q (Inr pc) S = S\<lparr>busy := pc, asked := Some (h, q)\<rparr>"

definition serve :: "protobuf \<Rightarrow> env \<Rightarrow> service \<times> ConsensusModule \<Rightarrow> (service \<times> ConsensusModule) result" where
  "serve pb e = (\<lambda>(S, n).
     case pending S of
       [] \<Rightarrow> Inr (S, n)
     | (h, q) # ps \<Rightarrow> rbind (handler pb e h q n) (\<lambda>(x, n'). Inr (settle h q x (S\<lparr>pending := ps\<rparr>), n')))"

definition go_on :: "protobuf \<Rightarrow> bool \<Rightarrow> service \<times> ConsensusModule \<Rightarrow> (service \<times> ConsensusModule) result option" where
  "go_on pb b = (\<lambda>(S, n).
     case asked S of
       None \<Rightarrow> None
     | Some (h, q) \<Rightarrow> map_option (\<lambda>y. rbind y (\<lambda>(x, n'). Inr (settle h q x S, n'))) (resumed pb b (busy S) n))"

subsection \<open>The abstraction\<close>

definition request_of :: "RaftServer \<Rightarrow> nat \<Rightarrow> Request option" where
  "request_of s h =
     (case call_at s h of Some c \<Rightarrow> if call_status c = PROCESS then call_request c else None | None \<Rightarrow> None)"

definition queued :: "RaftServer \<Rightarrow> (nat \<times> bool) list \<Rightarrow> (nat \<times> Request) list" where
  "queued s evs = List.map_filter (\<lambda>(h, ok). map_option (Pair h) (request_of s h)) evs"

definition service_of :: "RaftServer \<Rightarrow> service" where
  "service_of s =
     \<lparr>pending = queued s (events s), busy = server_at s,
      asked = (case current (server_at s) of [] \<Rightarrow> None | h # hs \<Rightarrow> map_option (Pair h) (request_of s h)),
      sent = responses s\<rparr>"

lemma queued_simps [simp]:
  "queued s [] = []"
  "queued s ((h, ok) # evs) = (case request_of s h of None \<Rightarrow> queued s evs | Some q \<Rightarrow> (h, q) # queued s evs)"
  "queued s (evs @ evs') = queued s evs @ queued s evs'"
  by (simp_all add: queued_def map_filter_def split: option.split)

lemma queued_cong: "(\<And>h. h \<in> fst ` set evs \<Longrightarrow> request_of s' h = request_of s h) \<Longrightarrow> queued s' evs = queued s evs"
  by (induction evs) (force split: option.split)+

lemma request_of_frame [simp]:
  "request_of (s\<lparr>accepting := a\<rparr>) = request_of s" "request_of (s\<lparr>finishing := f\<rparr>) = request_of s"
  "request_of (s\<lparr>events := e\<rparr>) = request_of s" "request_of (s\<lparr>responses := r\<rparr>) = request_of s"
  "request_of (s\<lparr>server_at := p\<rparr>) = request_of s"
  by (simp_all add: request_of_def fun_eq_iff)

text \<open>What a driven call does to its object and to the thread.\<close>

fun driven :: "nat \<Rightarrow> CallData \<Rightarrow> Response + server_pc \<Rightarrow> RaftServer \<Rightarrow> RaftServer" where
  "driven h c (Inl r) s = finish_call h c r s"
| "driven h c (Inr pc) s = s\<lparr>server_at := pc\<rparr>"

lemma SetConfiguration_at_driven: "SetConfiguration_at h c pc s = driven h c (sc_outcome h pc) s"
  by (simp add: SetConfiguration_at_def sc_outcome_def split: SetConfiguration_pc.split)

lemma sc_outcome_waits: "sc_outcome h pc = Inr x \<Longrightarrow> current x = [h]"
  by (auto simp: sc_outcome_def split: SetConfiguration_pc.splits)

lemma begun_waits: "begun f g x = Inr pc \<longleftrightarrow> (\<exists>w. x = Inr w \<and> pc = g w)"
  by (cases x) (auto simp: begun_def)

lemma handler_waits: "handler pb e h q n = Inr (Inr pc, n') \<Longrightarrow> current pc = [h]"
  by (cases q) (auto simp: begun_waits dest: sc_outcome_waits split: prod.splits)

lemma resumed_waits: "resumed pb b pc n = Some (Inr (Inr pc', n')) \<Longrightarrow> current pc' = current pc"
  by (cases "(pb, b, pc, n)" rule: resumed.cases) (auto dest: sc_outcome_waits split: if_splits)

lemma rbind_case: "rbind m f = (case m of Inl x \<Rightarrow> Inl x | Inr y \<Rightarrow> f y)"
  by (cases m) simp_all

lemma service_of_driven:
  assumes lt: "h < length (calls s)" and c: "call_at s h = Some c" "call_status c = PROCESS" "call_request c = Some q"
    and out: "h \<notin> fst ` set (events s)" and waits: "\<And>pc. x = Inr pc \<Longrightarrow> current pc = [h]"
  shows "service_of (driven h c x s) = settle h q x (service_of s)"
proof (cases x)
  case (Inl r)
  have "request_of (finish_call h c r s) k = request_of s k" if "k \<noteq> h" for k
    using that lt by (simp add: request_of_def)
  then have "queued (finish_call h c r s) (events s) = queued s (events s)" using out by (intro queued_cong) metis
  with Inl c(3) show ?thesis by (simp add: service_of_def)
next
  case (Inr pc)
  have "queued (s\<lparr>server_at := pc\<rparr>) (events s) = queued s (events s)" by (rule queued_cong) simp
  moreover have "request_of s h = Some q" using c by (simp add: request_of_def)
  ultimately show ?thesis using Inr waits [OF Inr] by (simp add: service_of_def)
qed

subsection \<open>The steps\<close>

lemma process_driven:
  assumes "call_request c = Some q" and "request_id q = call_id c" and "call_at s h = Some c" and "call_status c = PROCESS"
  shows "dispatch pb e h (s, n) = rbind (handler pb e h q n) (\<lambda>(x, n'). Inr (driven h c x (CallData_new (call_id c) s), n'))"
  using assms
  by (cases q) (auto simp: dispatch_def data_Proceed_defs Proceed_def RequestVoteData_process_def AppendEntriesData_process_def
      GetConfigurationData_process_def SetConfigurationData_process_def RegisterClientData_process_def
      ClientRequestData_process_def ClientQueryData_process_def SetConfiguration_at_driven rbind_case begun_def
      split: sum.split prod.split)

lemma resume_driven:
  assumes "pc_waits (server_at s) h i" and "call_at s h = Some c"
  shows "resume_call pb b (s, n) =
    map_option (\<lambda>y. rbind y (\<lambda>(x, n'). Inr (driven h c x s, n'))) (resumed pb b (server_at s) n)"
  using assms
  by (cases "(pb, b, server_at s, n)" rule: resumed.cases)
    (auto simp: resume_call_def SetConfiguration_at_driven rbind_case split: sum.split prod.split)

lemma service_of_init: "service_of ServerInit = \<lparr>pending = [], busy = In_loop, asked = None, sent = []\<rparr>"
  by (simp add: service_of_def ServerInit_eq)

lemma service_of_deliver:
  assumes ok: "server_ok (current (server_at s)) s" and h: "h \<in> set (accepting s)" "call_at s h = Some c"
  shows "service_of (deliver h q s) = (service_of s)\<lparr>pending := pending (service_of s) @ [(h, q)]\<rparr>"
proof -
  have p: "places_ok (current (server_at s)) s" using ok by (simp add: server_ok_def)
  have lt: "h < length (calls s)" by (rule call_at_length [OF h(2)])
  have st: "call_status c = PROCESS" using places_okD(2) [OF p h(1)] h(2) by auto
  have out: "h \<notin> fst ` set (events s)" "h \<notin> set (current (server_at s))" using places_okD(1) [OF p] h(1) by auto
  let ?s = "deliver h q s"
  have f: "events ?s = events s @ [(h, True)]" "server_at ?s = server_at s" "responses ?s = responses s"
    "request_of ?s k = (if k = h then Some q else request_of s k)" for k
    using h(2) lt st by (simp_all add: deliver_def request_of_def)
  have "queued ?s (events s) = queued s (events s)" using out(1) by (intro queued_cong) (auto simp: f(4))
  with out(2) show ?thesis by (cases "current (server_at s)") (auto simp: service_of_def f)
qed

lemma service_of_complete:
  assumes ok: "server_ok (current (server_at s)) s" and h: "h \<in> set (finishing s)"
  shows "service_of (complete h b s) = service_of s"
proof -
  have "request_of s h = None"
    using ok places_okD(4) [OF _ h] by (fastforce simp: server_ok_def request_of_def)
  moreover have f: "request_of (complete h b s) = request_of s" "events (complete h b s) = events s @ [(h, b)]"
    "server_at (complete h b s) = server_at s" "responses (complete h b s) = responses s"
    by (simp_all add: complete_def)
  moreover have "queued (complete h b s) evs = queued s evs" for evs by (rule queued_cong) (simp add: f)
  ultimately show ?thesis by (simp add: service_of_def cong: list.case_cong)
qed

text \<open>A round of the event loop serves the head of the queue, or cleans up after an answered call.\<close>

lemma service_of_loop:
  assumes ok: "server_ok (current (server_at s)) s" and res: "RPCEventLoop pb e (s, n) = Some y"
  shows "events s \<noteq> [] \<and> (if fst (hd (events s)) \<in> fst ` set (responses s)
     then map_sum id (apfst service_of) y = Inr (service_of s, n)
     else pending (service_of s) \<noteq> [] \<and> map_sum id (apfst service_of) y = serve pb e (service_of s, n))"
proof -
  obtain h b rest where ev: "events s = (h, b) # rest" and loop: "server_at s = In_loop"
    and y: "y = (if b then dispatch pb e h (s\<lparr>events := rest\<rparr>, n) else Inr (s\<lparr>events := rest\<rparr>, n))"
    using res by (auto simp: RPCEventLoop_def Let_def split: list.splits if_splits)
  have p: "places_ok [] s" and r: "responses_ok s" using ok loop by (simp_all add: server_ok_def)
  obtain c where c: "call_at s h = Some c" "call_status c = PROCESS \<and> b \<and> request_ok c \<or> call_status c = FINISH"
    using places_okD(3) [OF p, of h b] ev by auto
  have lt: "h < length (calls s)" by (rule call_at_length [OF c(1)])
  have fin: "h \<in> fst ` set (responses s) \<longleftrightarrow> call_status c = FINISH"
    using r lt c(1) by (simp add: responses_ok_def finished_def)
  have out: "h \<notin> fst ` set rest" using places_okD(1) [OF p] ev by auto
  show ?thesis
  proof (cases "call_status c = FINISH")
    case True
    then have none: "request_of s h = None" using c(1) by (simp add: request_of_def)
    have "y = Inr (s\<lparr>events := rest\<rparr>, n) \<or> y = Inr (set_call h None (s\<lparr>events := rest\<rparr>), n)"
      using y c(1) True by (cases "call_id c") (auto simp: dispatch_def data_Proceed_defs Proceed_def)
    moreover have "request_of (set_call h None (s\<lparr>events := rest\<rparr>)) k = request_of s k" for k
      using none lt by (simp add: request_of_def)
    then have "queued (set_call h None (s\<lparr>events := rest\<rparr>)) rest = queued s rest" by (intro queued_cong) simp
    moreover have "queued (s\<lparr>events := rest\<rparr>) rest = queued s rest" by (intro queued_cong) simp
    ultimately have "map_sum id (apfst service_of) y = Inr (service_of s, n)"
      using none loop by (auto simp: service_of_def ev)
    with True fin ev show ?thesis by simp
  next
    case False
    with c(2) obtain q where b: b "call_status c = PROCESS" "call_request c = Some q" "request_id q = call_id c"
      by (auto simp: request_ok_def)
    let ?s = "CallData_new (call_id c) (s\<lparr>events := rest\<rparr>)"
    have at: "call_at ?s h = Some c" "h < length (calls ?s)" using c(1) lt by simp_all
    have new: "request_of ?s k = request_of s k" if "k \<in> fst ` set rest" for k
      using that places_lt [OF p, of k] ev by (simp add: request_of_def)
    have q: "request_of s h = Some q" using c(1) b by (simp add: request_of_def)
    have S: "service_of ?s = (service_of s)\<lparr>pending := queued s rest\<rparr>"
      using queued_cong [of rest ?s s, OF new] loop by (simp add: service_of_def)
    have "service_of (driven h c x ?s) = settle h q x (service_of ?s)" if "handler pb e h q n = Inr (x, n')" for x n'
      by (rule service_of_driven [OF at(2,1) b(2,3)]) (use that out handler_waits in auto)
    moreover have "dispatch pb e h (s\<lparr>events := rest\<rparr>, n) =
        rbind (handler pb e h q n) (\<lambda>(x, n'). Inr (driven h c x ?s, n'))"
      by (rule process_driven [OF b(3,4) _ b(2)]) (simp add: c(1))
    ultimately have "map_sum id (apfst service_of) y =
        rbind (handler pb e h q n) (\<lambda>(x, n'). Inr (settle h q x ((service_of s)\<lparr>pending := queued s rest\<rparr>), n'))"
      using y b(1) S by (cases "handler pb e h q n") auto
    with False fin ev q show ?thesis by (simp add: serve_def service_of_def)
  qed
qed

lemma service_of_resume:
  assumes ok: "server_ok (current (server_at s)) s" "pc_ok s"
  shows "map_option (map_sum id (apfst service_of)) (resume_call pb b (s, n)) = go_on pb b (service_of s, n)"
proof (cases "server_at s = In_loop")
  case True
  then show ?thesis by (simp add: resume_call_def go_on_def service_of_def)
next
  case False
  with ok(2) obtain h c where w: "pc_waits (server_at s) h (call_id c)" "call_at s h = Some c" by (auto simp: pc_ok_def)
  note cur = pc_waits_current [OF w(1)]
  have p: "places_ok [h] s" using ok(1) cur by (simp add: server_ok_def)
  obtain q where c: "call_status c = PROCESS" "call_request c = Some q" "request_of s h = Some q"
    using places_okD(5) [OF p, of h] w(2) by (auto simp: request_ok_def request_of_def)
  have lt: "h < length (calls s)" by (rule call_at_length [OF w(2)])
  have "h \<notin> fst ` set (events s)" using places_okD(1) [OF p] by auto
  then have "service_of (driven h c x s) = settle h q x (service_of s)" if "resumed pb b (server_at s) n = Some (Inr (x, n'))" for x n'
    by (intro service_of_driven [OF lt w(2) c(1,2)]) (use that cur resumed_waits in auto)
  then have "map_option (map_sum id (apfst service_of)) (resume_call pb b (s, n)) =
      map_option (\<lambda>y. rbind y (\<lambda>(x, n'). Inr (settle h q x (service_of s), n'))) (resumed pb b (server_at s) n)"
    unfolding resume_driven [OF w]
    by (cases "resumed pb b (server_at s) n") (auto simp: rbind_case split: sum.split)
  then show ?thesis using cur c(3) by (simp add: go_on_def service_of_def)
qed

end
