(* ===== verification/Node_Properties.thy ===== *)
theory Node_Properties
  imports Leader_Properties Node_Configuration
begin

section \<open>Properties of runs and of pairs of nodes\<close>

text \<open>
  What holds along every run of a node, crashes and restarts included, and what one round of
  replication between a leader and a follower establishes.
\<close>

subsection \<open>Durability and voting along runs\<close>

text \<open>
  C24. Durability of term and vote. In every state that a node can reach from a fresh directory
  by any events, restarts included, its term fits the code's \<open>int\<close>, and term and vote are
  those of the newest metadata on disk: a restart at that point comes up, provided the directory
  holds only files with names that the log gives, and resumes with the same term and vote.
\<close>

theorem term_and_vote_survive_restart:
  assumes codecs: "codec_ok default_entry (entry_codec pb)" "codec_ok default_metadata (metadata_codec pb)"
    and reach: "node_reachable pb n" and dir: "dir_ok (m_dir (m_log n)) (disk (m_log n))"
  shows "in_int (m_term n) \<and>
     (\<exists>n'. restart_node pb max_size now n = Inr n' \<and> m_term n' = m_term n \<and> m_vote n' = m_vote n)"
proof -
  have p: "persisted pb n" by (rule reachable_persisted [OF codecs(2) reach])
  then have "metadata_synced pb (m_log n)" "in_int (m_term n)" by (simp_all add: persisted_def disk_ok_def)
  with restart_returns [OF codecs(1) _ dir, of max_size] obtain l where
    "PersistedLog_new pb (m_dir (m_log n)) True max_size (disk (m_log n)) = Inr l" by blast
  then have "\<exists>n'. restart_node pb max_size now n = Inr n'" by (simp add: restart_node_def)
  with restart_node_persisted(2,3) [OF p] \<open>in_int (m_term n)\<close> show ?thesis by blast
qed

definition fresh_node :: ConsensusModule where
  "fresh_node = StateMachineInit (ConsensusModule_new ''n1'' (fresh_log ''d/'' 2 []) 0)"

lemma fresh_node_reachable: "node_reachable pb fresh_node"
  unfolding fresh_node_def by (rule node_reachable.boot) simp

definition voter_node :: ConsensusModule where
  "voter_node = projr (handle node_pb (Vote_request sample_env (vote_for ''n2'')) fresh_node)"

lemma voter_node_eq: "handle node_pb (Vote_request sample_env (vote_for ''n2'')) fresh_node = Inr voter_node"
proof -
  have "\<not> isl (handle node_pb (Vote_request sample_env (vote_for ''n2'')) fresh_node)" by code_simp
  then show ?thesis by (simp add: voter_node_def)
qed

lemma node_pb_codecs: "codec_ok default_entry (entry_codec node_pb)" "codec_ok default_metadata (metadata_codec node_pb)"
  by (simp_all add: node_pb_def codec_ok_table)

theorem term_and_vote_survive_restart_witness:
  "\<exists>n'. restart_node node_pb 2 7 voter_node = Inr n' \<and> m_term n' = 4 \<and> m_vote n' = ''n2''"
proof -
  have r: "node_reachable node_pb voter_node"
    by (rule node_reachable.event [OF fresh_node_reachable _ voter_node_eq]) simp
  have files: "ListDirectoryContents (m_dir (m_log voter_node)) (disk (m_log voter_node)) = [''open-0'', ''metadata2'', ''metadata1'']"
    and v: "m_term voter_node = 4" "m_vote voter_node = ''n2''"
    by code_simp+
  have "dir_ok (m_dir (m_log voter_node)) (disk (m_log voter_node))"
    unfolding dir_ok_def files by (simp add: IsFileOpen_def)
  from term_and_vote_survive_restart [OF node_pb_codecs r this, of 2 7] v show ?thesis by auto
qed





lemma granted_if_free:
  assumes ans: "ProcessRequestVoteClientRequest pb e req n = Inr ((rep, st), n')"
    and n: "m_state n = FOLLOWER" "m_election_deadline n < clock e 0" "m_vote n = ''''" "rv_term req = m_term n"
    and log: "LastLogTerm (m_log n) = Inr lt"
      "rv_lastLogTerm req > lt \<or> rv_lastLogTerm req = lt \<and> rv_lastLogIndex req \<ge> LastLogIndex (m_log n)"
  shows "rvr_voteGranted rep \<and> m_term n' = m_term n \<and> m_vote n' = rv_candidateId req"
  using ans
proof (cases rule: RequestVote_cases)
  case (considered n1 lt')
  have "n1 = n" using considered(4) n(4) by simp
  moreover from this have "lt' = lt" using considered(5) log(1) by simp
  ultimately have "vote_condition req lt' n1" using n log(2) by (simp add: vote_condition_def)
  with considered(8) \<open>n1 = n\<close> show ?thesis by (auto simp: ScheduleElection_def StoreState_keeps)
qed (use n in auto)

text \<open>
  C26. The exception to one vote per term. A node that has voted for a candidate and restarts is
  a candidate again, with term and vote as before. Any append request of this term, whether the
  node accepts it or not, makes it forget the vote; and if then another candidate of the same
  term asks after the election deadline, with a log that is at least as up to date, the request,
  if it returns, is granted: the node has voted for two candidates in one term.
\<close>

theorem restarted_voter_votes_again:
  assumes codec: "codec_ok default_metadata (metadata_codec pb)" and reach: "node_reachable pb n"
    and voted: "m_vote n = first" "first \<noteq> ''''"
    and restart: "restart_node pb max_size now n = Inr n1"
    and beat: "ProcessAppendEntriesClientRequest pb e req n1 = Inr ((rep, st), n2)" "ae_term req = m_term n"
    and ask: "ProcessRequestVoteClientRequest pb e' vreq n2 = Inr ((vrep, vst), n3)" "rv_term vreq = m_term n"
      "rv_candidateId vreq \<noteq> first" "m_election_deadline n2 < clock e' 0"
    and log: "LastLogTerm (m_log n2) = Inr lt"
      "rv_lastLogTerm vreq > lt \<or> rv_lastLogTerm vreq = lt \<and> rv_lastLogIndex vreq \<ge> LastLogIndex (m_log n2)"
  shows "m_state n1 = CANDIDATE \<and> m_term n1 = m_term n \<and> m_vote n1 = first \<and>
     m_term n2 = m_term n \<and> m_vote n2 = '''' \<and> md_vote (m_metadata (m_log n2)) = '''' \<and>
     rvr_voteGranted vrep \<and> m_term n3 = m_term n \<and> m_vote n3 = rv_candidateId vreq"
proof -
  have p: "persisted pb n" by (rule reachable_persisted [OF codec reach])
  have p1: "persisted pb n1" "m_term n1 = m_term n" "m_vote n1 = first" "in_int (m_term n1)"
    using restart_node_persisted [OF p restart] voted(1) by (simp_all add: persisted_def)
  have s1: "m_state n1 = CANDIDATE" by (rule restart_state [OF restart])
  have n2: "m_term n2 = m_term n" "m_vote n2 = ''''" "m_state n2 = FOLLOWER"
    using AppendEntries_forgets [OF beat(1)] beat(2) p1 s1 by simp_all
  have "persisted pb n2" using ProcessAppendEntriesClientRequest_persisted [OF codec p1(1)] beat(1) by blast
  then have "md_vote (m_metadata (m_log n2)) = ''''" using n2(2) by (simp add: persisted_def disk_ok_def)
  with granted_if_free [OF ask(1) n2(3) ask(4) n2(2) _ log] ask(2) n2 s1 p1 show ?thesis by simp
qed

definition quiet_beat :: AppendEntries_Request where
  "quiet_beat = \<lparr>ae_term = 4, ae_leaderId = ''n2'', ae_prevLogIndex = 7, ae_prevLogTerm = 3, ae_entries = [], ae_leaderCommit = -1\<rparr>"

definition forgetting_pb :: protobuf where
  "forgetting_pb = node_pb\<lparr>metadata_codec := table_codec
     [\<lparr>md_version = 1, md_term = 4, md_vote = ''''\<rparr>, \<lparr>md_version = 2, md_term = 4, md_vote = ''n2''\<rparr>,
      \<lparr>md_version = 3, md_term = 4, md_vote = ''''\<rparr>, \<lparr>md_version = 4, md_term = 4, md_vote = ''n3''\<rparr>]\<rparr>"

definition later_env :: env where
  "later_env = \<lparr>clock = (\<lambda>_. 5000), draw = (\<lambda>_. 1000)\<rparr>"

definition first_voter :: ConsensusModule where
  "first_voter = projr (handle forgetting_pb (Vote_request sample_env (vote_for ''n2'')) fresh_node)"

definition restarted_voter :: ConsensusModule where
  "restarted_voter = projr (restart_node forgetting_pb 2 0 first_voter)"

definition forgetful_voter :: ConsensusModule where
  "forgetful_voter = snd (projr (ProcessAppendEntriesClientRequest forgetting_pb sample_env quiet_beat restarted_voter))"

theorem restarted_voter_votes_again_witness:
  "m_vote first_voter = ''n2'' \<and> m_term first_voter = 4 \<and>
   (\<exists>n3. handle forgetting_pb (Vote_request later_env (vote_for ''n3'')) forgetful_voter = Inr n3 \<and>
      m_vote n3 = ''n3'' \<and> m_term n3 = 4)"
proof -
  let ?v = "handle forgetting_pb (Vote_request sample_env (vote_for ''n2'')) fresh_node"
  let ?r = "restart_node forgetting_pb 2 0 first_voter"
  let ?b = "ProcessAppendEntriesClientRequest forgetting_pb sample_env quiet_beat restarted_voter"
  let ?a = "ProcessRequestVoteClientRequest forgetting_pb later_env (vote_for ''n3'') forgetful_voter"
  have ok: "\<not> isl ?v" "\<not> isl ?r" "\<not> isl ?b" "\<not> isl ?a" by code_simp+
  have f: "m_vote first_voter = ''n2''" "m_term first_voter = 4" "m_election_deadline forgetful_voter < clock later_env 0"
    "LastLogTerm (m_log forgetful_voter) = Inr (-1)"
    by code_simp+
  have "node_reachable forgetting_pb first_voter"
    by (rule node_reachable.event [OF fresh_node_reachable, of "Vote_request sample_env (vote_for ''n2'')"])
      (use ok(1) in \<open>auto simp: first_voter_def\<close>)
  moreover have "codec_ok default_metadata (metadata_codec forgetting_pb)" by (simp add: forgetting_pb_def codec_ok_table)
  moreover have "?r = Inr restarted_voter" using ok(2) by (simp add: restarted_voter_def)
  moreover have "?b = Inr ((fst (fst (projr ?b)), snd (fst (projr ?b))), forgetful_voter)"
    using ok(3) by (simp add: forgetful_voter_def)
  moreover have a: "?a = Inr ((fst (fst (projr ?a)), snd (fst (projr ?a))), snd (projr ?a))" using ok(4) by simp
  ultimately have "m_term (snd (projr ?a)) = 4 \<and> m_vote (snd (projr ?a)) = ''n3''"
    using restarted_voter_votes_again [of forgetting_pb first_voter "''n2''" 2 0 restarted_voter sample_env quiet_beat
        "fst (fst (projr ?b))" "snd (fst (projr ?b))" forgetful_voter later_env "vote_for ''n3''"
        "fst (fst (projr ?a))" "snd (fst (projr ?a))" "snd (projr ?a)" "-1"] f
    by (simp add: quiet_beat_def vote_for_def)
  with f(1,2) ok(4) show ?thesis by (cases ?a) auto
qed

subsection \<open>The configuration along runs\<close>

text \<open>
  C10. In every state that a node can reach, whatever requests, entries, truncations and restarts
  it has seen, its configuration record is well formed: the address set is that of the
  configuration in force and has no duplicates, the stored configurations are ordered by log
  index, a joint configuration has new members, and the synchronisation record exists whenever
  the state says so. Hence the pointer to it is not null where the code dereferences it in state
  SYNC, and a progress report is answered without undefined behaviour.
\<close>

theorem configuration_stays_well_formed:
  assumes "node_reachable pb n"
  shows "set (m_addresses (m_configuration n)) = config_addresses (m_current_configuration (m_configuration n)) \<and>
     distinct (m_addresses (m_configuration n)) \<and> omap_sorted (m_configurations (m_configuration n)) \<and>
     (cc_state (m_configuration n) = CONF_JOINT \<longrightarrow>
        next_configuration (m_current_configuration (m_configuration n)) \<noteq> []) \<and>
     (cc_state (m_configuration n) = CONF_SYNC \<longrightarrow> m_log_sync (m_configuration n) \<noteq> None) \<and>
     (\<exists>b c'. UpdateSyncProgress a i (m_configuration n) = Inr (b, c'))"
  using reachable_conf [OF assms]
  by (auto simp: conf_wf_def config_wf_def sync_pointer_ok_def UpdateSyncProgress_def Let_def
      split: option.splits prod.splits)

definition sync_pb :: protobuf where
  "sync_pb = \<lparr>entry_codec = table_codec [default_entry, default_entry\<lparr>entry_type := CONFIGURATION,
     entry_data := ConfigurationData \<lparr>prev_configuration = [\<lparr>address = ''n1''\<rparr>], next_configuration = []\<rparr>\<rparr>],
     metadata_codec = table_codec []\<rparr>"

definition first_leader :: ConsensusModule where
  "first_leader = projr (handle sync_pb Initialize_configuration
     (StateMachineInit (ConsensusModule_new ''n1'' (fresh_log ''d/'' 100 []) 0)))"

definition syncing_leader :: ConsensusModule where
  "syncing_leader = snd (SetConfiguration_begin \<lparr>sc_oldId = 1, sc_new_servers = [\<lparr>address = ''n2''\<rparr>]\<rparr> first_leader)"

theorem configuration_stays_well_formed_witness:
  "cc_state (m_configuration syncing_leader) = CONF_SYNC \<and> m_log_sync (m_configuration syncing_leader) \<noteq> None \<and>
   (\<exists>b c'. UpdateSyncProgress ''n2'' 5 (m_configuration syncing_leader) = Inr (b, c'))"
proof -
  let ?boot = "StateMachineInit (ConsensusModule_new ''n1'' (fresh_log ''d/'' 100 []) 0)"
  have "\<not> isl (handle sync_pb Initialize_configuration ?boot)" by code_simp
  then have "handle sync_pb Initialize_configuration ?boot = Inr first_leader" by (simp add: first_leader_def)
  then have "node_reachable sync_pb first_leader"
    by (rule node_reachable.event [rotated 2]) (auto intro: node_reachable.boot)
  then have r: "node_reachable sync_pb syncing_leader"
    by (rule node_reachable.event [of _ _ "Set_configuration \<lparr>sc_oldId = 1, sc_new_servers = [\<lparr>address = ''n2''\<rparr>]\<rparr>"])
      (simp_all add: syncing_leader_def)
  have "cc_state (m_configuration syncing_leader) = CONF_SYNC" by code_simp
  then show ?thesis using configuration_stays_well_formed [OF r, of "''n2''" 5] by blast
qed

subsection \<open>One round of replication\<close>

text \<open>
  C27. A leader's heartbeat and a follower that accepts the request it got from it. Let the
  leader's log be readable, with terms and length in the range of \<open>int\<close>; let the follower's log
  be intact, every entry of the leader fit on one of its pages, the two logs have the matching
  property, and the first entry of the follower that conflicts with the request, if there is one,
  lie behind the first entry of its open page. Then the follower's log starts with the whole log
  of the leader afterwards, is intact, and still has the matching property with it. With a
  conflict at or before the first entry of the open page the entries would be unreadable (C12).
\<close>

theorem accepted_heartbeat_copies_log:
  assumes log: "log_readable (m_log leader)" and small: "int (length (log_list (m_log leader))) < 2 ^ 31"
    and terms: "\<forall>x \<in> set (log_list (m_log leader)). in_int (entry_term x)"
    and beat: "HeartbeatCallback pb e leader = Inr leader'"
    and sent: "Call_AppendEntries p req \<in> set (drop (length (m_sent leader)) (m_sent leader'))"
    and res: "ProcessAppendEntriesClientRequest pb' e' req n = Inr ((rep, st), n')" and ok: "aer_success rep"
    and inv: "log_inv (m_log n)" and fit: "\<forall>x \<in> set (log_list (m_log leader)). entry_fits pb' (m_log n) x"
    and op: "\<And>i. first_conflict (log_list (m_log n)) (nat (ae_prevLogIndex req + 1)) (ae_entries req) = Some i \<Longrightarrow>
      open_start (m_log n) < int i"
    and match: "log_matching (log_list (m_log n)) (log_list (m_log leader))"
  shows "log_inv (m_log n') \<and>
     take (length (log_list (m_log leader))) (log_list (m_log n')) = log_list (m_log leader) \<and>
     log_matching (log_list (m_log n')) (log_list (m_log leader)) \<and> ae_leaderId req = ctx_address leader"
proof -
  let ?L = "log_list (m_log leader)"
  obtain calls where "m_sent leader' = m_sent leader @ calls"
    "\<forall>call \<in> set calls. honest_request leader (m_term leader) call"
    using HeartbeatCallback_sends [OF log beat] by blast
  with sent have "honest_request leader (m_term leader) (Call_AppendEntries p req)" by auto
  then obtain k where k: "k \<le> length ?L" "ae_prevLogIndex req = int k - 1" "ae_entries req = drop k ?L"
    "ae_prevLogTerm req = (if k = 0 then -1 else to_int (entry_term (?L ! (k - 1))))"
    "ae_leaderId req = ctx_address leader"
    unfolding honest_request_def by blast
  have s: "nat (ae_prevLogIndex req + 1) = k" using k(2) by simp
  have t: "ae_prevLogTerm req = entry_term (?L ! (k - 1))" if "0 < k"
    using that k(1,4) terms by (simp add: to_int_id)
  have "log_inv (m_log n') \<and> take (k + (length ?L - k)) (log_list (m_log n')) = take (k + (length ?L - k)) ?L"
    using AppendEntries_leader_prefix [OF res ok inv, where L = ?L and k = "length ?L - k"] k s t small fit op match
    by (auto dest: in_set_dropD)
  with k have A: "log_inv (m_log n')" "take (length ?L) (log_list (m_log n')) = ?L" by auto
  then have "log_matching (log_list (m_log n')) ?L"
    by (auto simp: log_matching_def) (metis less_eq_Suc_le min.absorb1 take_take)
  with A k(5) show ?thesis by blast
qed

definition follower_log :: PersistedLog where
  "follower_log = snd (projr (Append sample_pb [sample_entry 1 ''b:2''] (fresh_log ''e/'' 9 [])))"

lemma follower_log_inv:
  "log_inv follower_log" "m_max_file_size follower_log = 9" "log_list follower_log = [sample_entry 1 ''b:2'']"
  using Append_inv [OF fresh_log_inv [of 9 "''e/''" "[]"], of "[sample_entry 1 ''b:2'']" sample_pb]
  by (auto simp: follower_log_def node_entries_fit)

definition follower_node :: ConsensusModule where
  "follower_node = StateMachineInit (ConsensusModule_new ''n3'' follower_log 0)"

lemma follower_node_log: "m_log follower_node = follower_log"
  by (simp add: follower_node_def StateMachineInit_fields) (simp add: ConsensusModule_new_def)

definition follower_pb :: protobuf where
  "follower_pb = node_pb\<lparr>metadata_codec := table_codec [\<lparr>md_version = 1, md_term = 2, md_vote = ''''\<rparr>]\<rparr>"

definition beat_request :: AppendEntries_Request where
  "beat_request = \<lparr>ae_term = 2, ae_leaderId = ''n1'', ae_prevLogIndex = 0, ae_prevLogTerm = 1,
     ae_entries = [sample_entry 1 ''a:1'', sample_entry 2 ''c:3''], ae_leaderCommit = -1\<rparr>"

theorem accepted_heartbeat_copies_log_witness:
  "take 3 (log_list (m_log (snd (projr (ProcessAppendEntriesClientRequest follower_pb sample_env beat_request follower_node)))))
     = log_list (m_log leader_node)"
proof -
  let ?b = "HeartbeatCallback node_pb sample_env leader_node"
  let ?r = "ProcessAppendEntriesClientRequest follower_pb sample_env beat_request follower_node"
  let ?L = "log_list (m_log leader_node)"
  have b: "\<not> isl ?b" and s: "Call_AppendEntries ''n3'' beat_request \<in> set (drop (length (m_sent leader_node)) (m_sent (projr ?b)))"
    and r: "\<not> isl ?r" and ok: "aer_success (fst (fst (projr ?r)))" by code_simp+
  from b r have eq: "?b = Inr (projr ?b)" "?r = Inr ((fst (fst (projr ?r)), snd (fst (projr ?r))), snd (projr ?r))" by simp_all
  have "log_readable (m_log leader_node)" "length ?L = 3" and ints: "\<forall>x \<in> set ?L. in_int (entry_term x)"
    by (simp_all add: node_log_inv sample_entry_def in_int_def)
  moreover have "entry_fits follower_pb l x \<longleftrightarrow> entry_fits node_pb l x" for l x
    by (simp add: entry_fits_def follower_pb_def)
  then have "\<forall>x \<in> set ?L. entry_fits follower_pb (m_log follower_node) x"
    by (simp add: node_log_inv node_entries_fit follower_node_log follower_log_inv)
  moreover have "log_matching (log_list (m_log follower_node)) ?L" "log_inv (m_log follower_node)"
    by (simp_all add: log_matching_def node_log_inv follower_node_log follower_log_inv)
  moreover have "first_conflict (log_list (m_log follower_node)) (nat (ae_prevLogIndex beat_request + 1)) (ae_entries beat_request) = None"
    by (simp add: first_conflict_def beat_request_def follower_node_log follower_log_inv)
  ultimately show ?thesis
    using accepted_heartbeat_copies_log [OF _ _ ints eq(1) s eq(2) ok] by simp
qed

end
