(* ===== verification/Server_Properties.thy ===== *)
theory Server_Properties
  imports Server_Queue Node_Properties
begin

section \<open>Properties of the RPC server\<close>

text \<open>
  What holds in every interleaving of the gRPC runtime, the server thread, the thread that
  completes the node's own calls and the timer callbacks.
\<close>

subsection \<open>Calls\<close>

text \<open>
  C35. Every request is answered at most once, by a response of its own kind; and a call object
  without a response is registered for a request, waits in the completion queue with its request,
  or is the one the server thread is in: no accepted request is forgotten.
\<close>

theorem server_answers_once:
  assumes "process_run pb s n"
  shows "distinct (map fst (responses s)) \<and>
     (\<forall>h q r. (h, q, r) \<in> set (responses s) \<longrightarrow> (\<exists>request. q = Some request \<and> request_id request = response_id r)) \<and>
     (\<forall>h < length (calls s). h \<notin> fst ` set (responses s) \<longrightarrow>
        h \<in> set (accepting s) \<or> (h, True) \<in> set (events s) \<or> current (server_at s) = [h])"
proof -
  let ?cur = "current (server_at s)"
  from process_run_ok [OF assms] have ok: "places_ok ?cur s" "responses_ok s" by (simp_all add: server_ok_def)
  have "h \<in> set (accepting s) \<or> (h, True) \<in> set (events s) \<or> ?cur = [h]"
    if "h < length (calls s)" "h \<notin> fst ` set (responses s)" for h
  proof -
    from that ok(2) obtain c where c: "call_at s h = Some c" "call_status c \<noteq> FINISH"
      by (auto simp: responses_ok_def finished_def)
    then have "h \<in> set (accepting s) \<union> fst ` set (events s) \<union> set ?cur" using places_okD(6) [OF ok(1)] by blast
    moreover have "h \<in> fst ` set (events s) \<Longrightarrow> (h, True) \<in> set (events s)"
      using places_okD(3) [OF ok(1)] c by (force simp: image_iff)
    moreover have "h \<in> set ?cur \<Longrightarrow> ?cur = [h]" by (cases "server_at s") auto
    ultimately show ?thesis by blast
  qed
  with ok(2) show ?thesis by (simp add: responses_ok_def)
qed

text \<open>
  C36. The server keeps listening. For each of the seven kinds of calls there is at any time
  exactly one call object that takes the next request of this kind or has taken it and not been
  processed yet; and no event refers to a deleted object.
\<close>

theorem server_keeps_listening:
  assumes "process_run pb s n"
  shows "(\<forall>i. \<exists>!h. (h \<in> set (accepting s) \<or> h \<in> fst ` set (events s)) \<and>
       (\<exists>c. call_at s h = Some c \<and> call_status c = PROCESS \<and> call_id c = i)) \<and>
     (\<forall>h ok. (h, ok) \<in> set (events s) \<longrightarrow> call_at s h \<noteq> None)"
proof -
  from process_run_ok [OF assms] have ok: "places_ok (current (server_at s)) s" "listening_ok s" by (simp_all add: server_ok_def)
  from ok(2) have "\<forall>i. \<exists>!h. (h \<in> set (accepting s) \<or> h \<in> fst ` set (events s)) \<and>
       (\<exists>c. call_at s h = Some c \<and> call_status c = PROCESS \<and> call_id c = i)"
    by (simp add: listening_ok_def fresh_call_def)
  with places_okD(3) [OF ok(1)] show ?thesis by blast
qed

subsection \<open>The node behind the server\<close>

text \<open>
  C34. The server refines a queue of requests (\<open>Server_Queue\<close>): pending requests in the order of
  their arrival, at most one request whose handler waits, and the answers sent. In every state
  that the interleaved threads of a process reach, a request that the runtime delivers is put at
  the end of the queue, and the end of a response changes nothing. A round of the event loop is
  that of the queue: it takes the first pending request, runs the handler of its kind on it and
  on the node, once, and either sends the handler's answer for this request or leaves the thread
  waiting in it; if instead the event belongs to a call already answered, neither queue nor node
  changes. And the thread goes on in a wait exactly when the wait of that handler is over, with
  its outcome. An exception of a handler is an exception of the round, and there is no other.
\<close>

theorem server_refines_queue:
  assumes "process_run pb s n"
  shows "(\<forall>h c q. h \<in> set (accepting s) \<and> call_at s h = Some c \<and> call_id c = request_id q \<longrightarrow>
        service_of (deliver h q s) = (service_of s)\<lparr>pending := pending (service_of s) @ [(h, q)]\<rparr>) \<and>
     (\<forall>h b. h \<in> set (finishing s) \<longrightarrow> service_of (complete h b s) = service_of s) \<and>
     (\<forall>e y. RPCEventLoop pb e (s, n) = Some y \<longrightarrow> events s \<noteq> [] \<and>
        (if fst (hd (events s)) \<in> fst ` set (responses s)
         then map_sum id (apfst service_of) y = Inr (service_of s, n)
         else pending (service_of s) \<noteq> [] \<and> map_sum id (apfst service_of) y = serve pb e (service_of s, n))) \<and>
     (\<forall>b. map_option (map_sum id (apfst service_of)) (resume_call pb b (s, n)) = go_on pb b (service_of s, n))"
proof -
  have ok: "server_ok (current (server_at s)) s" "pc_ok s" using process_run_ok [OF assms] by blast+
  show ?thesis
    using service_of_deliver [OF ok(1)] service_of_complete [OF ok(1)] service_of_loop [OF ok(1)] service_of_resume [OF ok]
    by blast
qed

text \<open>A process that has been asked for a vote and answered.\<close>

definition asked_server :: RaftServer where
  "asked_server = deliver 0 (RequestVote_msg (vote_for ''n2'')) ServerInit"

definition answered_server :: RaftServer where
  "answered_server = fst (projr (the (RPCEventLoop node_pb sample_env (asked_server, fresh_node))))"

lemma asked_server_eq:
  "call_at ServerInit 0 = Some \<lparr>call_id = REQUEST_VOTE, call_status = PROCESS, call_request = None\<rparr>"
  "call_at asked_server 0 = Some \<lparr>call_id = REQUEST_VOTE, call_status = PROCESS,
     call_request = Some (RequestVote_msg (vote_for ''n2''))\<rparr>"
  "events asked_server = [(0, True)]" "server_at asked_server = In_loop" "responses asked_server = []"
proof -
  show c: "call_at ServerInit 0 = Some \<lparr>call_id = REQUEST_VOTE, call_status = PROCESS, call_request = None\<rparr>"
    unfolding ServerInit_eq by (metis first_call.simps(1))
  then show "call_at asked_server 0 = Some \<lparr>call_id = REQUEST_VOTE, call_status = PROCESS,
     call_request = Some (RequestVote_msg (vote_for ''n2''))\<rparr>"
    "events asked_server = [(0, True)]" "server_at asked_server = In_loop" "responses asked_server = []"
    by (simp_all add: asked_server_def deliver_def ServerInit_eq(1-6))
qed

lemma asked_server_run: "process_run node_pb asked_server fresh_node"
  unfolding asked_server_def
  by (rule process_run.request [OF process_run.start [OF fresh_node_reachable] _ asked_server_eq(1)])
    (simp_all add: ServerInit_eq(1-6))

lemma answered_server_run: "process_run node_pb answered_server voter_node"
  and answered_server_step: "RPCEventLoop node_pb sample_env (asked_server, fresh_node) = Some (Inr (answered_server, voter_node))"
  and answered_server_responses: "map fst (responses answered_server) = [0]"
proof -
  obtain resp st where "ProcessRequestVoteClientRequest node_pb sample_env (vote_for ''n2'') fresh_node = Inr ((resp, st), voter_node)"
    using voter_node_eq by auto
  then have r: "RPCEventLoop node_pb sample_env (asked_server, fresh_node) = Some (Inr (finish_call 0 (the (call_at asked_server 0))
      (RequestVote_resp resp st) (CallData_new REQUEST_VOTE (asked_server\<lparr>events := []\<rparr>)), voter_node))"
    by (simp add: RPCEventLoop_def asked_server_eq dispatch_def data_Proceed_defs Proceed_def RequestVoteData_process_def)
  then show step: "RPCEventLoop node_pb sample_env (asked_server, fresh_node) = Some (Inr (answered_server, voter_node))"
    by (simp add: answered_server_def)
  with asked_server_run show "process_run node_pb answered_server voter_node" by (rule process_run.server)
  from r show "map fst (responses answered_server) = [0]" by (simp add: answered_server_def asked_server_eq)
qed

theorem server_answers_once_witness:
  "\<exists>request r. (0, Some request, r) \<in> set (responses answered_server) \<and> request_id request = response_id r"
proof -
  obtain q r where "(0, q, r) \<in> set (responses answered_server)"
    using answered_server_responses by (cases "responses answered_server") auto
  with server_answers_once [OF answered_server_run] show ?thesis by blast
qed

theorem server_keeps_listening_witness:
  "\<exists>!h. (h \<in> set (accepting answered_server) \<or> h \<in> fst ` set (events answered_server)) \<and>
     (\<exists>c. call_at answered_server h = Some c \<and> call_status c = PROCESS \<and> call_id c = REQUEST_VOTE)"
  using server_keeps_listening [OF answered_server_run] by blast

theorem server_refines_queue_witness:
  "pending (service_of asked_server) = [(0, RequestVote_msg (vote_for ''n2''))] \<and>
   serve node_pb sample_env (service_of asked_server, fresh_node) = Inr (service_of answered_server, voter_node) \<and>
   service_of answered_server \<noteq> service_of asked_server"
proof -
  have q: "request_of asked_server 0 = Some (RequestVote_msg (vote_for ''n2''))" by (simp add: request_of_def asked_server_eq)
  have "pending (service_of asked_server) = [(0, RequestVote_msg (vote_for ''n2''))]"
    by (simp add: service_of_def asked_server_eq q)
  moreover have "serve node_pb sample_env (service_of asked_server, fresh_node) = Inr (service_of answered_server, voter_node)"
    using server_refines_queue [OF asked_server_run, THEN conjunct2, THEN conjunct2, THEN conjunct1, rule_format,
        OF answered_server_step] by (simp add: asked_server_eq)
  moreover have "sent (service_of answered_server) \<noteq> sent (service_of asked_server)"
    using answered_server_responses by (auto simp: service_of_def asked_server_eq)
  ultimately show ?thesis by metis
qed

end
