(* ===== verification/Command_Line.thy ===== *)
theory Command_Line
  imports Leader_Proxy Raft_Server
begin

section \<open>The command line\<close>

text \<open>
  \<open>src/cli\<close> and \<open>src/raft/global_ctx_manager.cpp\<close>: the commands that start a node and
  that talk to a cluster through the leader proxy. \<open>getopt_long\<close> is code of the C library: the
  options it reports, with their arguments, and the arguments it leaves behind (the command word
  first) are the input of the model. What a command prints is a list of pieces.
\<close>

subsection \<open>Options\<close>

text \<open>
  \<open>getline\<close> on a string stream, up to the next comma: the stream stays good exactly if it
  stopped at a comma, and the loop runs at least once.
\<close>

fun SplitCommaSeparated :: "string \<Rightarrow> string list" where
  "SplitCommaSeparated [] = [[]]"
| "SplitCommaSeparated (c # s) =
     (if c = CHR '','' then [] # SplitCommaSeparated s
      else case SplitCommaSeparated s of
        [] \<Rightarrow> [[c]]
      | cur # args \<Rightarrow> (c # cur) # args)"

text \<open>How parsing ends: the process exits with a code, or the command goes on.\<close>

datatype 'a parsed = Exits int | Goes_on 'a

text \<open>The option loop of the commands that name a cluster, and that of \<open>create\<close>.\<close>

fun cluster_options :: "(char \<times> string) list \<Rightarrow> string list \<Rightarrow> string list parsed" where
  "cluster_options [] cluster = Goes_on cluster"
| "cluster_options ((c, optarg) # opts) cluster =
     (if c = CHR ''c'' then cluster_options opts (SplitCommaSeparated optarg)
      else if c = CHR ''h'' then Exits 0
      else Exits 1)"

fun create_options :: "(char \<times> string) list \<Rightarrow> bool \<Rightarrow> bool parsed" where
  "create_options [] initialize_as_leader = Goes_on initialize_as_leader"
| "create_options ((c, optarg) # opts) initialize_as_leader =
     (if c = CHR ''l'' then create_options opts True
      else if c = CHR ''h'' then Exits 0
      else Exits 1)"

text \<open>The argument behind the command word: \<open>optind++\<close>, and an error if nothing is left.\<close>

definition next_argument :: "string list \<Rightarrow> string parsed" where
  "next_argument rest = (case rest of _ # a # _ \<Rightarrow> Goes_on a | _ \<Rightarrow> Exits 1)"

fun then_parse :: "'a parsed \<Rightarrow> ('a \<Rightarrow> 'b parsed) \<Rightarrow> 'b parsed" where
  "then_parse (Exits n) f = Exits n"
| "then_parse (Goes_on x) f = f x"

definition Create_Parse :: "(char \<times> string) list \<Rightarrow> string list \<Rightarrow> (string \<times> bool) parsed" where
  "Create_Parse opts rest =
     then_parse (create_options opts False) (\<lambda>leader. then_parse (next_argument rest) (\<lambda>a. Goes_on (a, leader)))"

definition Write_Parse :: "(char \<times> string) list \<Rightarrow> string list \<Rightarrow> (string list \<times> string) parsed" where
  "Write_Parse opts rest =
     then_parse (cluster_options opts []) (\<lambda>cluster. then_parse (next_argument rest) (\<lambda>command. Goes_on (cluster, command)))"

definition Query_Parse :: "(char \<times> string) list \<Rightarrow> string list \<Rightarrow> (string list \<times> string) parsed" where
  "Query_Parse opts rest =
     then_parse (cluster_options opts []) (\<lambda>cluster. then_parse (next_argument rest) (\<lambda>command. Goes_on (cluster, command)))"

definition Reconfigure_Parse :: "(char \<times> string) list \<Rightarrow> string list \<Rightarrow> (string list \<times> string list) parsed" where
  "Reconfigure_Parse opts rest =
     then_parse (cluster_options opts []) (\<lambda>old_addresses.
       then_parse (next_argument rest) (\<lambda>a. Goes_on (old_addresses, SplitCommaSeparated a)))"

text \<open>
  The dispatch on the command word. Without a command the program complains and then still reads
  \<open>argv[1]\<close>, a null pointer.
\<close>

datatype command = Create | Reconfigure | Query | Write | CommandList | Invalid_command

definition MaelstromCLI_Execute :: "string list \<Rightarrow> command result" where
  "MaelstromCLI_Execute args =
     (case args of
        [] \<Rightarrow> Inl Undefined_behaviour
      | command # _ \<Rightarrow>
          Inr (if command = ''create'' then Create
               else if command = ''reconfigure'' then Reconfigure
               else if command = ''query'' then Query
               else if command = ''write'' then Write
               else if command = ''help'' then CommandList
               else Invalid_command))"

subsection \<open>Commands to a cluster\<close>

text \<open>
  A command uses one proxy for several kinds of calls: the remote side is what one leaves for the
  next. Each returns what it prints. \<open>None\<close> is a call that never returns.
\<close>

fun error_message :: "Status \<Rightarrow> string" where
  "error_message Status_OK = []"
| "error_message Status_CANCELLED = []"
| "error_message Status_UNAVAILABLE = []"
| "error_message (Status_UNKNOWN msg code hint) = msg"

definition yes_no :: "Status \<Rightarrow> string" where
  "yes_no status = (if status = Status_OK then ''Yes'' else ''No'')"

definition Query_Execute ::
  "(ClientQuery_Request, ClientQuery_Response, 'e) service \<Rightarrow> string list \<Rightarrow> string \<Rightarrow> 'e \<Rightarrow>
   (string list \<times> 'e) result option" where
  "Query_Execute service addresses command e =
     (let proxy = LeaderProxy_new addresses \<lparr>cqr_status = False, cqr_response = [], cqr_leaderHint = []\<rparr> e in
      map_option (\<lambda>out. rbind out (\<lambda>(status, p).
        Inr ([''Query successful? '', yes_no status] @
          (if status = Status_OK then [''Query response: '', cqr_response (reply p)]
           else [''Query error: '', error_message status]), remote p)))
        (Proxy_ClientQuery service command proxy))"

definition Write_Execute ::
  "(unit, RegisterClient_Response, 'e) service \<Rightarrow> (ClientRequest_Request, ClientRequest_Response, 'e) service \<Rightarrow>
   string list \<Rightarrow> string \<Rightarrow> 'e \<Rightarrow> (string list \<times> 'e) result option" where
  "Write_Execute register request addresses command e =
     (let proxy = LeaderProxy_new addresses \<lparr>rcr_status = False, rcr_clientId = 0, rcr_leaderHint = []\<rparr> e in
      case Proxy_RegisterClient register proxy of
        None \<Rightarrow> None
      | Some (Inl x) \<Rightarrow> Some (Inl x)
      | Some (Inr (status, p)) \<Rightarrow>
          (let out = [''Session created successfully? '', yes_no status] in
           if status \<noteq> Status_OK then Some (Inr (out, remote p))
           else
             let sequence_num = 1; proxy2 = LeaderProxy_new addresses empty_reply (remote p) in
             map_option (\<lambda>r. rbind r (\<lambda>(status, p).
               Inr (out @ [''Query successful? '', yes_no status] @
                 (if status = Status_OK then [''Query response: '', crr_response (reply p)]
                  else [''Query error: '', error_message status]), remote p)))
               (Proxy_ClientRequest request (to_int (rcr_clientId (reply p))) sequence_num command proxy2)))"

definition Reconfigure_SetConfiguration ::
  "(unit, GetConfiguration_Response, 'e) service \<Rightarrow> (SetConfiguration_Request, SetConfiguration_Response, 'e) service \<Rightarrow>
   string list \<Rightarrow> string list \<Rightarrow> 'e \<Rightarrow> (string list \<times> 'e) result option" where
  "Reconfigure_SetConfiguration get_conf set_conf old_addresses new_addresses e =
     (let proxy = LeaderProxy_new old_addresses \<lparr>gcr_id = 0, gcr_servers = []\<rparr> e in
      case Proxy_GetClusterConfiguration get_conf proxy of
        None \<Rightarrow> None
      | Some (Inl x) \<Rightarrow> Some (Inl x)
      | Some (Inr (status, p)) \<Rightarrow>
          (let out = [''Existing configuration: ''] @ map address (gcr_servers (reply p)) @ [''New configuration: ''] @ new_addresses;
               servers = map (\<lambda>a. \<lparr>address = a\<rparr>) new_addresses;
               proxy2 = LeaderProxy_new old_addresses \<lparr>scr_ok = False\<rparr> (remote p)
           in map_option (\<lambda>r. rbind r (\<lambda>(status, p).
                Inr (out @ [''Membership result OK? '', yes_no status] @
                  (if status \<noteq> Status_OK then [''Membership change error: '', error_message status] else []), remote p)))
                (Proxy_SetClusterConfiguration set_conf (to_int (gcr_id (reply p))) servers proxy2)))"

subsection \<open>Starting a node\<close>

text \<open>The context: the log is restored from a fixed directory with the default file size.\<close>

definition GlobalCtxManager_new :: "protobuf \<Rightarrow> string \<Rightarrow> int \<Rightarrow> file_system \<Rightarrow> ConsensusModule result" where
  "GlobalCtxManager_new pb a now fs =
     rbind (PersistedLog_new pb ''/data/raft/'' True (1024 * 8) fs) (\<lambda>l. Inr (ConsensusModule_new a l now))"

definition Create_InitializeNode :: "protobuf \<Rightarrow> string \<Rightarrow> bool \<Rightarrow> int \<Rightarrow> file_system \<Rightarrow> server_state result" where
  "Create_InitializeNode pb a leader now fs =
     rbind (GlobalCtxManager_new pb a now fs) (\<lambda>n.
       let n1 = StateMachineInit n in
       rbind (if leader then InitializeConfiguration pb n1 else Inr n1) (\<lambda>n2. Inr (ServerInit, n2)))"

subsection \<open>Lists of addresses\<close>

fun comma_join :: "string list \<Rightarrow> string" where
  "comma_join [] = []"
| "comma_join [x] = x"
| "comma_join (x # xs) = x @ CHR '','' # comma_join xs"

lemma SplitCommaSeparated_append:
  "CHR '','' \<notin> set x \<Longrightarrow> SplitCommaSeparated (x @ CHR '','' # s) = x # SplitCommaSeparated s"
  by (induction x) auto

lemma SplitCommaSeparated_single: "CHR '','' \<notin> set x \<Longrightarrow> SplitCommaSeparated x = [x]"
  by (induction x) auto

text \<open>Splitting undoes joining, and loses nothing.\<close>

lemma split_join:
  assumes "xs \<noteq> []" and "\<forall>x \<in> set xs. CHR '','' \<notin> set x"
  shows "SplitCommaSeparated (comma_join xs) = xs"
  using assms
  by (induction xs rule: comma_join.induct) (simp_all add: SplitCommaSeparated_append SplitCommaSeparated_single)

lemma join_split: "comma_join (SplitCommaSeparated s) = s \<and> SplitCommaSeparated s \<noteq> []"
proof (induction s rule: SplitCommaSeparated.induct)
  case (2 c s)
  show ?case
  proof (cases "SplitCommaSeparated s")
    case (Cons x xs)
    with 2 show ?thesis by (cases xs) (auto split: if_splits)
  qed (use 2 in auto)
qed simp

subsection \<open>The first node\<close>

lemma restore_empty:
  assumes "ListDirectoryContents d fs = []"
  shows "PersistedLog_new pb d True n fs = Inr (fresh_log d n fs)"
  using assms by (simp add: PersistedLog_new_restore blank_log_def make_page_def Page_new_def fresh_log_def Let_def)

lemma empty_no_metadata: "ListDirectoryContents d fs = [] \<Longrightarrow> \<forall>f \<in> metadata_names. fs_read fs (d @ f) = None"
  using blank_log_listed [of _ d fs] by auto

end
