(* ===== verification/Follower_Runs.thy ===== *)
theory Follower_Runs
  imports Consensus_Properties
begin

section \<open>Runs of a follower\<close>

text \<open>
  A node from its start on, as long as it does not become leader: the store is at any time the
  effect of the committed prefix of its log. The condition on the append requests it accepts is
  what the protocol promises of a leader, together with the two limits of the paged log. An
  ex-leader is left out: a leader applies only the entries of the calls that wait for them.
\<close>

subsection \<open>Frames\<close>

definition settled :: "ConsensusModule \<Rightarrow> ConsensusModule \<Rightarrow> bool" where
  "settled n n' \<longleftrightarrow> log_same (m_log n) (m_log n') \<and> m_state_machine n' = m_state_machine n \<and>
     m_commit_index n' = m_commit_index n"

named_theorems settled_simps \<open>updates that leave log, commit index and state machine alone\<close>

lemma settled_refl [simp]: "settled n n"
  by (simp add: settled_def)

lemma settled_trans: "settled n n1 \<Longrightarrow> settled n1 n2 \<Longrightarrow> settled n n2"
  by (auto simp: settled_def intro: log_same_trans)

lemma settled_updates [settled_simps]:
  "settled n (n'\<lparr>m_state := s\<rparr>) = settled n n'" "settled n (n'\<lparr>m_votes_received := v\<rparr>) = settled n n'"
  "settled n (n'\<lparr>m_leader_id := a\<rparr>) = settled n n'" "settled n (n'\<lparr>m_election_deadline := t\<rparr>) = settled n n'"
  "settled n (ScheduleElection r t n') = settled n n'" "settled (n\<lparr>m_leader_id := a\<rparr>) n' = settled n n'"
  "settled (n\<lparr>m_vote := x\<rparr>) n' = settled n n'"
  "settled (n\<lparr>m_state := st, m_term := u, m_vote := x, m_votes_received := v\<rparr>) n' = settled n n'"
  by (simp_all add: settled_def ScheduleElection_def)

lemma settled_ResetToFollower: "ResetToFollower pb r t n = Inr n' \<Longrightarrow> settled n n'"
  by (simp add: settled_def ResetToFollower_log_same)

lemma settled_reset_if: "(if b then ResetToFollower pb r t n else Inr n) = Inr n' \<Longrightarrow> settled n n'"
  by (auto simp: settled_ResetToFollower split: if_splits)

lemma settled_StoreState: "StoreState pb n = Inr n' \<Longrightarrow> settled n n'"
  by (auto simp: settled_def StoreState_log_same) (auto simp: StoreState_def)

lemma settled_request_votes [settled_simps]: "settled n (request_votes t i j n') = settled n n'"
proof -
  have "core (request_votes t i j n') = core n'" by (rule core_request_votes)
  moreover have "m_state_machine (fold f ps k) = m_state_machine k"
    if "f = (\<lambda>p k. if p = ctx_address k then k else Client_RequestVote p t i j k)" for f ps k
    by (induction ps arbitrary: k)
      (simp_all add: that Client_RequestVote_def start_call_def split: option.split bool.split)
  ultimately show ?thesis by (simp add: settled_def core_def request_votes_def)
qed

subsection \<open>Events that do not replicate\<close>

lemma ElectionCallback_settled:
  assumes res: "ElectionCallback pb e t n = Inr n'" and "m_state n' \<noteq> LEADER"
  shows "settled n n'"
proof -
  define n1 where "n1 = n\<lparr>m_state := CANDIDATE, m_term := to_int (m_term n + 1), m_vote := ctx_address n,
    m_votes_received := 1\<rparr>"
  consider "n' = n \<or> n' = ScheduleElection (draw e 0) t n" | n2 where "PromoteToLeader pb n2 = Inr n'"
    | n2 i j where "StoreState pb n1 = Inr n2" "n' = ScheduleElection (draw e 0) (m_term n1) (request_votes (m_term n1) i j n2)"
    using res unfolding ElectionCallback_def Let_def n1_def [symmetric] by (force split: if_splits)
  then show ?thesis
  proof cases
    case 2
    then show ?thesis using PromoteToLeader_quiet(2) assms(2) by blast
  next
    case 3
    from settled_StoreState [OF 3(1)] have "settled n n2" by (simp add: n1_def settled_simps)
    with 3(2) show ?thesis by (simp add: settled_simps)
  qed (auto simp: settled_simps)
qed

lemma RequestVote_settled:
  assumes "ProcessRequestVoteClientRequest pb e req n = Inr ((rep, st), n')"
  shows "settled n n'"
  using assms
proof (cases rule: RequestVote_cases)
  case (considered n1 lt)
  have "settled n1 n'"
    using considered(8) settled_StoreState [of pb "n1\<lparr>m_vote := rv_candidateId req\<rparr>"] by (auto simp: settled_simps)
  with settled_reset_if [OF considered(4)] show ?thesis by (rule settled_trans)
qed simp

lemma RequestVoteReply_settled:
  assumes res: "ProcessRequestVoteServerResponse pb e req rep a n = Inr n'" and "m_state n' \<noteq> LEADER"
  shows "settled n n'"
proof -
  consider "n' = n" | "n' = n\<lparr>m_votes_received := m_votes_received n + 1\<rparr>"
    | "ResetToFollower pb (draw e 0) (to_int (rvr_term rep)) n = Inr n'"
    | "PromoteToLeader pb (n\<lparr>m_votes_received := m_votes_received n + 1\<rparr>) = Inr n'"
    using res unfolding ProcessRequestVoteServerResponse_def Let_def by (metis sum.inject(2))
  then show ?thesis
    using settled_ResetToFollower PromoteToLeader_quiet(2) assms(2) by cases (auto simp: settled_simps)
qed

lemma AppendReply_settled:
  assumes res: "ProcessAppendEntriesServerResponse pb e req rep a n = Inr n'" and "m_state n \<noteq> LEADER"
  shows "settled n n'"
proof -
  from res obtain n1 where n1: "(if aer_term rep > ae_term req
      then ResetToFollower pb (draw e 0) (to_int (aer_term rep)) (n\<lparr>m_leader_id := ''''\<rparr>) else Inr n) = Inr n1"
    unfolding ProcessAppendEntriesServerResponse_def rbind_Inr_iff by blast
  then have "m_state n1 \<noteq> LEADER" using assms(2) ResetToFollower_fields(3) by (fastforce split: if_splits)
  with res n1 have "n' = n1" by (simp add: ProcessAppendEntriesServerResponse_def)
  with n1 settled_ResetToFollower [of pb "draw e 0" "to_int (aer_term rep)" "n\<lparr>m_leader_id := ''''\<rparr>" n1]
  show ?thesis by (auto simp: settled_simps split: if_splits)
qed

lemma AppendEntries_rejected:
  assumes res: "ProcessAppendEntriesClientRequest pb e req n = Inr ((rep, st), n')" and "\<not> aer_success rep"
  shows "settled n n'"
proof (cases "m_state n = DEAD")
  case False
  from res False obtain n1 where
    n1: "(if ae_term req > m_term n then ResetToFollower pb (draw e 0) (to_int (ae_term req)) n else Inr n) = Inr n1"
    unfolding ProcessAppendEntriesClientRequest_def by auto
  have "settled n1 n'"
  proof (cases "ae_term req = m_term n1")
    case True
    then obtain n2 where "(if m_state n1 \<noteq> FOLLOWER then ResetToFollower pb (draw e 1) (to_int (ae_term req)) n1
        else Inr ((ScheduleElection (draw e 1) (to_int (ae_term req)) n1)\<lparr>m_election_deadline := clock e 0 +
          m_election_timeout (ScheduleElection (draw e 1) (to_int (ae_term req)) n1)\<rparr>)) = Inr n2"
      "settled n2 n'"
      using res False n1 assms(2)
      by (auto simp: ProcessAppendEntriesClientRequest_def Let_def settled_simps split: if_splits)
    note n2 = this
    have "settled n1 n2"
      using n2(1) settled_ResetToFollower [of pb "draw e 1" "to_int (ae_term req)" n1 n2]
      by (cases "m_state n1 = FOLLOWER") (auto simp: settled_simps)
    then show ?thesis using n2(2) by (rule settled_trans)
  qed (use res False n1 in \<open>simp add: ProcessAppendEntriesClientRequest_def Let_def, auto simp: settled_simps\<close>)
  with settled_reset_if [OF n1] show ?thesis by (rule settled_trans)
qed (use res in \<open>simp add: ProcessAppendEntriesClientRequest_def\<close>)

subsection \<open>The run of a follower\<close>

text \<open>
  What can happen to a node that has not led: no call of it waits, and a restart begins a new run.
  A request is clean if it fits the paged log, contradicts no committed entry, and commits only
  what the node then has.
\<close>

fun follower_event :: "Event \<Rightarrow> bool" where
  "follower_event (Sync_round t conf) = False"
| "follower_event (Sync_wait b t conf) = False"
| "follower_event (Register_resumes w) = False"
| "follower_event (Write_resumes req w) = False"
| "follower_event Initialize_configuration = False"
| "follower_event (Crash_restart s t) = False"
| "follower_event _ = True"

definition clean_request :: "protobuf \<Rightarrow> AppendEntries_Request \<Rightarrow> ConsensusModule \<Rightarrow> bool" where
  "clean_request pb req n \<longleftrightarrow>
     (let xs = log_list (m_log n); s = nat (ae_prevLogIndex req + 1); es = ae_entries req in
      -1 \<le> ae_prevLogIndex req \<and> ae_prevLogIndex req + 1 < 2 ^ 31 \<and> (\<forall>x \<in> set es. entry_fits pb (m_log n) x) \<and>
      (case first_conflict xs s es of
         None \<Rightarrow> True | Some i \<Rightarrow> open_start (m_log n) < int i \<and> m_commit_index n < int i) \<and>
      in_int (ae_leaderCommit req) \<and> ae_leaderCommit req < int (length (reconcile xs s es)))"

fun clean_event :: "protobuf \<Rightarrow> Event \<Rightarrow> ConsensusModule \<Rightarrow> bool" where
  "clean_event pb (Append_request e req) n \<longleftrightarrow>
     (case ProcessAppendEntriesClientRequest pb e req n of
        Inr ((rep, st), n') \<Rightarrow> aer_success rep \<longrightarrow> clean_request pb req n
      | Inl x \<Rightarrow> True)"
| "clean_event pb ev n \<longleftrightarrow> follower_event ev"

fun follower_run :: "protobuf \<Rightarrow> Event list \<Rightarrow> ConsensusModule \<Rightarrow> bool" where
  "follower_run pb [] n \<longleftrightarrow> True"
| "follower_run pb (ev # evs) n \<longleftrightarrow> clean_event pb ev n \<and>
     (case handle pb ev n of Inr n1 \<Rightarrow> m_state n1 \<noteq> LEADER \<and> follower_run pb evs n1 | Inl x \<Rightarrow> True)"

definition applied_ok :: "ConsensusModule \<Rightarrow> bool" where
  "applied_ok n \<longleftrightarrow> log_inv (m_log n) \<and> state_of_log (m_log n) (m_state_machine n) \<and>
     LastApplied (m_state_machine n) = m_commit_index n"

lemma settled_applied: "settled n n' \<Longrightarrow> applied_ok n \<Longrightarrow> applied_ok n'"
  by (simp add: settled_def applied_ok_def state_of_log_def log_same_def)

lemma clean_request_applied:
  assumes inv: "applied_ok n" and clean: "clean_request pb req n"
    and res: "ProcessAppendEntriesClientRequest pb e req n = Inr ((rep, st), n')" and ok: "aer_success rep"
  shows "applied_ok n'"
proof -
  let ?s = "nat (ae_prevLogIndex req + 1)"
  have I: "log_inv (m_log n)" "state_of_log (m_log n) (m_state_machine n)" "LastApplied (m_state_machine n) = m_commit_index n"
    using inv by (simp_all add: applied_ok_def)
  have C: "-1 \<le> ae_prevLogIndex req" "ae_prevLogIndex req + 1 < 2 ^ 31" "\<forall>x \<in> set (ae_entries req). entry_fits pb (m_log n) x"
    "in_int (ae_leaderCommit req)" "ae_leaderCommit req < int (length (reconcile (log_list (m_log n)) ?s (ae_entries req)))"
    using clean by (simp_all add: clean_request_def Let_def)
  have op: "open_start (m_log n) < int i \<and> m_commit_index n < int i"
    if "first_conflict (log_list (m_log n)) ?s (ae_entries req) = Some i" for i
    using clean that by (simp add: clean_request_def Let_def)
  have "log_inv (m_log n')" using AppendEntries_success_log(1) [OF res ok I(1) C(1-3)] op by blast
  with AppendEntries_state_of_log [OF res ok I(1) C(1-3) _ I(2) _ C(5,4)] op I(3) show ?thesis
    by (simp add: applied_ok_def)
qed

lemma follower_step:
  assumes inv: "applied_ok n" "m_state n \<noteq> LEADER" and ok: "clean_event pb ev n"
    and res: "handle pb ev n = Inr n'" and follower: "m_state n' \<noteq> LEADER"
  shows "applied_ok n'"
proof (cases ev)
  case (Append_request e req)
  then obtain rep st where r: "ProcessAppendEntriesClientRequest pb e req n = Inr ((rep, st), n')" using res by auto
  show ?thesis
  proof (cases "aer_success rep")
    case True
    with ok r Append_request have "clean_request pb req n" by simp
    then show ?thesis by (rule clean_request_applied [OF inv(1) _ r True])
  qed (use settled_applied [OF AppendEntries_rejected [OF r] inv(1)] in blast)
next
  case (Timer_fires e cb)
  have "settled n n'"
    using res follower inv(2) unfolding Timer_fires
    by (cases cb) (auto simp: run_callback_def HeartbeatCallback_def ElectionCallback_settled settled_ResetToFollower)
  then show ?thesis using inv(1) by (rule settled_applied)
next
  case (Vote_request e req)
  then show ?thesis using res RequestVote_settled settled_applied [OF _ inv(1)] by auto
next
  case (Vote_reply e req rep a)
  then show ?thesis using res RequestVoteReply_settled follower settled_applied [OF _ inv(1)] by auto
next
  case (Append_reply e req rep a)
  then show ?thesis using res AppendReply_settled inv(2) settled_applied [OF _ inv(1)] by auto
qed (use assms in \<open>auto simp: SetConfiguration_begin_def RegisterClient_begin_def ClientRequest_begin_def
    Shutdown_def applied_ok_def\<close>)

lemma start_applied:
  assumes "log_inv l"
  shows "applied_ok (StateMachineInit (ConsensusModule_new a l now))"
    and "m_state (StateMachineInit (ConsensusModule_new a l now)) = CANDIDATE"
proof -
  have "m_log (StateMachineInit k) = m_log k" "m_commit_index (StateMachineInit k) = m_commit_index k"
    "LastApplied (m_state_machine (StateMachineInit k)) = -1" "m_state (StateMachineInit k) = m_state k"
    "sm_store (m_state_machine (StateMachineInit k)) = sm_store (m_state_machine k)" for k
    by (auto simp: StateMachineInit_def Let_def Metadata_def CreateConnections_def StateMachine_new_def LastApplied_def
        split: option.splits)
  with assms show "applied_ok (StateMachineInit (ConsensusModule_new a l now))"
    "m_state (StateMachineInit (ConsensusModule_new a l now)) = CANDIDATE"
    by (simp_all add: applied_ok_def state_of_log_def) (simp_all add: ConsensusModule_new_def StateMachine_new_def)
qed

lemma follower_run_applied:
  "\<lbrakk> applied_ok n; m_state n \<noteq> LEADER; follower_run pb evs n; node_run pb evs n = Inr (vs, n') \<rbrakk> \<Longrightarrow> applied_ok n'"
proof (induction evs arbitrary: n vs)
  case (Cons ev evs)
  from Cons.prems(4) obtain n1 vs1 where h: "handle pb ev n = Inr n1" "node_run pb evs n1 = Inr (vs1, n')" by auto
  with Cons.prems(3) have f: "clean_event pb ev n" "m_state n1 \<noteq> LEADER" "follower_run pb evs n1" by auto
  show ?case
    by (rule Cons.IH [OF follower_step [OF Cons.prems(1,2) f(1) h(1) f(2)] f(2,3) h(2)])
qed simp

text \<open>
  C18. The store of a node that has not led since its start. Start a node on an intact log and run
  it: timers, vote requests and replies, append requests and replies, client and membership calls,
  in any order and with any content, under two conditions. It does not become leader, and so no
  call of a leader goes on in it after a wait. And an append request that it accepts starts at an
  index in the range of \<open>int\<close>, has entries that fit on a page, conflicts with no committed entry
  and with none at or before the first entry of the open page, and carries a commit index inside
  the log that results. A crash ends the run; the restarted node starts a new one. Then at any time the log is intact, the last applied index is the
  commit index, and the store maps every key to what the last write of it in the committed
  prefix of the log says. Ex-leaders are excluded because a leader applies only the entries that
  a client call waits for, and a commit index beyond the log because the code throws then.
\<close>

theorem follower_store_is_committed_prefix:
  assumes log: "log_inv l" and start: "n = StateMachineInit (ConsensusModule_new a l now)"
    and ok: "follower_run pb evs n" and run: "node_run pb evs n = Inr (vs, n')"
  shows "log_inv (m_log n') \<and> LastApplied (m_state_machine n') = m_commit_index n' \<and>
     m_commit_index n' < int (length (log_list (m_log n'))) \<and>
     (\<forall>k. map_of (sm_store (m_state_machine n')) k = last_write k (take (nat (m_commit_index n' + 1)) (log_list (m_log n'))))"
proof -
  have "m_state n \<noteq> LEADER" by (simp add: start start_applied(2) [OF log])
  moreover have "applied_ok n" by (simp add: start start_applied(1) [OF log])
  ultimately have "applied_ok n'" using follower_run_applied ok run by blast
  then show ?thesis by (simp add: applied_ok_def state_of_log_def)
qed

definition sample_commit :: AppendEntries_Request where
  "sample_commit = sample_append\<lparr>ae_leaderCommit := 2\<rparr>"

definition sample_follower_run :: "Event list" where
  "sample_follower_run = [Vote_request sample_env (vote_for ''n2''), Append_request sample_env sample_commit]"

theorem follower_store_is_committed_prefix_witness:
  "\<exists>vs n'. node_run node_pb sample_follower_run sample_node = Inr (vs, n') \<and> m_commit_index n' = 2 \<and>
     map_of (sm_store (m_state_machine n')) ''a'' = last_write ''a'' (take 3 (log_list (m_log n')))"
proof -
  let ?r = "node_run node_pb sample_follower_run sample_node"
  have r: "\<not> isl ?r" and c: "m_commit_index (snd (projr ?r)) = 2" and f: "follower_run node_pb sample_follower_run sample_node"
    by code_simp+
  from r have eq: "?r = Inr (fst (projr ?r), snd (projr ?r))" by simp
  from follower_store_is_committed_prefix [OF node_log_inv(1) sample_node_def f eq] c eq show ?thesis by fastforce
qed

end
