(* ===== verification/Logger.thy ===== *)
theory Logger
  imports Raft_Prelude
begin

section \<open>The logger\<close>

text \<open>
  \<open>src/utils/logger.h\<close> and \<open>.cpp\<close>. The singleton is the record \<open>Logger\<close>; the console and
  the files it writes are part of it. What \<open>operator<<\<close> prints for an argument is the argument
  of the model, a string. \<open>gmtime_r\<close> is code of the C library: the broken-down time is an input.
\<close>

subsection \<open>State\<close>

datatype LogLevel = DEBUG | INFO | WARN | ERROR

datatype LogType = FILE | CONSOLE

text \<open>\<open>enum class\<close> values compare by their position.\<close>

primrec level_rank :: "LogLevel \<Rightarrow> nat" where
  "level_rank DEBUG = 0"
| "level_rank INFO = 1"
| "level_rank WARN = 2"
| "level_rank ERROR = 3"

instantiation LogLevel :: linorder
begin

definition "less_eq_LogLevel a b \<longleftrightarrow> level_rank a \<le> level_rank b"

definition "less_LogLevel a b \<longleftrightarrow> level_rank a < level_rank b"

instance
proof
  fix a b :: LogLevel
  show "a \<le> b \<Longrightarrow> b \<le> a \<Longrightarrow> a = b"
    by (cases a; cases b) (simp_all add: less_eq_LogLevel_def)
qed (auto simp: less_eq_LogLevel_def less_LogLevel_def)

end

text \<open>
  \<open>std::ofstream\<close>: the file it is associated with and its \<open>failbit\<close>. Opening a stream that
  is open already sets the bit and changes nothing else, and a stream with the bit set writes
  nothing.
\<close>

record ofstream =
  stream_path :: "string option"
  failbit :: bool

record Logger =
  m_level :: LogLevel
  m_type :: LogType
  m_log_file :: ofstream
  clog :: string
  log_files :: file_system

definition Logger_new :: "file_system \<Rightarrow> Logger" where
  "Logger_new fs = \<lparr>m_level = INFO, m_type = CONSOLE, m_log_file = \<lparr>stream_path = None, failbit = False\<rparr>,
     clog = [], log_files = fs\<rparr>"

primrec colored :: "LogLevel \<Rightarrow> string" where
  "colored ERROR = '' '' @ CHR 0x1B # ''[31;1m[ERROR]'' @ CHR 0x1B # ''[0m ''"
| "colored WARN = '' '' @ CHR 0x1B # ''[33;1m[WARN]'' @ CHR 0x1B # ''[0m  ''"
| "colored INFO = '' '' @ CHR 0x1B # ''[32;1m[INFO]'' @ CHR 0x1B # ''[0m  ''"
| "colored DEBUG = '' '' @ CHR 0x1B # ''[34;1m[DEBUG]'' @ CHR 0x1B # ''[0m ''"

definition SetLevel :: "LogLevel \<Rightarrow> Logger \<Rightarrow> Logger" where
  "SetLevel new_level g = g\<lparr>m_level := new_level\<rparr>"

definition SetLogConsole :: "Logger \<Rightarrow> Logger" where
  "SetLogConsole g = g\<lparr>m_type := CONSOLE\<rparr>"

text \<open>
  \<open>open\<close> for writing truncates the file. Whether the directory can be made is up to the
  system; the singleton keeps what was assigned before \<open>create_directories\<close> throws.
\<close>

definition open_log :: "string \<Rightarrow> Logger \<Rightarrow> Logger" where
  "open_log path g =
     (case stream_path (m_log_file g) of
        Some p \<Rightarrow> g\<lparr>m_log_file := (m_log_file g)\<lparr>failbit := True\<rparr>\<rparr>
      | None \<Rightarrow> g\<lparr>m_log_file := \<lparr>stream_path = Some path, failbit = False\<rparr>, log_files := fs_write path [] (log_files g)\<rparr>)"

definition SetLogFile :: "bool \<Rightarrow> string \<Rightarrow> Logger \<Rightarrow> exn option \<times> Logger" where
  "SetLogFile directory_made address g =
     (let g1 = g\<lparr>m_type := FILE\<rparr>;
          abs_file_dir = ''logs/'' @ address @ ''/'';
          abs_file_path = abs_file_dir @ ''log.txt''
      in if directory_made then (None, open_log abs_file_path g1) else (Some Filesystem_error, g1))"

subsection \<open>Time stamps\<close>

record tm =
  tm_year :: nat
  tm_mon :: nat
  tm_mday :: nat
  tm_hour :: nat
  tm_min :: nat
  tm_sec :: nat

definition zero_pad :: "nat \<Rightarrow> nat \<Rightarrow> string" where
  "zero_pad w n = (let s = nat_to_string n in replicate (w - length s) (CHR ''0'') @ s)"

text \<open>
  \<open>%09.6f\<close> of the seconds: rounded to microseconds. \<open>tie_up\<close> is the direction in which a
  value half way between two of them goes; the conversion to \<open>double\<close> decides it.
\<close>

definition microseconds :: "bool \<Rightarrow> nat \<Rightarrow> nat" where
  "microseconds tie_up ns =
     ns div 1000 + (if ns mod 1000 > 500 \<or> (ns mod 1000 = 500 \<and> tie_up) then 1 else 0)"

definition print_seconds :: "nat \<Rightarrow> string" where
  "print_seconds us = zero_pad 2 (us div 1000000) @ ''.'' @ zero_pad 6 (us mod 1000000)"

text \<open>
  \<open>sprintf\<close> writes the text and a terminating zero into a string of 26 characters; the
  zero replaces the one behind them. A longer text is written past the end.
\<close>

definition Timestamp :: "tm \<Rightarrow> nat \<Rightarrow> bool \<Rightarrow> string result" where
  "Timestamp gmt subsecond_ns tie_up =
     (let fractional_seconds = microseconds tie_up (tm_sec gmt * 1000000000 + subsecond_ns);
          buffer = ''year/mo/dy hr:mn:sc.xxxxxx'';
          printed = zero_pad 4 (tm_year gmt + 1900) @ ''/'' @ zero_pad 2 (tm_mon gmt + 1) @ ''/'' @
            zero_pad 2 (tm_mday gmt) @ '' '' @ zero_pad 2 (tm_hour gmt) @ '':'' @ zero_pad 2 (tm_min gmt) @ '':'' @
            print_seconds fractional_seconds
      in if length printed > length buffer then Inl Undefined_behaviour
         else Inr (printed @ (if length printed < length buffer then CHR 0x00 # drop (Suc (length printed)) buffer else [])))"

subsection \<open>Messages\<close>

definition message_line :: "string list \<Rightarrow> string" where
  "message_line args = concat (map (\<lambda>a. '' '' @ a) args) @ [CHR 0x0A]"

definition LogMessage :: "string list \<Rightarrow> Logger \<Rightarrow> Logger" where
  "LogMessage args g =
     (if m_type g = CONSOLE then g\<lparr>clog := clog g @ message_line args\<rparr>
      else if failbit (m_log_file g) then g
      else case stream_path (m_log_file g) of
        None \<Rightarrow> g\<lparr>m_log_file := (m_log_file g)\<lparr>failbit := True\<rparr>\<rparr>
      | Some p \<Rightarrow> g\<lparr>log_files := fs_append p (message_line args) (log_files g)\<rparr>)"

definition Log :: "tm \<Rightarrow> nat \<Rightarrow> bool \<Rightarrow> LogLevel \<Rightarrow> string list \<Rightarrow> Logger \<Rightarrow> Logger result" where
  "Log gmt subsecond_ns tie_up level args g =
     (if level \<ge> m_level g then
        rbind (Timestamp gmt subsecond_ns tie_up) (\<lambda>now.
          let level_str = colored level in
          Inr (if m_type g = CONSOLE then LogMessage (now # level_str # args) g else LogMessage (now # args) g))
      else Inr g)"

definition Logger_Debug :: "tm \<Rightarrow> nat \<Rightarrow> bool \<Rightarrow> string list \<Rightarrow> Logger \<Rightarrow> Logger result" where
  "Logger_Debug gmt ns tie_up args g = Log gmt ns tie_up DEBUG args g"

definition Logger_Info :: "tm \<Rightarrow> nat \<Rightarrow> bool \<Rightarrow> string list \<Rightarrow> Logger \<Rightarrow> Logger result" where
  "Logger_Info gmt ns tie_up args g = Log gmt ns tie_up INFO args g"

definition Logger_Warn :: "tm \<Rightarrow> nat \<Rightarrow> bool \<Rightarrow> string list \<Rightarrow> Logger \<Rightarrow> Logger result" where
  "Logger_Warn gmt ns tie_up args g = Log gmt ns tie_up WARN args g"

definition Logger_Error :: "tm \<Rightarrow> nat \<Rightarrow> bool \<Rightarrow> string list \<Rightarrow> Logger \<Rightarrow> Logger result" where
  "Logger_Error gmt ns tie_up args g = Log gmt ns tie_up ERROR args g"

text \<open>What \<open>main\<close> sets up.\<close>

definition main_logger :: "file_system \<Rightarrow> Logger" where
  "main_logger fs = SetLogConsole (SetLevel DEBUG (Logger_new fs))"

subsection \<open>What the logger does\<close>

lemma length_nat_to_string: "n < 10 ^ Suc k \<Longrightarrow> length (nat_to_string n) \<le> Suc k"
proof (induction k arbitrary: n)
  case 0
  then show ?case by (subst nat_to_string.simps) simp
next
  case (Suc k)
  show ?case
  proof (cases "n < 10")
    case False
    have "n div 10 < 10 ^ Suc k" using Suc.prems by (simp add: less_mult_imp_div_less)
    from Suc.IH [OF this] False show ?thesis by (subst nat_to_string.simps) simp
  qed (subst nat_to_string.simps, simp)
qed

lemma length_nat_to_string_ge: "10 ^ k \<le> n \<Longrightarrow> k < length (nat_to_string n)"
proof (induction k arbitrary: n)
  case (Suc k)
  have "10 ^ k \<le> n div 10" using Suc.prems by (simp add: less_eq_div_iff_mult_less_eq mult.commute)
  moreover have "\<not> n < 10" using Suc.prems one_le_power [of "10 :: nat" k] unfolding power_Suc by linarith
  ultimately show ?case using Suc.IH [of "n div 10"] by (subst nat_to_string.simps) simp
qed simp

lemma length_zero_pad: "0 < w \<Longrightarrow> n < 10 ^ w \<Longrightarrow> length (zero_pad w n) = w"
  using length_nat_to_string [of n "w - 1"] by (simp add: zero_pad_def Let_def)

lemma length_zero_pad_ge: "w \<le> length (zero_pad w n)"
  by (simp add: zero_pad_def Let_def)

text \<open>
  The time stamp of a valid time fits the buffer exactly up to the year 9999; from then on it is
  written past its end.
\<close>

definition valid_time :: "tm \<Rightarrow> nat \<Rightarrow> bool" where
  "valid_time gmt ns \<longleftrightarrow> tm_mon gmt < 12 \<and> tm_mday gmt \<le> 31 \<and> tm_hour gmt < 24 \<and> tm_min gmt < 60 \<and>
     tm_sec gmt \<le> 60 \<and> ns < 1000000000"

lemma length_print_seconds: "us < 100000000 \<Longrightarrow> length (print_seconds us) = 9"
  by (simp add: print_seconds_def length_zero_pad)

lemma timestamp_fits_buffer:
  assumes "valid_time gmt ns"
  shows "(\<exists>s. Timestamp gmt ns tie_up = Inr s \<and> length s = 26) \<longleftrightarrow> tm_year gmt + 1900 < 10000"
proof -
  have two: "length (zero_pad 2 (tm_mon gmt + 1)) = 2" "length (zero_pad 2 (tm_mday gmt)) = 2"
    "length (zero_pad 2 (tm_hour gmt)) = 2" "length (zero_pad 2 (tm_min gmt)) = 2"
    using assms by (simp_all add: valid_time_def length_zero_pad)
  have "microseconds tie_up (tm_sec gmt * 1000000000 + ns) < 100000000"
    using div_le_mono [of "tm_sec gmt * 1000000000 + ns" 60999999999 1000] assms
    by (simp add: microseconds_def valid_time_def)
  note sec = length_print_seconds [OF this]
  show ?thesis
  proof (cases "tm_year gmt + 1900 < 10000")
    case True
    then have "length (zero_pad 4 (tm_year gmt + 1900)) = 4" by (simp add: length_zero_pad)
    with True two sec show ?thesis by (simp add: Timestamp_def Let_def)
  next
    case False
    then have "4 < length (zero_pad 4 (tm_year gmt + 1900))"
      using length_nat_to_string_ge [of 4 "tm_year gmt + 1900"] by (simp add: zero_pad_def Let_def)
    with False two sec show ?thesis by (simp add: Timestamp_def Let_def)
  qed
qed

text \<open>Rounding can print sixty seconds: the last half microsecond of a minute does.\<close>

lemma rounding_prints_sixty:
  assumes "999999500 < ns" and "ns < 1000000000"
  shows "print_seconds (microseconds tie_up (59 * 1000000000 + ns)) = ''60.000000''"
proof -
  define k where "k = ns - 999999000"
  have k: "59 * 1000000000 + ns = k + 59999999 * 1000" "500 < k" "k < 1000" using assms by (simp_all add: k_def)
  then have "microseconds tie_up (59 * 1000000000 + ns) = 60000000"
    unfolding k(1) microseconds_def div_mult_self1 [OF numeral_neq_zero] mod_mult_self1 by simp
  moreover have "zero_pad 2 60 = ''60''" "zero_pad 6 0 = ''000000''" by code_simp+
  then have "print_seconds 60000000 = ''60.000000''" by (simp add: print_seconds_def)
  ultimately show ?thesis by simp
qed

text \<open>A message below the level changes nothing; any other is one line on the sink that is selected.\<close>

definition sink_text :: "Logger \<Rightarrow> string option" where
  "sink_text g =
     (if m_type g = CONSOLE then Some (clog g)
      else case stream_path (m_log_file g) of
        None \<Rightarrow> None | Some p \<Rightarrow> if failbit (m_log_file g) then None else fs_read (log_files g) p)"

lemma Log_one_line:
  assumes "Timestamp gmt ns tie_up = Inr now" and "sink_text g = Some txt"
  shows "\<exists>g'. Log gmt ns tie_up level args g = Inr g' \<and>
     sink_text g' = Some (txt @ (if level < m_level g then []
       else message_line (now # (if m_type g = CONSOLE then [colored level] else []) @ args))) \<and>
     m_level g' = m_level g \<and> m_type g' = m_type g \<and> (m_type g \<noteq> CONSOLE \<longrightarrow> clog g' = clog g)"
  using assms
  by (auto simp: Log_def LogMessage_def sink_text_def Let_def fs_append_def fs_write_def update_conv not_le
      split: if_splits option.splits)

text \<open>In a process of the command line every message is a line on the console, whatever its level.\<close>

lemma main_logger_logs_all:
  assumes "Timestamp gmt ns tie_up = Inr now"
  shows "\<exists>g'. Log gmt ns tie_up level args (main_logger fs) = Inr g' \<and>
     clog g' = message_line (now # colored level # args) \<and> log_files g' = fs"
  using assms
  by (cases level) (simp_all add: Log_def LogMessage_def main_logger_def SetLogConsole_def SetLevel_def Logger_new_def
      less_eq_LogLevel_def)

text \<open>
  A second log file is never written: the stream is not closed before it is opened again, so
  opening fails and everything logged from then on is lost.
\<close>

lemma second_log_file_is_lost:
  assumes "SetLogFile True a g = (None, g1)" and "SetLogFile True b g1 = (None, g2)"
    and "Log gmt ns tie_up level args g2 = Inr g3"
  shows "log_files g3 = log_files g1 \<and> clog g3 = clog g1"
proof -
  have o: "stream_path (m_log_file (open_log p k)) \<noteq> None" for p k by (simp add: open_log_def split: option.split)
  have "stream_path (m_log_file g1) \<noteq> None" using assms(1) o by (auto simp: SetLogFile_def Let_def)
  then have "g2 = g1\<lparr>m_type := FILE, m_log_file := (m_log_file g1)\<lparr>failbit := True\<rparr>\<rparr>"
    using assms(2) by (auto simp: SetLogFile_def open_log_def Let_def)
  then show ?thesis using assms(3) by (auto simp: Log_def LogMessage_def Let_def split: if_splits)
qed

text \<open>
  If the directory of the first log file cannot be made, the logger has left the console already
  and has no file: what is logged from then on is lost as well.
\<close>

lemma failed_log_file_is_lost:
  assumes "SetLogFile False a g = (Some x, g1)" and "stream_path (m_log_file g) = None"
    and "Log gmt ns tie_up level args g1 = Inr g2"
  shows "log_files g2 = log_files g \<and> clog g2 = clog g"
  using assms by (auto simp: SetLogFile_def Log_def LogMessage_def Let_def split: if_splits)

end
