(* ===== verification/Spec2Isabelle.thy ===== *)
theory Spec2Isabelle
  imports Cluster_Properties Component_Properties Executor_Properties Timer_Properties
    Proxy_Properties Server_Properties Command_Line Node_Properties Follower_Runs Logger
begin

text \<open>
  \<^bold>\<open>Verification of MaelstromDB.\<close> MaelstromDB is a replicated key-value store: every node
  keeps a raft log on disk, a leader replicates it, committed entries are applied to an in-memory
  store, and clients reach the leader through a proxy. This development models the program as it
  is written and proves what makes each part correct; where the code does not do what it means
  to, the model says what it does, and a lemma shows it.

  \<^bold>\<open>Parts of the program and the theories that model them.\<close>

  \<^item> \<open>Raft_Prelude\<close>: exceptions as values (\<open>exn\<close>, \<open>result\<close>, \<open>rbind\<close>), narrowing to
    the 32-bit \<open>int\<close>, ordered maps and hash sets of the C++ library, decimal printing and
    reading, the file system of one directory. \<open>Raft_Messages\<close>: \<open>protos/log.proto\<close> and
    \<open>protos/raft.proto\<close>; the protobuf library is the parameter \<open>protobuf\<close> with the laws
    \<open>codec_ok\<close>.
  \<^item> \<open>Persisted_Log\<close>: \<open>raft/storage.h\<close> and \<open>.cpp\<close>. Pages live in a heap and are shared
    by reference between the open page and the index map, the disk is an explicit file system.
    \<open>Persisted_Log_Read\<close>, \<open>_Write\<close> and \<open>_Truncate\<close> relate reading, appending and
    truncating to the list of entries \<open>log_list\<close>; \<open>Persisted_Metadata\<close> follows term and vote
    through the two metadata files and a restart. \<open>Raft_Log_Interface\<close> states what the
    consensus module may rely on as a locale and interprets it on the persisted log;
    \<open>Storage_Properties\<close> holds the properties.
  \<^item> \<open>Cluster_Configuration\<close>: \<open>raft/cluster_configuration.*\<close> (stable, joint and
    synchronising configurations, quorums). \<open>Session_Cache\<close>: \<open>raft/session_cache.*\<close>, the
    LRU list with its explicit nodes and pointers. \<open>State_Machine\<close>: \<open>raft/state_machine.*\<close>
    and \<open>core/inmemory_store.*\<close>. Their properties are in \<open>Component_Properties\<close>.
  \<^item> \<open>Consensus_Module\<close>: \<open>raft/consensus_module.*\<close>, every handler, timer callback and
    client call, and the sending side of \<open>raft/raft_client.*\<close>. A handler that waits on a
    condition variable is split where it waits: a membership change has a state at the head of
    its loop, one in the wait for progress and one in the wait for its commit. \<open>Consensus_Persistence\<close> and
    \<open>Consensus_Replication\<close> hold the lemmas on term and vote and on the log;
    \<open>Node_Runs\<close> turns the node into a state machine with crashes and restarts
    (\<open>node_reachable\<close>), \<open>Node_Configuration\<close> follows the configuration along its runs, and
    \<open>Follower_Runs\<close> the store of a node that has not led;
    \<open>Consensus_Properties\<close>, \<open>Leader_Properties\<close> and \<open>Node_Properties\<close> hold the properties.
  \<^item> \<open>Cluster_Runs\<close> puts the members of a cluster and the vote messages between them together;
    \<open>Cluster_Elections\<close> proves the invariant of elections by one lemma per kind of step, and
    \<open>Cluster_Properties\<close> holds the properties. What is between the members (messages under way,
    lost and reordered) models the network, not code of the repository.
  \<^item> \<open>Async_Executor\<close> and \<open>Timer_Queue\<close>: \<open>core/async_executor.*\<close> and
    \<open>core/timer.*\<close>, with step relations for all interleavings of clients and worker threads.
    What a timer needs of an executor is the locale \<open>executor\<close>, interpreted on the strand.
    Properties in \<open>Executor_Properties\<close> and \<open>Timer_Properties\<close>.
  \<^item> \<open>Raft_Server\<close>: \<open>raft/raft_server.*\<close> and the completion side of
    \<open>raft/raft_client.cpp\<close>; \<open>process_run\<close> interleaves the gRPC runtime, the server thread,
    the completion thread and the timers. \<open>Server_Queue\<close> specifies the server as a queue of
    requests and shows that its steps implement it. Properties in \<open>Server_Properties\<close>.
  \<^item> \<open>Leader_Proxy\<close>: \<open>raft/leader_proxy.*\<close>. The remote side is a parameter; what the proxy
    relies on is the locale \<open>leader_service\<close>, interpreted on the nodes' own read handler in
    \<open>Proxy_Properties\<close>. \<open>Command_Line\<close>: \<open>cli\<close> and \<open>raft/global_ctx_manager.*\<close>.
    \<open>Logger\<close>: \<open>utils/logger.*\<close>, the messages as strings and the sinks as state.

  \<^bold>\<open>What is shown.\<close> The persisted log refines a list for reading, appending and truncating
  inside the open page, and recovers term and vote after a restart; the code's behaviour outside
  of that (truncation to the start of the open page, entries larger than a page) is described by
  lemmas. Quorums of a stable or joint configuration intersect, and joint quorums meet those of
  both sides. Votes are granted only as raft allows, and one per term along runs in which no event
  moves the term back and no append request of the own term meets a candidate or leader with a
  vote cast; the events that do are shown to break this (stale replies, the heartbeat that reaches
  a restarted voter). A cluster has one leader per term, through lost and reordered messages,
  crashes and restarts, as long as terms do not go back, the members are known, vote replies are
  processed in their term, and votes are forgotten only by candidates and leaders that hear from
  a leader of their term; the check of a reply's term that the code lacks is necessary, as a run
  with two leaders of one term shows. Accepted append requests make a follower's log a copy of
  the leader's up to their end, if the conflict, if any, lies behind the first entry of the open
  page; the store of a node that has not led since its start is the effect of the committed
  prefix of its log; the leader commits up to the last entry of its term that a quorum stores.
  Sessions apply a write once. A strand runs everything it accepts, in order, and makes progress.
  A round of the timer thread fires the timers that are due in the order of their deadlines, as
  long as the queue has that order; a timer that is reset fires at its deadline or, if it is
  queued and its place is not that of the new deadline, makes the next round undefined; timers
  with different deadlines abstract to those of the consensus module. The server implements a
  queue of requests, answers every request once and never stops listening. The proxy's search ends.

  \<^bold>\<open>Choices.\<close> Counters and terms of the C++ \<open>int\<close> are integers; they are narrowed where
  the code narrows (\<open>to_int\<close>) and bounded where a property needs it. Times are milliseconds
  and readings of the clock are inputs (\<open>env\<close>). Loops are structural recursions or
  \<open>function\<close>s with a measure; the two loops that need not end are \<open>Retry\<close>, a
  \<open>partial_function\<close> in the option monad with a termination theorem, and the worker loops,
  which are modelled round by round; the number of rounds that \<open>strand_drains_and_stops\<close> gives
  is the number of queued callbacks plus three, one per callback and one for each change of
  phase. No other fuel occurs.

  \<^bold>\<open>Assumptions on concurrency.\<close> The critical sections of executors and timers are the steps
  of their models. A handler of the consensus module is atomic between its waits. The
  module has no lock of its own (the waits lock a mutex local to the call), so handlers of the
  server thread, the completion thread and the timers' strand can race in the code; such races
  are undefined behaviour and not modelled. Timers exist from construction on, although the code
  creates them in \<open>StateMachineInit\<close>.

  \<^bold>\<open>Not modelled.\<close> The gRPC and protobuf libraries, \<open>getopt_long\<close> and \<open>gmtime_r\<close>:
  code outside the repository, parameters or inputs of the model. Where the other parts call the
  logger is not modelled, since it changes nothing they read.
  Destructors and the shutdown of the gRPC server: the process ends. Trivial accessors are read
  as the fields they return. The unit tests are not part of the program.
\<close>

section \<open>Properties that span components\<close>

subsection \<open>The first node\<close>

lemma fresh_boot:
  "m_log (StateMachineInit (ConsensusModule_new a (fresh_log d k fs) now)) = fresh_log d k fs"
  "m_term (StateMachineInit (ConsensusModule_new a (fresh_log d k fs) now)) = 0"
  "ctx_address (StateMachineInit (ConsensusModule_new a (fresh_log d k fs) now)) = a"
  "m_configuration (StateMachineInit (ConsensusModule_new a (fresh_log d k fs) now)) = ClusterConfiguration_new"
proof -
  have "LatestConfiguration (fresh_log d k fs) = None" by (simp add: LatestConfiguration_def fresh_log_def)
  then show "m_log (StateMachineInit (ConsensusModule_new a (fresh_log d k fs) now)) = fresh_log d k fs"
    "m_term (StateMachineInit (ConsensusModule_new a (fresh_log d k fs) now)) = 0"
    "ctx_address (StateMachineInit (ConsensusModule_new a (fresh_log d k fs) now)) = a"
    "m_configuration (StateMachineInit (ConsensusModule_new a (fresh_log d k fs) now)) = ClusterConfiguration_new"
    by (simp_all add: StateMachineInit_fields)
      (simp_all add: StateMachineInit_def ConsensusModule_new_def Metadata_def fresh_log_def default_metadata_def Let_def CreateConnections_def)
qed

text \<open>The configuration entry that the first node writes.\<close>

definition own_configuration :: "string \<Rightarrow> LogEntry" where
  "own_configuration a = default_entry\<lparr>entry_term := 0, entry_type := CONFIGURATION,
     entry_data := ConfigurationData \<lparr>prev_configuration = [\<lparr>address = a\<rparr>], next_configuration = []\<rparr>\<rparr>"

lemma own_configuration_eq:
  "default_entry\<lparr>entry_term := 0, entry_type := NO_OP\<rparr> = default_entry" "\<not> has_configuration default_entry"
  "default_entry\<lparr>entry_term := 0, entry_type := CONFIGURATION,
     entry_data := ConfigurationData (empty_configuration\<lparr>prev_configuration := [\<lparr>address = a\<rparr>]\<rparr>)\<rparr> = own_configuration a"
  "has_configuration (own_configuration a)"
  "entry_configuration (own_configuration a) = \<lparr>prev_configuration = [\<lparr>address = a\<rparr>], next_configuration = []\<rparr>"
  by (simp_all add: default_entry_def has_configuration_def own_configuration_def entry_configuration_def empty_configuration_def)

lemma own_configuration_inserted:
  "m_id (InsertNewConfiguration 1 (entry_configuration (own_configuration a)) ClusterConfiguration_new) = 1"
  "ServerAddresses (InsertNewConfiguration 1 (entry_configuration (own_configuration a)) ClusterConfiguration_new) = [a]"
  by (simp_all add: own_configuration_eq InsertNewConfiguration_def ClusterConfiguration_new_def SetConfiguration_def
      SetState_def ServerAddresses_def uset_insert_all_def uset_insert_def Let_def)

lemma first_entries:
  assumes "0 \<le> k" and "k < 2 ^ 31" and "entry_fits pb (fresh_log d k fs) x" and "entry_fits pb (fresh_log d k fs) y"
  obtains l1 l2 where "Append_entry pb x (fresh_log d k fs) = Inr (0, l1)" "Append_entry pb y l1 = Inr (1, l2)" "log_list l2 = [x, y]"
proof -
  have "log_list (fresh_log d k fs) = []" by (simp add: log_list_def log_records_def fresh_log_def)
  then obtain l1 where l1: "Append_entry pb x (fresh_log d k fs) = Inr (0, l1)" "log_inv l1" "log_list l1 = [x]"
    "m_max_file_size l1 = m_max_file_size (fresh_log d k fs)"
    using Append_entry_inv [OF fresh_log_inv [OF assms(1,2)] assms(3)] by (auto simp: LogSize_def fresh_log_def)
  have "entry_fits pb l1 y" using assms(4) l1(4) by (simp add: entry_fits_def)
  from Append_entry_inv [OF l1(2) this] l1(1,3) that show thesis
    by (auto simp: LogSize_log_list [OF log_inv_readable [OF l1(2)]])
qed

lemma InitializeConfiguration_fresh:
  fixes a d :: string and k now :: int and fs :: file_system
  defines "n \<equiv> StateMachineInit (ConsensusModule_new a (fresh_log d k fs) now)"
  assumes l1: "Append_entry pb default_entry (fresh_log d k fs) = Inr (0, l1)"
    and l2: "Append_entry pb (own_configuration a) l1 = Inr (1, l2)"
  shows "\<exists>n'. InitializeConfiguration pb n = Inr n' \<and> m_state n' = LEADER \<and> m_term n' = 0 \<and> m_leader_id n' = a \<and>
     timer_armed (m_heartbeat_timer n') \<and> m_log n' = l2 \<and>
     m_configuration n' = InsertNewConfiguration 1 (entry_configuration (own_configuration a)) ClusterConfiguration_new"
proof -
  note b = fresh_boot [of a d k fs now, folded n_def]
  let ?n1 = "ScheduleHeartbeat (n\<lparr>m_state := LEADER, m_votes_received := 0, m_leader_id := a,
     m_election_timer := Timer_Cancel (m_election_timer n), m_log := l1\<rparr>)"
  let ?c = "InsertNewConfiguration 1 (entry_configuration (own_configuration a)) ClusterConfiguration_new"
  let ?n2 = "CreateConnections [a] (?n1\<lparr>m_log := l2, m_configuration := ?c\<rparr>)"
  have p: "PromoteToLeader pb n = Inr ?n1"
    using l1 own_configuration_eq(1,2) by (simp add: PromoteToLeader_def Module_Append_entry_def b Let_def)
  have f: "m_log ?n1 = l1" "m_configuration ?n1 = ClusterConfiguration_new" "ctx_address ?n1 = a" "m_state ?n1 = LEADER"
    "m_term ?n1 = 0" "m_leader_id ?n1 = a" "timer_armed (m_heartbeat_timer ?n1)"
    by (simp_all add: ScheduleHeartbeat_def b Timer_Reset_def)
  have s: "LastLogIndex (fresh_log d k fs) = -1" "ServerAddresses ClusterConfiguration_new = []"
    by (simp_all add: LastLogIndex_def LogSize_def fresh_log_def ServerAddresses_def ClusterConfiguration_new_def)
  have "Module_Append_entry pb (own_configuration a) ?n1 = Inr (1, ?n2)"
    using l2 own_configuration_inserted own_configuration_eq(4) f by (simp add: Module_Append_entry_def Let_def)
  with p f(3) s own_configuration_eq(3) [of a] have "InitializeConfiguration pb n = Inr ?n2"
    by (simp add: InitializeConfiguration_def b Let_def)
  moreover have "m_state ?n2 = LEADER" "m_term ?n2 = 0" "m_leader_id ?n2 = a" "timer_armed (m_heartbeat_timer ?n2)"
    "m_log ?n2 = l2" "m_configuration ?n2 = ?c"
    using f by (simp_all add: CreateConnections_def Let_def)
  ultimately show ?thesis by blast
qed

text \<open>
  C40. Starting the first node of a cluster. \<open>create --leader\<close> on an empty directory returns
  with the server ready, if the two entries it writes fit: the node is the leader of term 0 with
  its heartbeat timer armed, its log holds an empty entry and the configuration of the node
  alone, which is in force, and the process is in a state from which the properties of the
  server's runs hold.
\<close>

theorem first_node_bootstraps:
  assumes dir: "ListDirectoryContents ''/data/raft/'' fs = []"
    and fits: "entry_fits pb (fresh_log ''/data/raft/'' 8192 fs) default_entry"
      "entry_fits pb (fresh_log ''/data/raft/'' 8192 fs) (own_configuration a)"
  shows "\<exists>n. Create_InitializeNode pb a True now fs = Inr (ServerInit, n) \<and> process_run pb ServerInit n \<and>
     m_state n = LEADER \<and> m_term n = 0 \<and> m_leader_id n = a \<and> timer_armed (m_heartbeat_timer n) \<and>
     log_list (m_log n) = [default_entry, own_configuration a] \<and>
     m_id (m_configuration n) = 1 \<and> ServerAddresses (m_configuration n) = [a]"
proof -
  let ?l = "fresh_log ''/data/raft/'' 8192 fs"
  let ?n = "StateMachineInit (ConsensusModule_new a ?l now)"
  obtain l1 l2 where l: "Append_entry pb default_entry ?l = Inr (0, l1)" "Append_entry pb (own_configuration a) l1 = Inr (1, l2)"
    "log_list l2 = [default_entry, own_configuration a]"
    by (rule first_entries [OF _ _ fits]) simp_all
  from InitializeConfiguration_fresh [OF l(1,2)] obtain n where n: "InitializeConfiguration pb ?n = Inr n"
    "m_state n = LEADER" "m_term n = 0" "m_leader_id n = a" "timer_armed (m_heartbeat_timer n)" "m_log n = l2"
    "m_configuration n = InsertNewConfiguration 1 (entry_configuration (own_configuration a)) ClusterConfiguration_new" by blast
  have "node_reachable pb n"
    by (rule node_reachable.event [OF node_reachable.boot [OF empty_no_metadata [OF dir], of pb a 8192 now], of Initialize_configuration])
      (simp_all add: n(1))
  moreover have "Create_InitializeNode pb a True now fs = Inr (ServerInit, n)"
    using n(1) by (simp add: Create_InitializeNode_def GlobalCtxManager_new_def restore_empty [OF dir])
  ultimately show ?thesis using process_run.start n l(3) own_configuration_inserted by auto
qed

definition boot_pb :: protobuf where
  "boot_pb = \<lparr>entry_codec = table_codec [default_entry, own_configuration ''n1''], metadata_codec = table_codec []\<rparr>"

theorem first_node_bootstraps_witness:
  "\<exists>n. Create_InitializeNode boot_pb ''n1'' True 0 [] = Inr (ServerInit, n) \<and> m_state n = LEADER \<and>
     ServerAddresses (m_configuration n) = [''n1'']"
proof -
  have "ListDirectoryContents ''/data/raft/'' [] = []" by (simp add: ListDirectoryContents_def)
  moreover have "entry_fits boot_pb (fresh_log ''/data/raft/'' 8192 []) default_entry"
    "entry_fits boot_pb (fresh_log ''/data/raft/'' 8192 []) (own_configuration ''n1'')"
    by (simp_all add: entry_fits_def boot_pb_def table_codec_def fresh_log_def)
  ultimately show ?thesis using first_node_bootstraps [of "[]" boot_pb "''n1''" 0] by blast
qed

end
